(* ===== verification/Kernel_Prelude.thy ===== *)
theory Kernel_Prelude
  imports Main "HOL-Library.Word"
begin

text \<open>
  Shared vocabulary of the development: the outcome type that carries Rust's
  \<open>Result\<close> and panics, the 64-bit \<open>usize\<close> arithmetic of the debug build (the
  \<open>Makefile\<close> builds \<open>target/.../debug\<close>, so an overflowing \<open>+\<close>, \<open>-\<close> or \<open>*\<close> panics),
  slice filling, and the generic list and arithmetic lemmas the components use.
  A \<open>usize\<close> is a natural number below \<open>2 ^ 64\<close>; bit-field registers are words.
\<close>

section \<open>Fact collections\<close>

named_theorems kernel_defs \<open>definitions that component proofs unfold\<close>
named_theorems outcome_simps \<open>rewriting outcomes\<close>

section \<open>Outcomes\<close>

text \<open>
  \<open>Ok\<close> and \<open>Err\<close> are Rust's \<open>Result\<close>. \<open>Panic\<close> stands for every way the code stops:
  \<open>panic!\<close>, \<open>assert!\<close>, \<open>expect\<close>/\<open>unwrap\<close>, \<open>todo!\<close>, an index out of bounds and an
  arithmetic overflow.
\<close>

datatype ('e, 'a) outcome = Ok 'a | Err 'e | Panic

fun bind_outcome :: "('e, 'a) outcome \<Rightarrow> ('a \<Rightarrow> ('e, 'b) outcome) \<Rightarrow> ('e, 'b) outcome" where
  "bind_outcome (Ok a) f = f a"
| "bind_outcome (Err e) f = Err e"
| "bind_outcome Panic f = Panic"

fun map_outcome_err :: "('e \<Rightarrow> 'f) \<Rightarrow> ('e, 'a) outcome \<Rightarrow> ('f, 'a) outcome" where
  "map_outcome_err g (Ok a) = Ok a"
| "map_outcome_err g (Err e) = Err (g e)"
| "map_outcome_err g Panic = Panic"

fun is_ok :: "('e, 'a) outcome \<Rightarrow> bool" where
  "is_ok (Ok _) = True"
| "is_ok _ = False"

fun expect_ok :: "('e, 'a) outcome \<Rightarrow> ('f, 'a) outcome" where
  "expect_ok (Ok a) = Ok a"
| "expect_ok _ = Panic"

definition ensure :: "bool \<Rightarrow> ('e, unit) outcome" where
  "ensure b = (if b then Ok () else Panic)"

section \<open>Checked, wrapping and saturating usize arithmetic\<close>

abbreviation usize_bound :: nat where
  "usize_bound \<equiv> 2 ^ 64"

definition add_checked :: "nat \<Rightarrow> nat \<Rightarrow> ('e, nat) outcome" where
  "add_checked a b = (if a + b < usize_bound then Ok (a + b) else Panic)"

definition sub_checked :: "nat \<Rightarrow> nat \<Rightarrow> ('e, nat) outcome" where
  "sub_checked a b = (if b \<le> a then Ok (a - b) else Panic)"

definition mul_checked :: "nat \<Rightarrow> nat \<Rightarrow> ('e, nat) outcome" where
  "mul_checked a b = (if a * b < usize_bound then Ok (a * b) else Panic)"

definition wrapping_add :: "nat \<Rightarrow> nat \<Rightarrow> nat" where
  "wrapping_add a b = (a + b) mod usize_bound"

definition saturating_add :: "nat \<Rightarrow> nat \<Rightarrow> nat" where
  "saturating_add a b = min (a + b) (usize_bound - 1)"

definition div_ceil :: "nat \<Rightarrow> nat \<Rightarrow> nat" where
  "div_ceil a b = (if a mod b = 0 then a div b else a div b + 1)"

section \<open>Slices\<close>

text \<open>\<open>xs[i..j].fill(v)\<close>: panics when the range does not lie inside the slice.\<close>

definition fill_range :: "'a list \<Rightarrow> nat \<Rightarrow> nat \<Rightarrow> 'a \<Rightarrow> ('e, 'a list) outcome" where
  "fill_range xs i j v =
     (if i \<le> j \<and> j \<le> length xs
      then Ok (take i xs @ replicate (j - i) v @ drop j xs) else Panic)"

text \<open>\<open>&xs[i..j]\<close>.\<close>

definition slice_range :: "'a list \<Rightarrow> nat \<Rightarrow> nat \<Rightarrow> ('e, 'a list) outcome" where
  "slice_range xs i j =
     (if i \<le> j \<and> j \<le> length xs then Ok (take (j - i) (drop i xs)) else Panic)"

section \<open>Bit fields of registers\<close>

text \<open>
  The accessors the \<open>bitfield!\<close> declarations of the source stand for: bits \<open>hi\<close> to \<open>lo\<close> of a word, and
  the word with these bits replaced by the low bits of \<open>v\<close>.
\<close>

definition get_field :: "nat \<Rightarrow> nat \<Rightarrow> 'w::len word \<Rightarrow> 'w word" where
  "get_field hi lo e = take_bit (hi + 1 - lo) (drop_bit lo e)"

definition set_field :: "nat \<Rightarrow> nat \<Rightarrow> 'w::len word \<Rightarrow> 'w word \<Rightarrow> 'w word" where
  "set_field hi lo v e =
     or (and e (not (push_bit lo (mask (hi + 1 - lo))))) (push_bit lo (take_bit (hi + 1 - lo) v))"

definition get_flag :: "nat \<Rightarrow> 'w::len word \<Rightarrow> bool" where
  "get_flag n e = bit e n"

definition set_flag :: "nat \<Rightarrow> bool \<Rightarrow> 'w::len word \<Rightarrow> 'w word" where
  "set_flag n b e = (if b then set_bit n e else unset_bit n e)"

section \<open>Lemmas\<close>

lemma bind_outcome_Ok_iff [outcome_simps]:
  "bind_outcome m f = Ok r \<longleftrightarrow> (\<exists>a. m = Ok a \<and> f a = Ok r)"
  by (cases m) auto

lemma bind_outcome_Err_iff [outcome_simps]:
  "bind_outcome m f = Err e \<longleftrightarrow> m = Err e \<or> (\<exists>a. m = Ok a \<and> f a = Err e)"
  by (cases m) auto

lemma bind_outcome_Panic_iff [outcome_simps]:
  "bind_outcome m f = Panic \<longleftrightarrow> m = Panic \<or> (\<exists>a. m = Ok a \<and> f a = Panic)"
  by (cases m) auto

lemma bind_outcome_cong [fundef_cong]:
  "m = m' \<Longrightarrow> (\<And>a. m' = Ok a \<Longrightarrow> f a = f' a) \<Longrightarrow> bind_outcome m f = bind_outcome m' f'"
  by (cases m') auto

lemma map_outcome_err_iff [outcome_simps]:
  "map_outcome_err g m = Ok a \<longleftrightarrow> m = Ok a"
  "map_outcome_err g m = Panic \<longleftrightarrow> m = Panic"
  "map_outcome_err g m = Err e \<longleftrightarrow> (\<exists>e'. m = Err e' \<and> e = g e')"
  by (cases m; auto)+

lemma add_checked_Ok_iff [outcome_simps]:
  "add_checked a b = Ok c \<longleftrightarrow> c = a + b \<and> a + b < usize_bound"
  by (auto simp: add_checked_def)

lemma sub_checked_Ok_iff [outcome_simps]:
  "sub_checked a b = Ok c \<longleftrightarrow> b \<le> a \<and> c = a - b"
  by (auto simp: sub_checked_def)

lemma mul_checked_Ok_iff [outcome_simps]:
  "mul_checked a b = Ok c \<longleftrightarrow> c = a * b \<and> a * b < usize_bound"
  by (auto simp: mul_checked_def)

lemma checked_not_Err [simp]:
  "add_checked a b \<noteq> Err e" "sub_checked a b \<noteq> Err e" "mul_checked a b \<noteq> Err e"
  by (auto simp: add_checked_def sub_checked_def mul_checked_def)

lemma add_checked_small [simp]: "a + b < usize_bound \<Longrightarrow> add_checked a b = Ok (a + b)"
  by (simp add: add_checked_def)

lemma sub_checked_le [simp]: "b \<le> a \<Longrightarrow> sub_checked a b = Ok (a - b)"
  by (simp add: sub_checked_def)

lemma mul_checked_small [simp]: "a * b < usize_bound \<Longrightarrow> mul_checked a b = Ok (a * b)"
  by (simp add: mul_checked_def)

lemma expect_ok_Ok_iff [outcome_simps]: "expect_ok m = Ok a \<longleftrightarrow> m = Ok a"
  by (cases m) auto

lemma expect_ok_not_Err [simp]: "expect_ok m \<noteq> Err e"
  by (cases m) auto

lemma ensure_Ok_iff [outcome_simps]: "ensure b = Ok u \<longleftrightarrow> b"
  by (auto simp: ensure_def)

lemma ensure_simps [simp]: "ensure True = Ok ()" "ensure False = Panic"
  by (simp_all add: ensure_def)

lemma wrapping_add_small: "a + b < usize_bound \<Longrightarrow> wrapping_add a b = a + b"
  by (simp add: wrapping_add_def)

lemma wrapping_add_bound [simp]: "wrapping_add a b < usize_bound"
  by (simp add: wrapping_add_def)

lemma div_ceil_mult [simp]: "0 < b \<Longrightarrow> div_ceil (n * b) b = n"
  by (simp add: div_ceil_def)

lemma div_ceil_mult' [simp]: "0 < b \<Longrightarrow> div_ceil (b * n) b = n"
  by (simp add: div_ceil_def)

lemma div_ceil_0 [simp]: "div_ceil 0 b = 0"
  by (simp add: div_ceil_def)

lemma div_ceil_bounds:
  assumes "0 < b"
  shows "a \<le> div_ceil a b * b" and "div_ceil a b * b < a + b"
proof -
  have split: "a = a div b * b + a mod b" by simp
  have small: "a mod b < b" using assms by simp
  show "a \<le> div_ceil a b * b"
  proof (cases "a mod b = 0")
    case True
    then show ?thesis using split by (simp add: div_ceil_def)
  next
    case False
    then have "div_ceil a b * b = a div b * b + b" by (simp add: div_ceil_def)
    then show ?thesis using split small by linarith
  qed
  show "div_ceil a b * b < a + b"
  proof (cases "a mod b = 0")
    case True
    then show ?thesis using split assms by (simp add: div_ceil_def)
  next
    case False
    then have "div_ceil a b * b = a div b * b + b" by (simp add: div_ceil_def)
    then show ?thesis using split False by linarith
  qed
qed

lemma div_ceil_step: "0 < b \<Longrightarrow> 0 < a \<Longrightarrow> div_ceil a b = Suc (div_ceil (a - b) b)"
proof (cases "b \<le> a")
  case True
  assume "0 < b"
  with True show ?thesis by (simp add: div_ceil_def le_div_geq le_mod_geq)
qed (simp add: div_ceil_def)

lemma bit_get_field:
  "bit (get_field hi lo e) n \<longleftrightarrow> n < hi + 1 - lo \<and> bit (e :: 'w::len word) (lo + n)"
  by (auto simp: get_field_def bit_simps)

lemma bit_set_field:
  "bit (set_field hi lo v e) n \<longleftrightarrow>
     (if lo \<le> n \<and> n \<le> hi then n < LENGTH('w) \<and> bit v (n - lo) else bit (e :: 'w::len word) n)"
  by (auto simp: set_field_def bit_simps dest: bit_imp_le_length)

lemma bit_set_flag:
  "bit (set_flag k b e) n \<longleftrightarrow> (if n = k then n < LENGTH('w) \<and> b else bit (e :: 'w::len word) n)"
  by (auto simp: set_flag_def bit_simps dest: bit_imp_le_length)

lemma get_field_set_field_same:
  "hi < LENGTH('w) \<Longrightarrow> lo \<le> hi \<Longrightarrow> get_field hi lo (set_field hi lo v (e :: 'w::len word)) = take_bit (hi + 1 - lo) v"
  by (rule bit_word_eqI) (auto simp: bit_get_field bit_set_field bit_take_bit_iff)

lemma get_field_set_field_other:
  "hi' < lo \<or> hi < lo' \<Longrightarrow> get_field hi' lo' (set_field hi lo v (e :: 'w::len word)) = get_field hi' lo' e"
  by (rule bit_word_eqI) (auto simp: bit_get_field bit_set_field)

lemma fill_range_Ok_iff [outcome_simps]:
  "fill_range xs i j v = Ok ys \<longleftrightarrow>
     i \<le> j \<and> j \<le> length xs \<and> ys = take i xs @ replicate (j - i) v @ drop j xs"
  by (auto simp: fill_range_def)

lemma fill_range_not_Err [simp]: "fill_range xs i j v \<noteq> Err e"
  by (simp add: fill_range_def)

lemma length_fill [simp]:
  "i \<le> j \<Longrightarrow> j \<le> length xs \<Longrightarrow> length (take i xs @ replicate (j - i) v @ drop j xs) = length xs"
  by simp

lemma nth_fill:
  assumes "i \<le> j" "j \<le> length xs" "k < length xs"
  shows "(take i xs @ replicate (j - i) v @ drop j xs) ! k = (if i \<le> k \<and> k < j then v else xs ! k)"
  using assms by (auto simp: nth_append)

end
