(* ===== verification/Mem_Address.thy ===== *)
theory Mem_Address
  imports Kernel_Prelude
begin

text \<open>
  Physical and virtual addresses and the errors of the memory subsystem
  (\<open>kernel/src/memory/mod.rs\<close>, with \<open>MapError\<close> of \<open>memory/paging.rs\<close>).
  Both address types are newtypes over \<open>usize\<close>; here they are naturals below \<open>2 ^ 64\<close>.
\<close>

unbundle bit_operations_syntax

section \<open>Addresses\<close>

definition PAGE_SIZE :: nat where
  "PAGE_SIZE = 4 * 1024"

type_synonym physical_address = nat
type_synonym virtual_address = nat

definition canonical_base :: nat where
  "canonical_base = 0xffff000000000000"

definition to_virtual_canonical :: "physical_address \<Rightarrow> ('e, virtual_address) outcome" where
  "to_virtual_canonical pa = add_checked pa canonical_base"

definition to_physical_canonical :: "virtual_address \<Rightarrow> ('e, physical_address) outcome" where
  "to_physical_canonical va = sub_checked va canonical_base"

definition is_page_aligned :: "physical_address \<Rightarrow> bool" where
  "is_page_aligned pa = (pa AND (PAGE_SIZE - 1) = 0)"

definition pa_add :: "physical_address \<Rightarrow> nat \<Rightarrow> physical_address" where
  "pa_add pa byte_offset = saturating_add pa byte_offset"

text \<open>\<open>saturating_add_signed\<close>: saturates at 0 and at the largest \<open>usize\<close>.\<close>

definition pa_offset :: "physical_address \<Rightarrow> int \<Rightarrow> physical_address" where
  "pa_offset pa byte_offset = nat (max 0 (min (int pa + byte_offset) (2 ^ 64 - 1)))"

definition va_add :: "virtual_address \<Rightarrow> nat \<Rightarrow> virtual_address" where
  "va_add va byte_offset = wrapping_add va byte_offset"

definition va_offset :: "virtual_address \<Rightarrow> int \<Rightarrow> virtual_address" where
  "va_offset va byte_offset = nat ((int va + byte_offset) mod 2 ^ 64)"

text \<open>The number of bytes to the next multiple of a power-of-two alignment.\<close>

definition align_offset :: "virtual_address \<Rightarrow> nat \<Rightarrow> nat" where
  "align_offset va alignment = (if va mod alignment = 0 then 0 else alignment - va mod alignment)"

text \<open>The page-table indices and page offset of a virtual address.\<close>

definition to_parts :: "virtual_address \<Rightarrow> nat \<times> nat \<times> nat \<times> nat \<times> nat \<times> nat" where
  "to_parts va =
     (let tag = drop_bit 48 (0xffff000000000000 AND va);
          lv0_index = drop_bit 39 (push_bit 39 0x1ff AND va);
          lv1_index = drop_bit 30 (push_bit 30 0x1ff AND va);
          lv2_index = drop_bit 21 (push_bit 21 0x1ff AND va);
          lv3_index = drop_bit 12 (push_bit 12 0x1ff AND va);
          page_offset = va AND 0xfff
      in (tag, lv0_index, lv1_index, lv2_index, lv3_index, page_offset))"

definition from_parts ::
  "nat \<Rightarrow> nat \<Rightarrow> nat \<Rightarrow> nat \<Rightarrow> nat \<Rightarrow> nat \<Rightarrow> ('e, virtual_address) outcome" where
  "from_parts tag l0 l1 l2 l3 offset =
     (if tag \<le> 0xffff \<and> l0 \<le> 0x1ff \<and> l1 \<le> 0x1ff \<and> l2 \<le> 0x1ff \<and> l3 \<le> 0x1ff \<and> offset \<le> 0x3ff
      then Ok (push_bit 48 tag OR push_bit 39 l0 OR push_bit 30 l1
               OR push_bit 21 l2 OR push_bit 12 l3 OR offset)
      else Panic)"

section \<open>Errors\<close>

datatype map_error =
    RangeAlreadyMapped virtual_address nat virtual_address
  | MapRangeBadVirtualBase string virtual_address
  | InsufficentMapSpace nat virtual_address
  | InvalidTag
  | CopyFromUnmapped "virtual_address option" nat

datatype memory_error =
    OutOfMemory
  | InsufficentForAllocation nat
  | MapErr map_error

section \<open>Splitting and reassembling virtual addresses\<close>

lemma push_or_nat:
  assumes "b < 2 ^ n"
  shows "push_bit n a OR b = a * 2 ^ n + (b::nat)"
proof -
  have "bit b k \<Longrightarrow> k < n" for k
    using assms bit_take_bit_iff [of n b k] by (simp add: take_bit_nat_eq_self)
  then have "push_bit n a AND b = 0"
    by (intro bit_eqI) (use linorder_not_le in \<open>auto simp: bit_simps\<close>)
  then show ?thesis
    by (simp add: disjunctive_add_eq_or [symmetric] push_bit_eq_mult)
qed

lemma drop_bit_masked_field:
  "drop_bit n (push_bit n (2 ^ w - 1) AND va) = va div 2 ^ n mod 2 ^ w" for va :: nat
proof -
  have "drop_bit n (push_bit n (2 ^ w - 1) AND va) = mask w AND drop_bit n va"
    by (simp add: drop_bit_push_bit mask_eq_exp_minus_1)
  also have "\<dots> = take_bit w (drop_bit n va)"
    by (simp add: take_bit_eq_mask and.commute)
  finally show ?thesis by (simp add: take_bit_eq_mod drop_bit_eq_div)
qed

lemma to_parts_eq:
  "to_parts va = (va div 2 ^ 48 mod 2 ^ 16, va div 2 ^ 39 mod 512, va div 2 ^ 30 mod 512,
     va div 2 ^ 21 mod 512, va div 2 ^ 12 mod 512, va mod 4096)"
proof -
  have po: "va AND 0xfff = va mod 4096"
    using take_bit_eq_mask [of 12 va] by (simp add: take_bit_eq_mod mask_eq_exp_minus_1)
  have t: "(0xffff000000000000 :: nat) = push_bit 48 (2 ^ 16 - 1)" by (simp add: push_bit_eq_mult)
  have m: "(0x1ff :: nat) = 2 ^ 9 - 1" by simp
  have r: "(512 :: nat) = 2 ^ 9" by simp
  show ?thesis
    unfolding to_parts_def Let_def t m po drop_bit_masked_field r by (rule refl)
qed

lemma from_parts_eq:
  assumes "tag \<le> 0xffff" "l0 \<le> 0x1ff" "l1 \<le> 0x1ff" "l2 \<le> 0x1ff" "l3 \<le> 0x1ff" "offset \<le> 0x3ff"
  shows "from_parts tag l0 l1 l2 l3 offset =
    Ok (tag * 2 ^ 48 + l0 * 2 ^ 39 + l1 * 2 ^ 30 + l2 * 2 ^ 21 + l3 * 2 ^ 12 + offset)"
proof -
  have s3: "push_bit 12 l3 OR offset = l3 * 2 ^ 12 + offset"
    by (rule push_or_nat) (use assms in simp)
  have s2: "push_bit 21 l2 OR (l3 * 2 ^ 12 + offset) = l2 * 2 ^ 21 + (l3 * 2 ^ 12 + offset)"
    by (rule push_or_nat) (use assms in simp)
  have s1: "push_bit 30 l1 OR (l2 * 2 ^ 21 + (l3 * 2 ^ 12 + offset)) =
      l1 * 2 ^ 30 + (l2 * 2 ^ 21 + (l3 * 2 ^ 12 + offset))"
    by (rule push_or_nat) (use assms in simp)
  have s0: "push_bit 39 l0 OR (l1 * 2 ^ 30 + (l2 * 2 ^ 21 + (l3 * 2 ^ 12 + offset))) =
      l0 * 2 ^ 39 + (l1 * 2 ^ 30 + (l2 * 2 ^ 21 + (l3 * 2 ^ 12 + offset)))"
    by (rule push_or_nat) (use assms in simp)
  have st: "push_bit 48 tag OR (l0 * 2 ^ 39 + (l1 * 2 ^ 30 + (l2 * 2 ^ 21 + (l3 * 2 ^ 12 + offset)))) =
      tag * 2 ^ 48 + (l0 * 2 ^ 39 + (l1 * 2 ^ 30 + (l2 * 2 ^ 21 + (l3 * 2 ^ 12 + offset))))"
    by (rule push_or_nat) (use assms in simp)
  show ?thesis
    using assms by (simp only: from_parts_def or.assoc s3 s2 s1 s0 st) simp
qed

lemma horner_eq:
  fixes v p q1 q2 q3 q4 q5 r1 r2 r3 r4 :: nat
  assumes "q1 = q2 * 512 + r1" "q2 = q3 * 512 + r2" "q3 = q4 * 512 + r3" "q4 = q5 * 512 + r4"
    "q1 * 4096 + p = v"
  shows "q5 * 2 ^ 48 + r4 * 2 ^ 39 + r3 * 2 ^ 30 + r2 * 2 ^ 21 + r1 * 2 ^ 12 + p = v"
  using assms by simp

lemma parts_sum:
  fixes va :: nat assumes "va < 2 ^ 64"
  shows "(va div 2 ^ 48 mod 2 ^ 16) * 2 ^ 48 + (va div 2 ^ 39 mod 512) * 2 ^ 39
    + (va div 2 ^ 30 mod 512) * 2 ^ 30 + (va div 2 ^ 21 mod 512) * 2 ^ 21
    + (va div 2 ^ 12 mod 512) * 2 ^ 12 + va mod 4096 = va"
proof -
  have split: "va div m = va div (m * 512) * 512 + va div m mod 512" for m
    by (simp add: div_mult2_eq)
  have e: "va div 2 ^ 48 mod 2 ^ 16 = va div 2 ^ 48" using assms by simp
  show ?thesis
    unfolding e by (rule horner_eq [of "va div 2 ^ 12" "va div 2 ^ 21" _ "va div 2 ^ 30" _ "va div 2 ^ 39"])
      (use split [of "2 ^ 12"] split [of "2 ^ 21"] split [of "2 ^ 30"] split [of "2 ^ 39"] in simp_all)
qed

lemma from_parts_to_parts:
  assumes "va < usize_bound" "to_parts va = (tag, i0, i1, i2, i3, po)"
  shows "from_parts tag i0 i1 i2 i3 po = (if po \<le> 0x3ff then Ok va else Panic)"
proof -
  have eq: "tag = va div 2 ^ 48 mod 2 ^ 16" "i0 = va div 2 ^ 39 mod 512" "i1 = va div 2 ^ 30 mod 512"
    "i2 = va div 2 ^ 21 mod 512" "i3 = va div 2 ^ 12 mod 512" "po = va mod 4096"
    using assms(2) by (simp_all add: to_parts_eq)
  have "x mod 512 \<le> 0x1ff" for x :: nat
    using mod_less_divisor [of 512 x] by linarith
  then have bounds: "tag \<le> 0xffff" "i0 \<le> 0x1ff" "i1 \<le> 0x1ff" "i2 \<le> 0x1ff" "i3 \<le> 0x1ff"
    using mod_less_divisor [of "2 ^ 16" "va div 2 ^ 48"] unfolding eq by simp_all
  show ?thesis
  proof (cases "po \<le> 0x3ff")
    case True
    then show ?thesis using from_parts_eq [OF bounds True] parts_sum [OF assms(1)] eq by simp
  next
    case False
    then show ?thesis by (simp add: from_parts_def)
  qed
qed

lemma to_parts_from_parts:
  assumes "from_parts tag l0 l1 l2 l3 offset = Ok va"
  shows "to_parts va = (tag, l0, l1, l2, l3, offset)"
proof -
  have b: "tag \<le> 0xffff" "l0 \<le> 0x1ff" "l1 \<le> 0x1ff" "l2 \<le> 0x1ff" "l3 \<le> 0x1ff" "offset \<le> 0x3ff"
    using assms by (auto simp: from_parts_def split: if_splits)
  have va: "va = tag * 2 ^ 48 + l0 * 2 ^ 39 + l1 * 2 ^ 30 + l2 * 2 ^ 21 + l3 * 2 ^ 12 + offset"
    using assms by (simp add: from_parts_eq [OF b])
  have horner: "va = ((((tag * 512 + l0) * 512 + l1) * 512 + l2) * 512 + l3) * 4096 + offset"
    unfolding va by simp
  have q: "(a * m + r) div m = a" "(a * m + r) mod m = r" if "r < m" for a m r :: nat
    using that by auto
  have d: "va div 2 ^ 12 = (((tag * 512 + l0) * 512 + l1) * 512 + l2) * 512 + l3"
    "va mod 4096 = offset"
    using q [of offset 4096] b(6) by (simp_all only: horner) simp_all
  have e1: "va div 2 ^ 12 div 512 = ((tag * 512 + l0) * 512 + l1) * 512 + l2" "va div 2 ^ 12 mod 512 = l3"
    unfolding d(1) by (rule q; use b in simp)+
  have e2: "va div 2 ^ 12 div 512 div 512 = (tag * 512 + l0) * 512 + l1"
    "va div 2 ^ 12 div 512 mod 512 = l2"
    unfolding e1(1) by (rule q; use b in simp)+
  have e3: "va div 2 ^ 12 div 512 div 512 div 512 = tag * 512 + l0"
    "va div 2 ^ 12 div 512 div 512 mod 512 = l1"
    unfolding e2(1) by (rule q; use b in simp)+
  have e4: "va div 2 ^ 12 div 512 div 512 div 512 div 512 = tag"
    "va div 2 ^ 12 div 512 div 512 div 512 mod 512 = l0"
    unfolding e3(1) by (rule q; use b in simp)+
  have chain: "va div 2 ^ 21 = va div 2 ^ 12 div 512" "va div 2 ^ 30 = va div 2 ^ 12 div 512 div 512"
    "va div 2 ^ 39 = va div 2 ^ 12 div 512 div 512 div 512"
    "va div 2 ^ 48 = va div 2 ^ 12 div 512 div 512 div 512 div 512"
    by (simp_all flip: div_mult2_eq)
  show ?thesis
    using b(1) by (simp only: to_parts_eq chain e1(2) e2(2) e3(2) e4 d(2)) simp
qed
lemma from_parts_bound:
  assumes "from_parts tag l0 l1 l2 l3 offset = Ok va"
  shows "va < usize_bound" and "offset \<le> 0x3ff"
proof -
  have b: "tag \<le> 0xffff" "l0 \<le> 0x1ff" "l1 \<le> 0x1ff" "l2 \<le> 0x1ff" "l3 \<le> 0x1ff" "offset \<le> 0x3ff"
    using assms by (auto simp: from_parts_def split: if_splits)
  then show "offset \<le> 0x3ff" by simp
  have "va = tag * 2 ^ 48 + l0 * 2 ^ 39 + l1 * 2 ^ 30 + l2 * 2 ^ 21 + l3 * 2 ^ 12 + offset"
    using assms by (simp add: from_parts_eq [OF b])
  then show "va < usize_bound" using b by simp
qed

text \<open>
  C1. \<open>VirtualAddress::from_parts\<close> is the exact inverse of \<open>to_parts\<close> on the addresses whose page
  offset is at most \<open>0x3ff\<close>: it returns an address exactly when the address is a \<open>usize\<close> that
  \<open>to_parts\<close> splits into the given parts, and it panics on every other argument (in particular on
  the offsets \<open>0x400 .. 0xfff\<close> that \<open>to_parts\<close> also produces).
\<close>

theorem from_parts_iff_to_parts:
  "from_parts tag l0 l1 l2 l3 offset = Ok va \<longleftrightarrow>
     va < usize_bound \<and> offset \<le> 0x3ff \<and> to_parts va = (tag, l0, l1, l2, l3, offset)"
proof
  assume ok: "from_parts tag l0 l1 l2 l3 offset = Ok va"
  show "va < usize_bound \<and> offset \<le> 0x3ff \<and> to_parts va = (tag, l0, l1, l2, l3, offset)"
    using from_parts_bound [OF ok] to_parts_from_parts [OF ok] by simp
next
  assume "va < usize_bound \<and> offset \<le> 0x3ff \<and> to_parts va = (tag, l0, l1, l2, l3, offset)"
  then show "from_parts tag l0 l1 l2 l3 offset = Ok va"
    using from_parts_to_parts [of va tag l0 l1 l2 l3 offset] by simp
qed

end
