(* ===== verification/Region_Alloc.thy ===== *)
theory Region_Alloc
  imports Mem_Address
begin

text \<open>
  The contract shared by the page-granular allocators of the kernel (the physical memory
  allocator and the virtual address allocator), and what their clients may conclude from it:
  along any history of allocations and releases the regions in use are pairwise disjoint and,
  together with the free addresses, partition the memory the allocator manages.
\<close>

section \<open>Regions\<close>

definition region :: "nat \<Rightarrow> nat \<Rightarrow> nat set" where
  "region a n = {a ..< a + n * PAGE_SIZE}"

lemma region_0 [simp]: "region a 0 = {}"
  by (simp add: region_def)

lemma PAGE_SIZE_pos [simp]: "0 < PAGE_SIZE" "PAGE_SIZE \<noteq> 0"
  by (simp_all add: PAGE_SIZE_def)

lemma region_append: "region a (m + n) = region a m \<union> region (a + m * PAGE_SIZE) n"
  by (auto simp: region_def algebra_simps)

lemma region_append_disjoint: "region a m \<inter> region (a + m * PAGE_SIZE) n = {}"
  by (auto simp: region_def)

section \<open>Histories\<close>

text \<open>
  A history from \<open>s0\<close>: allocations, and releases of regions that are in use. The list holds the
  regions in use, as pairs of start address and page count.
\<close>

inductive alloc_history ::
  "(nat \<Rightarrow> 's \<Rightarrow> (memory_error, 's \<times> nat) outcome) \<Rightarrow>
   (nat \<Rightarrow> nat \<Rightarrow> 's \<Rightarrow> (memory_error, 's) outcome) \<Rightarrow> 's \<Rightarrow> 's \<Rightarrow> (nat \<times> nat) list \<Rightarrow> bool"
  for alloc release s0 where
  history_start: "alloc_history alloc release s0 s0 []"
| history_alloc: "alloc_history alloc release s0 s live \<Longrightarrow> 0 < n \<Longrightarrow> alloc n s = Ok (s', a) \<Longrightarrow>
    alloc_history alloc release s0 s' ((a, n) # live)"
| history_release: "alloc_history alloc release s0 s live \<Longrightarrow> (a, n) \<in> set live \<Longrightarrow>
    release a n s = Ok s' \<Longrightarrow> alloc_history alloc release s0 s' (remove1 (a, n) live)"

primrec in_use :: "(nat \<times> nat) list \<Rightarrow> nat set" where
  "in_use [] = {}"
| "in_use (r # live) = region (fst r) (snd r) \<union> in_use live"

primrec separated :: "(nat \<times> nat) list \<Rightarrow> bool" where
  "separated [] = True"
| "separated (r # live) = (region (fst r) (snd r) \<inter> in_use live = {} \<and> separated live)"

lemma region_subset_in_use: "(a, n) \<in> set live \<Longrightarrow> region a n \<subseteq> in_use live"
  by (induction live) auto

lemma in_use_remove1:
  "separated live \<Longrightarrow> (a, n) \<in> set live \<Longrightarrow> in_use (remove1 (a, n) live) = in_use live - region a n"
proof (induction live)
  case (Cons r live)
  then show ?case using region_subset_in_use [of a n live] by auto
qed simp

lemma separated_remove1: "separated live \<Longrightarrow> separated (remove1 (a, n) live)"
proof (induction live)
  case (Cons r live)
  then show ?case
    by (cases "(a, n) \<in> set live") (auto simp: in_use_remove1 remove1_idem)
qed simp

lemma separated_disjoint:
  "separated live \<Longrightarrow> i < j \<Longrightarrow> j < length live \<Longrightarrow> live ! i = (a, n) \<Longrightarrow> live ! j = (b, m) \<Longrightarrow>
     region a n \<inter> region b m = {}"
proof (induction live arbitrary: i j)
  case (Cons r live)
  show ?case
  proof (cases i)
    case 0
    then have "(b, m) \<in> set live" using Cons.prems nth_mem [of "j - 1" live] by (cases j) auto
    then show ?thesis using 0 Cons.prems region_subset_in_use by fastforce
  next
    case (Suc k)
    then show ?thesis using Cons.prems Cons.IH [of k "j - 1"] by (cases j) auto
  qed
qed simp

section \<open>The allocator contract\<close>

text \<open>
  \<open>inv\<close> is the well-formedness of the allocator's state, \<open>free_set\<close> the addresses it may still
  hand out, \<open>wf_region s a n\<close> says that \<open>n\<close> pages at \<open>a\<close> are a region of the kind \<open>s\<close> manages.
\<close>

locale region_allocator =
  fixes inv :: "'s \<Rightarrow> bool"
    and free_set :: "'s \<Rightarrow> nat set"
    and wf_region :: "'s \<Rightarrow> nat \<Rightarrow> nat \<Rightarrow> bool"
    and alloc :: "nat \<Rightarrow> 's \<Rightarrow> (memory_error, 's \<times> nat) outcome"
    and release :: "nat \<Rightarrow> nat \<Rightarrow> 's \<Rightarrow> (memory_error, 's) outcome"
  assumes alloc_law: "inv s \<Longrightarrow> 0 < n \<Longrightarrow> alloc n s = Ok (s', a) \<Longrightarrow>
      inv s' \<and> wf_region s' a n \<and> region a n \<subseteq> free_set s \<and> free_set s' = free_set s - region a n"
    and alloc_keeps: "inv s \<Longrightarrow> 0 < n \<Longrightarrow> alloc n s = Ok (s', a) \<Longrightarrow> wf_region s' b m = wf_region s b m"
    and alloc_total: "inv s \<Longrightarrow> 0 < n \<Longrightarrow> n * PAGE_SIZE < usize_bound \<Longrightarrow> alloc n s \<noteq> Panic"
    and release_law: "inv s \<Longrightarrow> 0 < n \<Longrightarrow> wf_region s a n \<Longrightarrow> region a n \<inter> free_set s = {} \<Longrightarrow>
      \<exists>s'. release a n s = Ok s' \<and> inv s' \<and> free_set s' = free_set s \<union> region a n \<and>
           (\<forall>b m. wf_region s' b m = wf_region s b m)"
begin

text \<open>What a client may rely on after any history.\<close>

definition consistent :: "'s \<Rightarrow> 's \<Rightarrow> (nat \<times> nat) list \<Rightarrow> bool" where
  "consistent s0 s live \<longleftrightarrow> inv s \<and> separated live \<and> in_use live \<inter> free_set s = {} \<and>
     in_use live \<union> free_set s = free_set s0 \<and> (\<forall>(a, n)\<in>set live. 0 < n \<and> wf_region s a n)"

lemma release_consistent:
  assumes "consistent s0 s live" "(a, n) \<in> set live"
  shows "\<exists>s'. release a n s = Ok s' \<and> consistent s0 s' (remove1 (a, n) live)"
proof -
  have sub: "region a n \<subseteq> in_use live" by (rule region_subset_in_use [OF assms(2)])
  obtain s' where s': "release a n s = Ok s'" "inv s'" "free_set s' = free_set s \<union> region a n"
    "\<forall>b m. wf_region s' b m = wf_region s b m"
    using assms sub release_law [of s n a] unfolding consistent_def by blast
  have "in_use (remove1 (a, n) live) = in_use live - region a n" "separated (remove1 (a, n) live)"
    using assms in_use_remove1 separated_remove1 by (auto simp: consistent_def)
  then have "consistent s0 s' (remove1 (a, n) live)"
    using assms s' sub set_remove1_subset [of "(a, n)" live] unfolding consistent_def by blast
  then show ?thesis using s' by blast
qed

lemma alloc_consistent:
  assumes "consistent s0 s live" "0 < n" "alloc n s = Ok (s', a)"
  shows "consistent s0 s' ((a, n) # live)"
  using assms alloc_law [of s n s' a] alloc_keeps [of s n s' a] unfolding consistent_def by fastforce

lemma history_consistent:
  assumes "inv s0" "alloc_history alloc release s0 s live"
  shows "consistent s0 s live"
  using assms(2)
proof (induction rule: alloc_history.induct)
  case history_start
  then show ?case using assms(1) by (simp add: consistent_def)
next
  case (history_alloc s live n s' a)
  then show ?case using alloc_consistent by blast
next
  case (history_release s live a n s')
  then show ?case using release_consistent by fastforce
qed

lemma history_partition:
  assumes "inv s0" "alloc_history alloc release s0 s live"
  shows "inv s \<and> separated live \<and> in_use live \<inter> free_set s = {} \<and> in_use live \<union> free_set s = free_set s0"
  using history_consistent [OF assms] by (simp add: consistent_def)

lemma history_alloc_returns:
  assumes "inv s0" "alloc_history alloc release s0 s live" "0 < n" "n * PAGE_SIZE < usize_bound"
  shows "alloc n s \<noteq> Panic"
  using alloc_total history_partition [OF assms(1, 2)] assms(3, 4) by blast

lemma history_release_succeeds:
  assumes "inv s0" "alloc_history alloc release s0 s live" "(a, n) \<in> set live"
  shows "\<exists>s'. release a n s = Ok s'"
  using release_consistent [OF history_consistent [OF assms(1, 2)] assms(3)] by blast

end

end
