(* ===== verification/Phys_Alloc.thy ===== *)
theory Phys_Alloc
  imports Region_Alloc
begin

text \<open>
  The physical memory allocator (\<open>kernel/src/memory/physical_memory_allocator.rs\<close>): a bitmap of
  pages, allocated first-fit. The spin lock around the global instance is not modelled: every
  operation below runs with the lock held. Log output is dropped.
\<close>

section \<open>The allocator\<close>

record phys_alloc =
  allocated_pages :: "bool list"
  memory_start :: nat
  memory_length :: nat

definition memory_start_addr :: "phys_alloc \<Rightarrow> physical_address" where
  "memory_start_addr p = memory_start p"

definition total_memory_size :: "phys_alloc \<Rightarrow> nat" where
  "total_memory_size p = memory_length p"

text \<open>
  The iterator \<open>pi\<close> of the scan is the index of the next page together with the pages still to
  be visited. \<open>skip_allocated\<close> is the inner loop that looks for an empty page.
\<close>

fun skip_allocated :: "nat \<Rightarrow> bool list \<Rightarrow> (nat \<times> bool list) option" where
  "skip_allocated i [] = None"
| "skip_allocated i (allocated # rest) =
     (if allocated then skip_allocated (Suc i) rest else Some (i, rest))"

text \<open>The loop \<open>for _ in 0..(page_count - 1)\<close> that checks the pages after the first one.\<close>

datatype run_check = RunFound | RunExhausted | RunBroken nat "bool list"

fun check_run :: "nat \<Rightarrow> nat \<Rightarrow> bool list \<Rightarrow> run_check" where
  "check_run 0 i as = RunFound"
| "check_run (Suc m) i [] = RunExhausted"
| "check_run (Suc m) i (allocated # rest) =
     (if allocated then RunBroken (Suc i) rest else check_run m (Suc i) rest)"

lemma skip_allocated_length: "skip_allocated i as = Some (s, rest) \<Longrightarrow> length rest < length as"
  by (induction i as rule: skip_allocated.induct) (auto split: if_splits)

lemma check_run_length: "check_run m i as = RunBroken i' rest \<Longrightarrow> length rest < length as"
  by (induction m i as rule: check_run.induct) (auto split: if_splits)

text \<open>The loop labelled \<open>'top\<close>. \<open>page_count - 1\<close> underflows, so panics, when no page is asked for.\<close>

function alloc_scan :: "nat \<Rightarrow> nat \<Rightarrow> bool list \<Rightarrow> (memory_error, nat) outcome" where
  "alloc_scan page_count i as =
     (case skip_allocated i as of
        None \<Rightarrow> Err OutOfMemory
      | Some (start_index, rest) \<Rightarrow>
          if page_count = 0 then Panic
          else (case check_run (page_count - 1) (Suc start_index) rest of
                  RunFound \<Rightarrow> Ok start_index
                | RunExhausted \<Rightarrow>
                    bind_outcome (mul_checked page_count PAGE_SIZE) (\<lambda>size. Err (InsufficentForAllocation size))
                | RunBroken i' rest' \<Rightarrow> alloc_scan page_count i' rest'))"
  by pat_completeness auto
termination
  by (relation "measure (\<lambda>(_, _, as). length as)")
    (auto dest!: skip_allocated_length check_run_length)

definition take_pages ::
  "phys_alloc \<Rightarrow> nat \<Rightarrow> nat \<Rightarrow> (memory_error, phys_alloc \<times> physical_address) outcome" where
  "take_pages p start_index page_count =
     bind_outcome (add_checked start_index page_count) (\<lambda>end_index.
     bind_outcome (fill_range (allocated_pages p) start_index end_index True) (\<lambda>pages.
     bind_outcome (mul_checked start_index PAGE_SIZE) (\<lambda>byte_offset.
     bind_outcome (add_checked (memory_start p) byte_offset) (\<lambda>addr.
     Ok (p\<lparr>allocated_pages := pages\<rparr>, addr)))))"

definition alloc_contig ::
  "nat \<Rightarrow> phys_alloc \<Rightarrow> (memory_error, phys_alloc \<times> physical_address) outcome" where
  "alloc_contig page_count p =
     bind_outcome (alloc_scan page_count 0 (allocated_pages p)) (\<lambda>start_index.
       take_pages p start_index page_count)"

definition alloc_page :: "phys_alloc \<Rightarrow> (memory_error, phys_alloc \<times> physical_address) outcome" where
  "alloc_page p = alloc_contig 1 p"

text \<open>The counting loop of \<open>try_alloc_contig\<close>: a run that is cut short after \<open>k + 1\<close> pages is accepted.\<close>

fun try_count :: "nat \<Rightarrow> nat \<Rightarrow> nat \<Rightarrow> bool list \<Rightarrow> nat option" where
  "try_count desired 0 k as = Some desired"
| "try_count desired (Suc m) k [] = None"
| "try_count desired (Suc m) k (allocated # rest) =
     (if allocated then Some (k + 1) else try_count desired m (Suc k) rest)"

definition try_alloc_contig ::
  "nat \<Rightarrow> phys_alloc \<Rightarrow> (memory_error, phys_alloc \<times> physical_address \<times> nat) outcome" where
  "try_alloc_contig desired_page_count p =
     (case skip_allocated 0 (allocated_pages p) of
        None \<Rightarrow> Err OutOfMemory
      | Some (start_index, rest) \<Rightarrow>
          bind_outcome (sub_checked desired_page_count 1) (\<lambda>m.
          case try_count desired_page_count m 0 rest of
            None \<Rightarrow> bind_outcome (mul_checked desired_page_count PAGE_SIZE)
                      (\<lambda>size. Err (InsufficentForAllocation size))
          | Some actual_page_count \<Rightarrow>
              bind_outcome (take_pages p start_index actual_page_count) (\<lambda>(p', addr).
              Ok (p', addr, actual_page_count))))"

text \<open>A double free is only logged; the range is indexed for that check, so it panics out of bounds.\<close>

definition free_pages :: "physical_address \<Rightarrow> nat \<Rightarrow> phys_alloc \<Rightarrow> (memory_error, phys_alloc) outcome" where
  "free_pages base_address page_count p =
     bind_outcome (sub_checked base_address (memory_start p)) (\<lambda>byte_offset.
     let page_index = div_ceil byte_offset PAGE_SIZE in
     bind_outcome (add_checked page_index page_count) (\<lambda>end_index.
     bind_outcome (fill_range (allocated_pages p) page_index end_index False) (\<lambda>pages.
     Ok (p\<lparr>allocated_pages := pages\<rparr>))))"

definition free_page :: "physical_address \<Rightarrow> phys_alloc \<Rightarrow> (memory_error, phys_alloc) outcome" where
  "free_page base_address p = free_pages base_address 1 p"

section \<open>Specification vocabulary\<close>

definition free_run :: "bool list \<Rightarrow> nat \<Rightarrow> nat \<Rightarrow> bool" where
  "free_run as i n \<longleftrightarrow> i + n \<le> length as \<and> (\<forall>k. i \<le> k \<and> k < i + n \<longrightarrow> \<not> as ! k)"

text \<open>All pages have 64-bit addresses.\<close>

definition pma_inv :: "phys_alloc \<Rightarrow> bool" where
  "pma_inv p \<longleftrightarrow> memory_start p + length (allocated_pages p) * PAGE_SIZE < usize_bound"

definition page_number :: "phys_alloc \<Rightarrow> nat \<Rightarrow> nat" where
  "page_number p x = (x - memory_start p) div PAGE_SIZE"

definition pma_free_set :: "phys_alloc \<Rightarrow> nat set" where
  "pma_free_set p = {x. memory_start p \<le> x \<and> page_number p x < length (allocated_pages p)
                        \<and> \<not> allocated_pages p ! page_number p x}"

definition pma_region :: "phys_alloc \<Rightarrow> nat \<Rightarrow> nat \<Rightarrow> bool" where
  "pma_region p a n \<longleftrightarrow>
     (\<exists>i. a = memory_start p + i * PAGE_SIZE \<and> i + n \<le> length (allocated_pages p))"

section \<open>The scan\<close>

lemma skip_allocated_Some:
  "skip_allocated i as = Some (s, rest) \<Longrightarrow>
     \<exists>d. s = i + d \<and> d < length as \<and> rest = drop (Suc d) as \<and> \<not> as ! d \<and> (\<forall>k<d. as ! k)"
proof (induction i as rule: skip_allocated.induct)
  case (2 i allocated rest')
  show ?case
  proof (cases allocated)
    case True
    then obtain d where "s = Suc i + d" "d < length rest'" "rest = drop (Suc d) rest'"
      "\<not> rest' ! d" "\<forall>k<d. rest' ! k"
      using 2 by auto
    then show ?thesis
      using True by (intro exI [of _ "Suc d"]) (auto simp: nth_Cons split: nat.splits)
  qed (use 2 in auto)
qed simp

lemma skip_allocated_None: "skip_allocated i as = None \<Longrightarrow> k < length as \<Longrightarrow> as ! k"
  by (induction i as arbitrary: k rule: skip_allocated.induct)
    (auto simp: nth_Cons split: if_splits nat.splits)

lemma check_run_Found: "check_run m i as = RunFound \<Longrightarrow> m \<le> length as \<and> (\<forall>k<m. \<not> as ! k)"
  by (induction m i as rule: check_run.induct) (auto simp: nth_Cons split: if_splits nat.splits)

lemma check_run_Exhausted: "check_run m i as = RunExhausted \<Longrightarrow> length as < m"
  by (induction m i as rule: check_run.induct) (auto split: if_splits)

lemma check_run_Broken:
  "check_run m i as = RunBroken i' rest \<Longrightarrow>
     \<exists>k<m. k < length as \<and> i' = Suc (i + k) \<and> as ! k \<and> rest = drop (Suc k) as"
proof (induction m i as rule: check_run.induct)
  case (3 m i allocated rest')
  show ?case
  proof (cases allocated)
    case False
    then obtain k where "k < m" "k < length rest'" "i' = Suc (Suc i + k)" "rest' ! k"
      "rest = drop (Suc k) rest'"
      using 3 by auto
    then show ?thesis using False by (intro exI [of _ "Suc k"]) auto
  qed (use 3 in auto)
qed simp_all

text \<open>One iteration of the outer loop, on a suffix of the bitmap.\<close>

lemma no_run_before_start:
  assumes "skip_allocated i (drop i as) = Some (s, rest)" "\<forall>j<i. \<not> free_run as j n" "0 < n"
  shows "i \<le> s \<and> s < length as \<and> \<not> as ! s \<and> rest = drop (Suc s) as \<and> (\<forall>j < s. \<not> free_run as j n)"
proof -
  obtain d where d: "s = i + d" "d < length (drop i as)" "rest = drop (Suc d) (drop i as)"
    "\<not> drop i as ! d" "\<forall>k<d. drop i as ! k"
    using skip_allocated_Some [OF assms(1)] by blast
  have "\<not> free_run as j n" if "j < s" for j
  proof (cases "j < i")
    case False
    then have "as ! j" using that d spec [OF d(5), of "j - i"] by simp
    then show ?thesis using assms(3) by (force simp: free_run_def)
  qed (use assms in auto)
  then show ?thesis using d by (auto simp: add.commute)
qed

lemma no_run_before_break:
  assumes "check_run (n - 1) (Suc s) (drop (Suc s) as) = RunBroken i' rest" "0 < n"
    "\<forall>j < s. \<not> free_run as j n"
  shows "i' \<le> length as \<and> rest = drop i' as \<and> (\<forall>j<i'. \<not> free_run as j n)"
proof -
  obtain k where k: "k < n - 1" "k < length (drop (Suc s) as)" "i' = Suc (Suc s + k)"
    "drop (Suc s) as ! k" "rest = drop (Suc k) (drop (Suc s) as)"
    using check_run_Broken [OF assms(1)] by blast
  have broken: "as ! (Suc s + k)" using k by simp
  have "\<not> free_run as j n" if "j < i'" for j
  proof (cases "j < s")
    case False
    then have "j \<le> Suc s + k" "Suc s + k < j + n" using that k by auto
    then show ?thesis using broken unfolding free_run_def by blast
  qed (use assms in auto)
  then show ?thesis using k by (auto simp: add.commute)
qed

lemma free_run_found:
  assumes "check_run (n - 1) (Suc s) (drop (Suc s) as) = RunFound" "s < length as" "\<not> as ! s" "0 < n"
  shows "free_run as s n"
  unfolding free_run_def
proof (intro conjI allI impI)
  have c: "n - 1 \<le> length as - Suc s" "\<forall>k<n - 1. \<not> drop (Suc s) as ! k"
    using check_run_Found [OF assms(1)] by auto
  show "s + n \<le> length as" using c assms by simp
  fix k assume k: "s \<le> k \<and> k < s + n"
  show "\<not> as ! k"
  proof (cases "k = s")
    case False
    then have "\<not> drop (Suc s) as ! (k - Suc s)" using c(2) k by auto
    then show ?thesis using False k assms by simp
  qed (use assms in simp)
qed

declare alloc_scan.simps [simp del]

lemma alloc_scan_correct:
  assumes "\<forall>j<i. \<not> free_run as j n" "0 < n" "n * PAGE_SIZE < usize_bound" "suffix = drop i as"
  shows "case alloc_scan n i suffix of
           Ok s \<Rightarrow> free_run as s n \<and> (\<forall>j < s. \<not> free_run as j n)
         | Err e \<Rightarrow> (\<forall>j. \<not> free_run as j n) \<and> e \<in> {OutOfMemory, InsufficentForAllocation (n * PAGE_SIZE)}
         | Panic \<Rightarrow> False"
  using assms
proof (induction n i suffix rule: alloc_scan.induct)
  case (1 n i suffix)
  note suffix = \<open>suffix = drop i as\<close>
  show ?case
  proof (cases "skip_allocated i suffix")
    case None
    have "\<not> free_run as j n" for j
    proof (cases "j < i")
      case False
      then have "j < length as \<Longrightarrow> as ! j" using skip_allocated_None [OF None [unfolded suffix], of "j - i"] by simp
      then show ?thesis using 1(3) by (force simp: free_run_def)
    qed (use 1 in auto)
    then show ?thesis using None by (subst alloc_scan.simps) simp
  next
    case (Some sr)
    obtain s rest where sr: "sr = (s, rest)" by (cases sr)
    note start = no_run_before_start [OF Some [unfolded sr suffix] 1(2, 3)]
    show ?thesis
    proof (cases "check_run (n - 1) (Suc s) rest")
      case RunFound
      then have "free_run as s n" using free_run_found start 1(3) by auto
      then show ?thesis using start Some sr RunFound 1(3) by (subst alloc_scan.simps) simp
    next
      case RunExhausted
      have "length as < s + n" using check_run_Exhausted [OF RunExhausted] start by auto
      then have "\<not> free_run as j n" for j using start by (cases "j < s") (auto simp: free_run_def)
      then show ?thesis using Some sr RunExhausted 1(3, 4) by (subst alloc_scan.simps) simp
    next
      case (RunBroken i' rest')
      have b: "i' \<le> length as \<and> rest' = drop i' as \<and> (\<forall>j<i'. \<not> free_run as j n)"
        using no_run_before_break [of n s as i' rest'] RunBroken start 1(3) by auto
      then show ?thesis
        using 1(1) [OF Some sr [symmetric] _ RunBroken] Some sr RunBroken 1(3, 4)
        by (subst alloc_scan.simps) simp
    qed
  qed
qed

section \<open>Allocation and release\<close>

definition mark_pages :: "phys_alloc \<Rightarrow> nat \<Rightarrow> nat \<Rightarrow> bool \<Rightarrow> phys_alloc" where
  "mark_pages p i n v = p\<lparr>allocated_pages :=
     take i (allocated_pages p) @ replicate n v @ drop (i + n) (allocated_pages p)\<rparr>"

lemma mark_pages_simps [simp]:
  "memory_start (mark_pages p i n v) = memory_start p"
  "memory_length (mark_pages p i n v) = memory_length p"
  "i + n \<le> length (allocated_pages p) \<Longrightarrow>
     length (allocated_pages (mark_pages p i n v)) = length (allocated_pages p)"
  "page_number (mark_pages p i n v) x = page_number p x"
  by (simp_all add: mark_pages_def page_number_def)

lemma mark_pages_nth:
  "i + n \<le> length (allocated_pages p) \<Longrightarrow> k < length (allocated_pages p) \<Longrightarrow>
     allocated_pages (mark_pages p i n v) ! k = (if i \<le> k \<and> k < i + n then v else allocated_pages p ! k)"
  using nth_fill [of i "i + n" "allocated_pages p" k v] by (simp add: mark_pages_def)

lemma mark_pages_inv: "pma_inv p \<Longrightarrow> i + n \<le> length (allocated_pages p) \<Longrightarrow> pma_inv (mark_pages p i n v)"
  by (simp add: pma_inv_def)

lemma pma_index_bounds:
  assumes "pma_inv p" "i \<le> length (allocated_pages p)"
  shows "i < usize_bound" "memory_start p + i * PAGE_SIZE < usize_bound" "i * PAGE_SIZE < usize_bound"
proof -
  have le: "i * PAGE_SIZE \<le> length (allocated_pages p) * PAGE_SIZE" using assms(2) by simp
  show "memory_start p + i * PAGE_SIZE < usize_bound" "i * PAGE_SIZE < usize_bound"
    using assms(1) le unfolding pma_inv_def by linarith+
  then show "i < usize_bound" by (simp add: PAGE_SIZE_def)
qed

lemma take_pages_eq:
  assumes "pma_inv p" "i + n \<le> length (allocated_pages p)"
  shows "take_pages p i n = Ok (mark_pages p i n True, memory_start p + i * PAGE_SIZE)"
  using assms pma_index_bounds [OF assms] pma_index_bounds [OF assms(1), of i]
  by (simp add: take_pages_def fill_range_def mark_pages_def)

lemma free_pages_eq:
  assumes "pma_inv p" "i + n \<le> length (allocated_pages p)"
  shows "free_pages (memory_start p + i * PAGE_SIZE) n p = Ok (mark_pages p i n False)"
  using assms pma_index_bounds [OF assms]
  by (simp add: free_pages_def fill_range_def mark_pages_def)

lemma alloc_contig_Ok:
  assumes "alloc_contig n p = Ok (p', a)" "pma_inv p" "0 < n"
  shows "\<exists>s. free_run (allocated_pages p) s n \<and> (\<forall>j < s. \<not> free_run (allocated_pages p) j n) \<and>
    a = memory_start p + s * PAGE_SIZE \<and> p' = mark_pages p s n True"
proof -
  obtain s where s: "alloc_scan n 0 (allocated_pages p) = Ok s" "take_pages p s n = Ok (p', a)"
    using assms(1) by (auto simp: alloc_contig_def outcome_simps)
  have len: "s + n \<le> length (allocated_pages p)"
    using s(2) by (auto simp: take_pages_def outcome_simps)
  have "n * PAGE_SIZE < usize_bound" using pma_index_bounds(3) [OF assms(2), of n] len by simp
  then have "free_run (allocated_pages p) s n \<and> (\<forall>j < s. \<not> free_run (allocated_pages p) j n)"
    using alloc_scan_correct [of 0 "allocated_pages p" n] s(1) assms(3) by simp
  then show ?thesis using s(2) take_pages_eq [OF assms(2) len] by auto
qed

lemma in_region_iff:
  "x \<in> region (memory_start p + i * PAGE_SIZE) n \<longleftrightarrow>
     memory_start p \<le> x \<and> i \<le> page_number p x \<and> page_number p x < i + n"
proof (cases "memory_start p \<le> x")
  case True
  then obtain y where y: "x = memory_start p + y" using le_Suc_ex by blast
  have "i * PAGE_SIZE \<le> y \<longleftrightarrow> i \<le> y div PAGE_SIZE"
    by (simp add: less_eq_div_iff_mult_less_eq)
  moreover have "y < (i + n) * PAGE_SIZE \<longleftrightarrow> y div PAGE_SIZE < i + n"
    by (simp add: div_less_iff_less_mult)
  ultimately show ?thesis by (auto simp: region_def page_number_def y algebra_simps)
qed (auto simp: region_def)

lemma free_set_mark_True:
  assumes "i + n \<le> length (allocated_pages p)"
  shows "pma_free_set (mark_pages p i n True) = pma_free_set p - region (memory_start p + i * PAGE_SIZE) n"
  using assms by (auto simp: pma_free_set_def in_region_iff mark_pages_nth split: if_splits)

lemma free_set_mark_False:
  assumes "i + n \<le> length (allocated_pages p)"
  shows "pma_free_set (mark_pages p i n False) = pma_free_set p \<union> region (memory_start p + i * PAGE_SIZE) n"
  using assms by (auto simp: pma_free_set_def in_region_iff mark_pages_nth split: if_splits)

lemma free_run_region:
  "free_run (allocated_pages p) i n \<Longrightarrow> region (memory_start p + i * PAGE_SIZE) n \<subseteq> pma_free_set p"
  by (auto simp: pma_free_set_def in_region_iff free_run_def)

interpretation pma: region_allocator pma_inv pma_free_set pma_region alloc_contig free_pages
proof
  fix p p' :: phys_alloc and n a
  assume ok: "pma_inv p" "0 < n" "alloc_contig n p = Ok (p', a)"
  obtain s where s: "free_run (allocated_pages p) s n" "a = memory_start p + s * PAGE_SIZE"
    "p' = mark_pages p s n True"
    using alloc_contig_Ok [OF ok(3, 1, 2)] by blast
  have len: "s + n \<le> length (allocated_pages p)" using s(1) by (simp add: free_run_def)
  show "pma_inv p' \<and> pma_region p' a n \<and> region a n \<subseteq> pma_free_set p \<and>
      pma_free_set p' = pma_free_set p - region a n"
    using s len ok(1) by (auto simp: mark_pages_inv pma_region_def free_set_mark_True
        dest!: free_run_region)
  fix b m
  show "pma_region p' b m = pma_region p b m" using s len by (simp add: pma_region_def)
next
  fix p :: phys_alloc and n
  assume a: "pma_inv p" "0 < n" "n * PAGE_SIZE < usize_bound"
  show "alloc_contig n p \<noteq> Panic"
    using alloc_scan_correct [of 0 "allocated_pages p" n] a
    by (auto simp: alloc_contig_def outcome_simps take_pages_eq free_run_def split: outcome.splits)
next
  fix p :: phys_alloc and n a
  assume a: "pma_inv p" "0 < n" "pma_region p a n"
  obtain i where i: "a = memory_start p + i * PAGE_SIZE" "i + n \<le> length (allocated_pages p)"
    using a(3) by (auto simp: pma_region_def)
  show "\<exists>p'. free_pages a n p = Ok p' \<and> pma_inv p' \<and> pma_free_set p' = pma_free_set p \<union> region a n \<and>
      (\<forall>b m. pma_region p' b m = pma_region p b m)"
    using i a(1) by (auto simp: free_pages_eq mark_pages_inv free_set_mark_False pma_region_def)
qed

lemma try_count_Some:
  "try_count d m k as = Some c \<Longrightarrow> d = Suc (k + m) \<Longrightarrow>
     k < c \<and> c \<le> d \<and> c - Suc k \<le> length as \<and> (\<forall>i < c - Suc k. \<not> as ! i) \<and>
     (c < d \<longrightarrow> c - Suc k < length as \<and> as ! (c - Suc k))"
proof (induction d m k as rule: try_count.induct)
  case (3 d m k allocated rest)
  show ?case
  proof (cases allocated)
    case False
    then have ih: "Suc k < c \<and> c \<le> d \<and> c - Suc (Suc k) \<le> length rest \<and>
        (\<forall>i < c - Suc (Suc k). \<not> rest ! i) \<and> (c < d \<longrightarrow> c - Suc (Suc k) < length rest \<and> rest ! (c - Suc (Suc k)))"
      using 3 by simp
    then obtain e where "c = Suc (Suc (k + e))" using less_imp_Suc_add [of "Suc k" c] by auto
    then show ?thesis using False ih by (auto simp: nth_Cons split: nat.splits)
  qed (use 3 in auto)
qed auto

lemma try_count_None:
  "try_count d m k as = None \<Longrightarrow> length as < m \<and> (\<forall>i < length as. \<not> as ! i)"
  by (induction d m k as rule: try_count.induct) (auto simp: nth_Cons split: if_splits nat.splits)

section \<open>Properties\<close>

text \<open>
  C2. \<open>alloc_contig\<close> is a correct and complete first-fit allocator. Asked for a positive number of
  pages whose size in bytes fits in a \<open>usize\<close> it never panics. It returns the address of the first
  run of that many free pages and marks exactly these pages, leaving every other page as it was;
  it reports an error exactly when no run of that many free pages exists.
\<close>

theorem alloc_contig_first_fit:
  assumes "pma_inv p" "0 < n" "n * PAGE_SIZE < usize_bound"
  shows "case alloc_contig n p of
      Ok (p', addr) \<Rightarrow> (\<exists>s. addr = memory_start p + s * PAGE_SIZE \<and> free_run (allocated_pages p) s n \<and>
          (\<forall>j < s. \<not> free_run (allocated_pages p) j n) \<and>
          length (allocated_pages p') = length (allocated_pages p) \<and>
          (\<forall>k < length (allocated_pages p).
             allocated_pages p' ! k = ((s \<le> k \<and> k < s + n) \<or> allocated_pages p ! k)) \<and>
          memory_start p' = memory_start p \<and> memory_length p' = memory_length p)
    | Err e \<Rightarrow> (\<forall>j. \<not> free_run (allocated_pages p) j n) \<and>
          e \<in> {OutOfMemory, InsufficentForAllocation (n * PAGE_SIZE)}
    | Panic \<Rightarrow> False"
proof (cases "alloc_contig n p")
  case (Ok pa)
  obtain p' a where pa: "pa = (p', a)" by (cases pa)
  obtain s where s: "free_run (allocated_pages p) s n" "\<forall>j < s. \<not> free_run (allocated_pages p) j n"
    "a = memory_start p + s * PAGE_SIZE" "p' = mark_pages p s n True"
    using alloc_contig_Ok [OF Ok [unfolded pa] assms(1, 2)] by blast
  have len: "s + n \<le> length (allocated_pages p)" using s(1) by (simp add: free_run_def)
  show ?thesis
    unfolding Ok pa using s len by (auto simp: mark_pages_nth)
next
  case (Err e)
  then have "alloc_scan n 0 (allocated_pages p) = Err e"
    using assms alloc_scan_correct [of 0 "allocated_pages p" n]
    by (auto simp: alloc_contig_def outcome_simps take_pages_eq free_run_def)
  then show ?thesis using Err alloc_scan_correct [of 0 "allocated_pages p" n] assms by simp
next
  case Panic
  then show ?thesis using pma.alloc_total assms by blast
qed

definition example_pma :: phys_alloc where
  "example_pma = \<lparr>allocated_pages = [True, False, True, False, False, False],
     memory_start = 0x40000000, memory_length = 6 * 4096\<rparr>"

theorem alloc_contig_first_fit_witness:
  "\<exists>p'. alloc_contig 2 example_pma = Ok (p', 0x40003000) \<and>
     allocated_pages p' = [True, False, True, True, True, False] \<and>
     (\<exists>s. (0x40003000 :: nat) = memory_start example_pma + s * PAGE_SIZE \<and>
        free_run (allocated_pages example_pma) s 2)"
proof -
  have ok: "alloc_contig 2 example_pma = Ok (example_pma\<lparr>allocated_pages :=
      [True, False, True, True, True, False]\<rparr>, 0x40003000)"
    by (simp add: alloc_contig_def example_pma_def alloc_scan.simps take_pages_def fill_range_def
        PAGE_SIZE_def)
  have "pma_inv example_pma" "(0::nat) < 2" "2 * PAGE_SIZE < usize_bound"
    by (simp_all add: pma_inv_def example_pma_def PAGE_SIZE_def)
  from alloc_contig_first_fit [OF this] ok show ?thesis by auto
qed

text \<open>
  C3. No page is ever handed out twice. After any history of \<open>alloc_contig\<close> and \<open>free_pages\<close> calls
  that releases only regions in use, the regions in use are pairwise disjoint, none of them
  contains a free address, and together with the free addresses they are exactly the addresses
  that were free at the start: nothing is lost.
\<close>

theorem alloc_contig_history_partition:
  assumes "pma_inv p0" "alloc_history alloc_contig free_pages p0 p live"
  shows "pma_inv p \<and> separated live \<and> in_use live \<inter> pma_free_set p = {} \<and>
    in_use live \<union> pma_free_set p = pma_free_set p0"
  using pma.history_partition [OF assms] .

theorem alloc_contig_history_partition_witness:
  "\<exists>p. alloc_history alloc_contig free_pages example_pma p [(0x40001000, 1)] \<and>
     region 0x40001000 1 \<inter> pma_free_set p = {}"
proof -
  have ok: "alloc_contig 1 example_pma = Ok (example_pma\<lparr>allocated_pages :=
      [True, True, True, False, False, False]\<rparr>, 0x40001000)"
    by (simp add: alloc_contig_def example_pma_def alloc_scan.simps take_pages_def fill_range_def
        PAGE_SIZE_def)
  have "pma_inv example_pma" by (simp add: pma_inv_def example_pma_def PAGE_SIZE_def)
  moreover have h: "alloc_history alloc_contig free_pages example_pma
      (example_pma\<lparr>allocated_pages := [True, True, True, False, False, False]\<rparr>) [(0x40001000, 1)]"
    using history_alloc [of alloc_contig free_pages example_pma example_pma "[]" 1, OF history_start _ ok]
    by simp
  ultimately show ?thesis using alloc_contig_history_partition [OF _ h] h by auto
qed

text \<open>
  C4. Releasing with \<open>free_pages\<close> what \<open>alloc_contig\<close> just returned succeeds and restores the
  allocator's state exactly.
\<close>

theorem free_pages_alloc_contig:
  assumes "pma_inv p" "0 < n" "alloc_contig n p = Ok (p', a)"
  shows "free_pages a n p' = Ok p"
proof -
  obtain s where s: "free_run (allocated_pages p) s n" "a = memory_start p + s * PAGE_SIZE"
    "p' = mark_pages p s n True"
    using alloc_contig_Ok [OF assms(3, 1, 2)] by blast
  have len: "s + n \<le> length (allocated_pages p)" using s(1) by (simp add: free_run_def)
  have "free_pages a n p' = Ok (mark_pages p' s n False)"
    using free_pages_eq [of p' s n] s len assms(1) mark_pages_inv by simp
  moreover have "allocated_pages (mark_pages p' s n False) = allocated_pages p"
    using len s by (intro nth_equalityI) (auto simp: mark_pages_nth free_run_def)
  ultimately show ?thesis using s by (simp add: mark_pages_def)
qed

theorem free_pages_alloc_contig_witness:
  "\<exists>p'. alloc_contig 1 example_pma = Ok (p', 0x40001000) \<and> free_pages 0x40001000 1 p' = Ok example_pma"
proof -
  have ok: "alloc_contig 1 example_pma = Ok (example_pma\<lparr>allocated_pages :=
      [True, True, True, False, False, False]\<rparr>, 0x40001000)"
    by (simp add: alloc_contig_def example_pma_def alloc_scan.simps take_pages_def fill_range_def
        PAGE_SIZE_def)
  have "pma_inv example_pma" by (simp add: pma_inv_def example_pma_def PAGE_SIZE_def)
  from free_pages_alloc_contig [OF this _ ok] ok show ?thesis by simp
qed



text \<open>
  A smaller run that ends at the end of memory is not returned, although the comment of
  \<open>try_alloc_contig\<close> says that a smaller range is returned when it is found first.
\<close>

lemma try_alloc_contig_rejects_last_run:
  "try_alloc_contig 2 \<lparr>allocated_pages = [True, False], memory_start = 0, memory_length = 8192\<rparr> =
     Err (InsufficentForAllocation 8192)"
  by (simp add: try_alloc_contig_def PAGE_SIZE_def)

end
