(* ===== verification/Virt_Alloc.thy ===== *)
theory Virt_Alloc
  imports Region_Alloc
begin

text \<open>
  The virtual address allocator (\<open>kernel/src/memory/virtual_address_allocator.rs\<close>): a linked list
  of free blocks. A cursor loop becomes a recursion over the list that rebuilds the part the
  cursor has passed. The spin lock around the global instance is not modelled.
\<close>

section \<open>The allocator\<close>

definition START_ADDRESS :: virtual_address where
  "START_ADDRESS = 0xffff000100000000"

definition TOTAL_SIZE :: nat where
  "TOTAL_SIZE = 0x010000000000 div PAGE_SIZE"

record free_block =
  fb_address :: virtual_address
  fb_size :: nat

record virt_alloc =
  free_list :: "free_block list"

definition virt_alloc_new :: "virtual_address \<Rightarrow> nat \<Rightarrow> virt_alloc" where
  "virt_alloc_new start_address total_size_in_pages =
     \<lparr>free_list = [\<lparr>fb_address = start_address, fb_size = total_size_in_pages\<rparr>]\<rparr>"

definition init_virtual_address_allocator :: virt_alloc where
  "init_virtual_address_allocator = virt_alloc_new START_ADDRESS TOTAL_SIZE"

fun reserve_loop ::
  "virtual_address \<Rightarrow> virtual_address \<Rightarrow> nat \<Rightarrow> free_block list \<Rightarrow> (memory_error, free_block list) outcome" where
  "reserve_loop start_address end_address page_count [] = Err (InsufficentForAllocation page_count)"
| "reserve_loop start_address end_address page_count (block # rest) =
     bind_outcome (mul_checked (fb_size block) PAGE_SIZE) (\<lambda>bytes.
     let block_end = va_add (fb_address block) bytes in
     if fb_address block \<le> start_address \<and> block_end \<ge> end_address then
       if fb_address block = start_address then
         if fb_size block = page_count then Ok rest
         else bind_outcome (sub_checked (fb_size block) page_count) (\<lambda>sz.
              Ok (\<lparr>fb_address = va_add (fb_address block) page_count, fb_size = sz\<rparr> # rest))
       else if block_end = end_address then
         bind_outcome (sub_checked (fb_size block) page_count) (\<lambda>sz.
         Ok (block\<lparr>fb_size := sz\<rparr> # rest))
       else
         bind_outcome (sub_checked start_address (fb_address block)) (\<lambda>before.
         bind_outcome (sub_checked block_end end_address) (\<lambda>after.
         Ok (block\<lparr>fb_size := div_ceil before PAGE_SIZE\<rparr>
             # \<lparr>fb_address = end_address, fb_size = div_ceil after PAGE_SIZE\<rparr> # rest)))
     else if fb_address block \<ge> end_address then Err (InsufficentForAllocation page_count)
     else bind_outcome (reserve_loop start_address end_address page_count rest) (\<lambda>rest'.
          Ok (block # rest')))"

definition reserve :: "virtual_address \<Rightarrow> nat \<Rightarrow> virt_alloc \<Rightarrow> (memory_error, virt_alloc) outcome" where
  "reserve start_address page_count v =
     bind_outcome (mul_checked page_count PAGE_SIZE) (\<lambda>bytes.
     bind_outcome (reserve_loop start_address (va_add start_address bytes) page_count (free_list v))
       (\<lambda>blocks. Ok (v\<lparr>free_list := blocks\<rparr>)))"

fun va_alloc_loop :: "nat \<Rightarrow> free_block list \<Rightarrow> (memory_error, free_block list \<times> virtual_address) outcome" where
  "va_alloc_loop page_count [] = Err OutOfMemory"
| "va_alloc_loop page_count (block # rest) =
     (if fb_size block \<ge> page_count then
        if fb_size block = page_count then Ok (rest, fb_address block)
        else bind_outcome (mul_checked PAGE_SIZE page_count) (\<lambda>bytes.
             bind_outcome (sub_checked (fb_size block) page_count) (\<lambda>sz.
             Ok (\<lparr>fb_address = va_add (fb_address block) bytes, fb_size = sz\<rparr> # rest, fb_address block)))
      else bind_outcome (va_alloc_loop page_count rest) (\<lambda>(rest', addr). Ok (block # rest', addr)))"

definition va_alloc :: "nat \<Rightarrow> virt_alloc \<Rightarrow> (memory_error, virt_alloc \<times> virtual_address) outcome" where
  "va_alloc page_count v =
     bind_outcome (va_alloc_loop page_count (free_list v)) (\<lambda>(blocks, addr).
     Ok (v\<lparr>free_list := blocks\<rparr>, addr))"

text \<open>The loop of \<open>free\<close>; \<open>None\<close> means it ended without merging the range into a block.\<close>

fun va_free_loop ::
  "virtual_address \<Rightarrow> virtual_address \<Rightarrow> nat \<Rightarrow> free_block list \<Rightarrow>
   (memory_error, free_block list option) outcome" where
  "va_free_loop address end_address page_count [] = Ok None"
| "va_free_loop address end_address page_count (block # rest) =
     bind_outcome (mul_checked PAGE_SIZE (fb_size block)) (\<lambda>bytes.
     let back = va_add (fb_address block) bytes in
     if end_address = fb_address block then
       bind_outcome (add_checked (fb_size block) page_count) (\<lambda>sz.
       Ok (Some (\<lparr>fb_address = address, fb_size = sz\<rparr> # rest)))
     else if address = back then
       bind_outcome (add_checked (fb_size block) page_count) (\<lambda>sz.
       Ok (Some (block\<lparr>fb_size := sz\<rparr> # rest)))
     else if fb_address block > address then Ok None
     else bind_outcome (va_free_loop address end_address page_count rest) (\<lambda>r.
          Ok (map_option (\<lambda>rest'. block # rest') r)))"

definition va_free :: "virtual_address \<Rightarrow> nat \<Rightarrow> virt_alloc \<Rightarrow> (memory_error, virt_alloc) outcome" where
  "va_free address page_count v =
     bind_outcome (mul_checked PAGE_SIZE page_count) (\<lambda>bytes.
     bind_outcome (va_free_loop address (va_add address bytes) page_count (free_list v)) (\<lambda>r.
     Ok (v\<lparr>free_list :=
       (case r of Some blocks \<Rightarrow> blocks
        | None \<Rightarrow> free_list v @ [\<lparr>fb_address = address, fb_size = page_count\<rparr>])\<rparr>)))"

section \<open>Specification vocabulary\<close>

definition block_pair :: "free_block \<Rightarrow> nat \<times> nat" where
  "block_pair b = (fb_address b, fb_size b)"

definition block_ok :: "free_block \<Rightarrow> bool" where
  "block_ok b \<longleftrightarrow> PAGE_SIZE dvd fb_address b \<and> 0 < fb_size b \<and>
     fb_address b + fb_size b * PAGE_SIZE < usize_bound"

definition blocks_inv :: "free_block list \<Rightarrow> bool" where
  "blocks_inv bs \<longleftrightarrow> list_all block_ok bs \<and> separated (map block_pair bs)"

definition vaa_inv :: "virt_alloc \<Rightarrow> bool" where
  "vaa_inv v \<longleftrightarrow> blocks_inv (free_list v)"

abbreviation blocks_set :: "free_block list \<Rightarrow> nat set" where
  "blocks_set bs \<equiv> in_use (map block_pair bs)"

definition vaa_free_set :: "virt_alloc \<Rightarrow> nat set" where
  "vaa_free_set v = blocks_set (free_list v)"

definition vaa_region :: "virt_alloc \<Rightarrow> nat \<Rightarrow> nat \<Rightarrow> bool" where
  "vaa_region v a n \<longleftrightarrow> PAGE_SIZE dvd a \<and> a + n * PAGE_SIZE < usize_bound"

section \<open>Allocation\<close>

lemma block_pair_simps [simp]: "fst (block_pair b) = fb_address b" "snd (block_pair b) = fb_size b"
  by (simp_all add: block_pair_def)

lemma blocks_inv_Nil [simp]: "blocks_inv []"
  by (simp add: blocks_inv_def)

lemma blocks_inv_Cons [simp]:
  "blocks_inv (b # bs) \<longleftrightarrow> block_ok b \<and> region (fb_address b) (fb_size b) \<inter> blocks_set bs = {} \<and> blocks_inv bs"
  by (auto simp: blocks_inv_def)

lemma block_ok_bounds:
  assumes "block_ok b"
  shows "fb_size b * PAGE_SIZE < usize_bound" "PAGE_SIZE * fb_size b < usize_bound"
    "va_add (fb_address b) (fb_size b * PAGE_SIZE) = fb_address b + fb_size b * PAGE_SIZE"
    "va_add (fb_address b) (PAGE_SIZE * fb_size b) = fb_address b + fb_size b * PAGE_SIZE"
  using assms by (auto simp: block_ok_def va_add_def wrapping_add_small mult.commute)

lemma va_add_pages:
  "a + n * PAGE_SIZE < usize_bound \<Longrightarrow> va_add a (PAGE_SIZE * n) = a + n * PAGE_SIZE"
  "a + n * PAGE_SIZE < usize_bound \<Longrightarrow> va_add a (n * PAGE_SIZE) = a + n * PAGE_SIZE"
  by (simp_all add: va_add_def wrapping_add_small mult.commute)

lemma block_prefix_bound:
  assumes "block_ok b" "n \<le> fb_size b"
  shows "fb_address b + n * PAGE_SIZE < usize_bound"
  by (rule le_less_trans [of _ "fb_address b + fb_size b * PAGE_SIZE"])
    (use assms mult_le_mono1 [of n "fb_size b" PAGE_SIZE] in \<open>auto simp only: block_ok_def add_le_cancel_left\<close>)

text \<open>Cutting \<open>n\<close> pages off the front of a block.\<close>

lemma block_cut_front:
  assumes "block_ok b" "n < fb_size b"
  defines "b' \<equiv> \<lparr>fb_address = va_add (fb_address b) (PAGE_SIZE * n), fb_size = fb_size b - n\<rparr>"
  shows "block_ok b'"
    and "region (fb_address b) (fb_size b) = region (fb_address b) n \<union> region (fb_address b') (fb_size b')"
    and "region (fb_address b) n \<inter> region (fb_address b') (fb_size b') = {}"
    and "PAGE_SIZE * n < usize_bound"
proof -
  have le: "n * PAGE_SIZE \<le> fb_size b * PAGE_SIZE" using assms(2) by simp
  have bd: "fb_address b + n * PAGE_SIZE < usize_bound"
    using block_prefix_bound [OF assms(1)] assms(2) by simp
  have a: "fb_address b' = fb_address b + n * PAGE_SIZE" "fb_size b' = fb_size b - n"
    unfolding b'_def using va_add_pages [OF bd] by simp_all
  have sum: "n * PAGE_SIZE + (fb_size b - n) * PAGE_SIZE = fb_size b * PAGE_SIZE"
    using le by (simp add: diff_mult_distrib)
  show "block_ok b'" using assms(1, 2) sum by (auto simp: block_ok_def a)
  show "region (fb_address b) (fb_size b) = region (fb_address b) n \<union> region (fb_address b') (fb_size b')"
    using region_append [of "fb_address b" n "fb_size b - n"] assms(2) by (simp add: a)
  show "region (fb_address b) n \<inter> region (fb_address b') (fb_size b') = {}"
    unfolding a by (rule region_append_disjoint)
  show "PAGE_SIZE * n < usize_bound" using bd by (simp add: mult.commute)
qed

lemma va_alloc_loop_correct:
  assumes "blocks_inv bs" "0 < n"
  shows "case va_alloc_loop n bs of
      Ok (bs', a) \<Rightarrow> blocks_inv bs' \<and> PAGE_SIZE dvd a \<and> a + n * PAGE_SIZE < usize_bound \<and>
        region a n \<subseteq> blocks_set bs \<and> blocks_set bs' = blocks_set bs - region a n
    | Err e \<Rightarrow> e = OutOfMemory \<and> (\<forall>b\<in>set bs. fb_size b < n)
    | Panic \<Rightarrow> False"
  using assms(1)
proof (induction bs)
  case (Cons b bs)
  have b: "block_ok b" "region (fb_address b) (fb_size b) \<inter> blocks_set bs = {}" "blocks_inv bs"
    using Cons.prems by auto
  consider "fb_size b = n" | "n < fb_size b" | "fb_size b < n" by linarith
  then show ?case
  proof cases
    case 1
    then show ?thesis using b by (auto simp: block_ok_def)
  next
    case 2
    note cut = block_cut_front [OF b(1) 2]
    have "fb_address b + n * PAGE_SIZE < usize_bound" "PAGE_SIZE dvd fb_address b"
      using b(1) 2 block_prefix_bound [of b n] by (auto simp: block_ok_def)
    then show ?thesis
      using 2 b cut by auto
  next
    case 3
    have sub: "region (fb_address b) (fb_size b) \<union> (blocks_set bs - r) =
        region (fb_address b) (fb_size b) \<union> blocks_set bs - r"
      "region (fb_address b) (fb_size b) \<inter> (blocks_set bs - r) = {}" if "r \<subseteq> blocks_set bs" for r
      using that b(2) by auto
    show ?thesis
      using 3 Cons.IH b sub by (cases "va_alloc_loop n bs") (auto simp del: Un_Diff)
  qed
qed simp

section \<open>Release\<close>

lemma region_empty_iff [simp]: "region a n = {} \<longleftrightarrow> n = 0"
  by (auto simp: region_def)

text \<open>Merging a released range into the block after or before it.\<close>

lemma block_merge_front:
  assumes "block_ok b" "PAGE_SIZE dvd a" "0 < n" "a + n * PAGE_SIZE = fb_address b"
  shows "block_ok \<lparr>fb_address = a, fb_size = fb_size b + n\<rparr>"
    and "region a (fb_size b + n) = region a n \<union> region (fb_address b) (fb_size b)"
    and "fb_size b + n < usize_bound"
proof -
  have e: "a + (fb_size b + n) * PAGE_SIZE = fb_address b + fb_size b * PAGE_SIZE"
    using assms(4) by (simp add: algebra_simps)
  show ok: "block_ok \<lparr>fb_address = a, fb_size = fb_size b + n\<rparr>"
    using assms e unfolding block_ok_def by simp
  show "region a (fb_size b + n) = region a n \<union> region (fb_address b) (fb_size b)"
    using region_append [of a n "fb_size b"] assms(4) by (simp add: add.commute)
  show "fb_size b + n < usize_bound"
    using block_ok_bounds(1) [OF ok] by (simp add: PAGE_SIZE_def)
qed

lemma block_merge_back:
  assumes "block_ok b" "a = fb_address b + fb_size b * PAGE_SIZE" "a + n * PAGE_SIZE < usize_bound"
  shows "block_ok (b\<lparr>fb_size := fb_size b + n\<rparr>)"
    and "region (fb_address b) (fb_size b + n) = region (fb_address b) (fb_size b) \<union> region a n"
    and "fb_size b + n < usize_bound"
proof -
  have e: "fb_address b + (fb_size b + n) * PAGE_SIZE = a + n * PAGE_SIZE"
    using assms(2) by (simp add: algebra_simps)
  show ok: "block_ok (b\<lparr>fb_size := fb_size b + n\<rparr>)"
    using assms(1, 3) e unfolding block_ok_def by simp
  show "region (fb_address b) (fb_size b + n) = region (fb_address b) (fb_size b) \<union> region a n"
    using region_append assms(2) by simp
  show "fb_size b + n < usize_bound"
    using block_ok_bounds(1) [OF ok] by (simp add: PAGE_SIZE_def)
qed

lemma va_free_loop_correct:
  assumes "blocks_inv bs" "0 < n" "PAGE_SIZE dvd a" "a + n * PAGE_SIZE < usize_bound"
    "region a n \<inter> blocks_set bs = {}"
  shows "\<exists>r. va_free_loop a (a + n * PAGE_SIZE) n bs = Ok r \<and>
    (case r of None \<Rightarrow> True
     | Some bs' \<Rightarrow> blocks_inv bs' \<and> blocks_set bs' = blocks_set bs \<union> region a n)"
  using assms(1, 5)
proof (induction bs)
  case (Cons b bs)
  have b: "block_ok b" "region (fb_address b) (fb_size b) \<inter> blocks_set bs = {}" "blocks_inv bs"
    "region a n \<inter> blocks_set bs = {}" "region a n \<inter> region (fb_address b) (fb_size b) = {}"
    using Cons.prems by auto
  note bd = block_ok_bounds [OF b(1)]
  consider (front) "a + n * PAGE_SIZE = fb_address b"
    | (behind) "a + n * PAGE_SIZE \<noteq> fb_address b" "a = fb_address b + fb_size b * PAGE_SIZE"
    | (stop) "a + n * PAGE_SIZE \<noteq> fb_address b" "a \<noteq> fb_address b + fb_size b * PAGE_SIZE"
    by blast
  then show ?case
  proof cases
    case front
    note m = block_merge_front [OF b(1) assms(3, 2) front]
    show ?thesis using front b bd m by auto
  next
    case behind
    note m = block_merge_back [OF b(1) behind(2) assms(4)]
    show ?thesis using behind b bd m by auto
  next
    case stop
    obtain r where r: "va_free_loop a (a + n * PAGE_SIZE) n bs = Ok r" "case r of None \<Rightarrow> True
       | Some bs' \<Rightarrow> blocks_inv bs' \<and> blocks_set bs' = blocks_set bs \<union> region a n"
      using Cons.IH b by blast
    then show ?thesis using stop b bd by (cases r) auto
  qed
qed simp

lemma in_use_append [simp]: "in_use (xs @ ys) = in_use xs \<union> in_use ys"
  by (induction xs) auto

lemma separated_append: "separated (xs @ ys) \<longleftrightarrow> separated xs \<and> separated ys \<and> in_use xs \<inter> in_use ys = {}"
  by (induction xs) auto

lemma va_free_correct:
  assumes "vaa_inv v" "0 < n" "vaa_region v a n" "region a n \<inter> vaa_free_set v = {}"
  shows "\<exists>v'. va_free a n v = Ok v' \<and> vaa_inv v' \<and> vaa_free_set v' = vaa_free_set v \<union> region a n"
proof -
  have a: "PAGE_SIZE dvd a" "a + n * PAGE_SIZE < usize_bound" "PAGE_SIZE * n < usize_bound"
    using assms(3) by (auto simp: vaa_region_def mult.commute)
  obtain r where r: "va_free_loop a (a + n * PAGE_SIZE) n (free_list v) = Ok r" "case r of None \<Rightarrow> True
     | Some bs' \<Rightarrow> blocks_inv bs' \<and> blocks_set bs' = blocks_set (free_list v) \<union> region a n"
    using va_free_loop_correct [OF _ assms(2) a(1, 2)] assms unfolding vaa_inv_def vaa_free_set_def by blast
  have new: "block_ok \<lparr>fb_address = a, fb_size = n\<rparr>" using a assms(2) by (simp add: block_ok_def)
  show ?thesis
    using r a new assms va_add_pages(1) [OF a(2)]
    by (cases r) (auto simp: va_free_def vaa_inv_def vaa_free_set_def blocks_inv_def separated_append)
qed

interpretation vaa: region_allocator vaa_inv vaa_free_set vaa_region va_alloc va_free
proof
  fix v v' :: virt_alloc and n a b m
  assume "vaa_inv v" "0 < n" "va_alloc n v = Ok (v', a)"
  then show "vaa_inv v' \<and> vaa_region v' a n \<and> region a n \<subseteq> vaa_free_set v \<and>
      vaa_free_set v' = vaa_free_set v - region a n"
    using va_alloc_loop_correct [of "free_list v" n]
    by (auto simp: va_alloc_def vaa_inv_def vaa_free_set_def vaa_region_def outcome_simps)
  show "vaa_region v' b m = vaa_region v b m" by (simp add: vaa_region_def)
next
  fix v :: virt_alloc and n
  assume "vaa_inv v" "(0::nat) < n"
  then show "va_alloc n v \<noteq> Panic"
    using va_alloc_loop_correct [of "free_list v" n]
    by (auto simp: va_alloc_def vaa_inv_def outcome_simps)
next
  fix v :: virt_alloc and n a
  assume "vaa_inv v" "0 < n" "vaa_region v a n" "region a n \<inter> vaa_free_set v = {}"
  then show "\<exists>v'. va_free a n v = Ok v' \<and> vaa_inv v' \<and> vaa_free_set v' = vaa_free_set v \<union> region a n \<and>
      (\<forall>b m. vaa_region v' b m = vaa_region v b m)"
    using va_free_correct by (auto simp: vaa_region_def)
qed

section \<open>Reservation\<close>

text \<open>The free list is in ascending order of addresses, as the early exit of \<open>reserve\<close> expects.\<close>

definition blocks_sorted :: "free_block list \<Rightarrow> bool" where
  "blocks_sorted bs = sorted_wrt (\<lambda>b c. fb_address b < fb_address c) bs"

lemma region_subset_iff:
  "0 < n \<Longrightarrow> region a n \<subseteq> region b m \<longleftrightarrow> b \<le> a \<and> a + n * PAGE_SIZE \<le> b + m * PAGE_SIZE"
  by (simp add: region_def)

lemma dvd_diff_pages:
  assumes "PAGE_SIZE dvd a" "PAGE_SIZE dvd b" "a \<le> b"
  shows "div_ceil (b - a) PAGE_SIZE * PAGE_SIZE = b - a"
  using assms by (metis PAGE_SIZE_pos(1) div_ceil_mult dvd_diff_nat dvd_mult_div_cancel mult.commute)

text \<open>Cutting the reserved range out of the block that contains it.\<close>

lemma block_cut_back:
  assumes "block_ok b" "0 < n" "fb_address b < a" "PAGE_SIZE dvd a"
    "a + n * PAGE_SIZE = fb_address b + fb_size b * PAGE_SIZE"
  shows "n \<le> fb_size b" and "block_ok (b\<lparr>fb_size := fb_size b - n\<rparr>)"
    and "region (fb_address b) (fb_size b) = region (fb_address b) (fb_size b - n) \<union> region a n"
    and "region (fb_address b) (fb_size b - n) \<inter> region a n = {}"
proof -
  have lt: "n * PAGE_SIZE < fb_size b * PAGE_SIZE" using assms(3, 5) by linarith
  then have n: "n < fb_size b" by simp
  then show "n \<le> fb_size b" by simp
  have a: "a = fb_address b + (fb_size b - n) * PAGE_SIZE"
    using assms(5) n lt by (simp add: diff_mult_distrib)
  show "block_ok (b\<lparr>fb_size := fb_size b - n\<rparr>)"
    using assms(1) n block_prefix_bound [OF assms(1), of "fb_size b - n"] by (simp add: block_ok_def)
  show "region (fb_address b) (fb_size b) = region (fb_address b) (fb_size b - n) \<union> region a n"
    using region_append [of "fb_address b" "fb_size b - n" n] n a by simp
  show "region (fb_address b) (fb_size b - n) \<inter> region a n = {}"
    unfolding a by (rule region_append_disjoint)
qed

lemma block_cut_middle:
  assumes "block_ok b" "fb_address b < a" "PAGE_SIZE dvd a"
    "a + n * PAGE_SIZE < fb_address b + fb_size b * PAGE_SIZE"
  defines "s1 \<equiv> div_ceil (a - fb_address b) PAGE_SIZE"
    and "s2 \<equiv> div_ceil (fb_address b + fb_size b * PAGE_SIZE - (a + n * PAGE_SIZE)) PAGE_SIZE"
  shows "block_ok (b\<lparr>fb_size := s1\<rparr>)" and "block_ok \<lparr>fb_address = a + n * PAGE_SIZE, fb_size = s2\<rparr>"
    and "region (fb_address b) s1 = {fb_address b ..< a}"
    and "region (a + n * PAGE_SIZE) s2 = {a + n * PAGE_SIZE ..< fb_address b + fb_size b * PAGE_SIZE}"
proof -
  have dv: "PAGE_SIZE dvd fb_address b" using assms(1) by (simp add: block_ok_def)
  have s1: "s1 * PAGE_SIZE = a - fb_address b"
    unfolding s1_def using dvd_diff_pages [OF dv assms(3)] assms(2) by simp
  have s2: "s2 * PAGE_SIZE = fb_address b + fb_size b * PAGE_SIZE - (a + n * PAGE_SIZE)"
    unfolding s2_def using assms(3, 4) dv
    by (intro dvd_diff_pages) auto
  have pos: "0 < s1" "0 < s2"
    using s1 s2 assms(2, 4) by (metis mult_is_0 not_gr_zero zero_less_diff)+
  have top: "fb_address b + fb_size b * PAGE_SIZE < usize_bound" using assms(1) by (simp add: block_ok_def)
  show "block_ok (b\<lparr>fb_size := s1\<rparr>)" "block_ok \<lparr>fb_address = a + n * PAGE_SIZE, fb_size = s2\<rparr>"
    using dv pos s1 s2 top assms(2, 3, 4) unfolding block_ok_def by auto
  show "region (fb_address b) s1 = {fb_address b ..< a}"
    "region (a + n * PAGE_SIZE) s2 = {a + n * PAGE_SIZE ..< fb_address b + fb_size b * PAGE_SIZE}"
    using s1 s2 assms(2, 4) by (auto simp: region_def)
qed

text \<open>The block the loop stops at, when the range does not start a larger block.\<close>

lemma reserve_in_block:
  assumes "blocks_inv (b # bs)" "0 < n" "PAGE_SIZE dvd a" "fb_address b = a \<longrightarrow> fb_size b \<le> n"
    "fb_address b \<le> a" "a + n * PAGE_SIZE \<le> fb_address b + fb_size b * PAGE_SIZE"
  shows "\<exists>bs'. reserve_loop a (a + n * PAGE_SIZE) n (b # bs) = Ok bs' \<and> blocks_inv bs' \<and>
    blocks_set bs' = blocks_set (b # bs) - region a n"
proof -
  have b: "block_ok b" "region (fb_address b) (fb_size b) \<inter> blocks_set bs = {}" "blocks_inv bs"
    using assms(1) by auto
  note bd = block_ok_bounds [OF b(1)]
  have sub: "region a n \<subseteq> region (fb_address b) (fb_size b)"
    using assms by (simp add: region_subset_iff)
  consider (all) "fb_address b = a"
    | (tail) "fb_address b < a" "a + n * PAGE_SIZE = fb_address b + fb_size b * PAGE_SIZE"
    | (middle) "fb_address b < a" "a + n * PAGE_SIZE < fb_address b + fb_size b * PAGE_SIZE"
    using assms(5, 6) by linarith
  then show ?thesis
  proof cases
    case all
    then have "fb_size b = n" using assms(4, 6) by simp
    then show ?thesis using all b bd by auto
  next
    case tail
    note cut = block_cut_back [OF b(1) assms(2) tail(1) assms(3) tail(2)]
    have "blocks_set bs \<inter> region a n = {}" using b(2) sub by auto
    then show ?thesis using tail b bd cut by auto
  next
    case middle
    note cut = block_cut_middle [OF b(1) middle(1) assms(3) middle(2)]
    have out: "blocks_set bs \<inter> region a n = {}" using b(2) sub by auto
    have parts: "region (fb_address b) (fb_size b) - region a n =
        {fb_address b ..< a} \<union> {a + n * PAGE_SIZE ..< fb_address b + fb_size b * PAGE_SIZE}"
      using middle by (auto simp: region_def)
    have "{fb_address b ..< a} \<inter> blocks_set bs = {}"
        "{a + n * PAGE_SIZE ..< fb_address b + fb_size b * PAGE_SIZE} \<inter> blocks_set bs = {}"
      using b(2) parts by blast+
    then show ?thesis
      using middle b bd cut parts out
      by (auto simp: Un_Diff Diff_triv)
  qed
qed

lemma reserve_loop_correct:
  assumes "blocks_inv bs" "0 < n" "PAGE_SIZE dvd a"
    "\<forall>b\<in>set bs. fb_address b = a \<longrightarrow> fb_size b \<le> n"
  shows "case reserve_loop a (a + n * PAGE_SIZE) n bs of
      Ok bs' \<Rightarrow> blocks_inv bs' \<and> region a n \<subseteq> blocks_set bs \<and> blocks_set bs' = blocks_set bs - region a n
    | Err e \<Rightarrow> e = InsufficentForAllocation n \<and>
        (blocks_sorted bs \<longrightarrow> (\<forall>b\<in>set bs. \<not> region a n \<subseteq> region (fb_address b) (fb_size b)))
    | Panic \<Rightarrow> False"
  using assms(1, 4)
proof (induction bs)
  case (Cons b bs)
  have b: "block_ok b" "region (fb_address b) (fb_size b) \<inter> blocks_set bs = {}" "blocks_inv bs"
    using Cons.prems by auto
  note bd = block_ok_bounds [OF b(1)]
  consider (here) "fb_address b \<le> a" "a + n * PAGE_SIZE \<le> fb_address b + fb_size b * PAGE_SIZE"
    | (past) "a + n * PAGE_SIZE \<le> fb_address b"
    | (rest) "fb_address b < a + n * PAGE_SIZE"
        "\<not> (fb_address b \<le> a \<and> a + n * PAGE_SIZE \<le> fb_address b + fb_size b * PAGE_SIZE)"
    by linarith
  then show ?case
  proof cases
    case here
    have sub: "region a n \<subseteq> blocks_set (b # bs)"
      using here assms(2) by (auto simp: region_def)
    obtain bs' where "reserve_loop a (a + n * PAGE_SIZE) n (b # bs) = Ok bs'" "blocks_inv bs'"
      "blocks_set bs' = blocks_set (b # bs) - region a n"
      using reserve_in_block [OF Cons.prems(1) assms(2, 3) _ here] Cons.prems(2) by auto
    then show ?thesis using sub by (simp only: outcome.case)
  next
    case past
    have "a < a + n * PAGE_SIZE" using assms(2) by simp
    then have "a < fb_address b" using past by linarith
    then show ?thesis
      using past bd assms(2) by (fastforce simp: blocks_sorted_def region_subset_iff)
  next
    case rest
    have sub: "region (fb_address b) (fb_size b) \<union> (blocks_set bs - r) =
        region (fb_address b) (fb_size b) \<union> blocks_set bs - r"
      "region (fb_address b) (fb_size b) \<inter> (blocks_set bs - r) = {}" if "r \<subseteq> blocks_set bs" for r
      using that b(2) by auto
    show ?thesis
      using rest bd b Cons.IH Cons.prems(2) assms(2) sub
      by (cases "reserve_loop a (a + n * PAGE_SIZE) n bs")
        (auto simp: blocks_sorted_def region_subset_iff simp del: Un_Diff)
  qed
qed simp

section \<open>Properties\<close>

lemma init_inv: "vaa_inv init_virtual_address_allocator"
  by (simp add: vaa_inv_def init_virtual_address_allocator_def virt_alloc_new_def block_ok_def
      START_ADDRESS_def TOTAL_SIZE_def PAGE_SIZE_def)

lemma init_free_set:
  "vaa_free_set init_virtual_address_allocator = {0xffff000100000000 ..< 0xffff010100000000}"
  by (simp add: vaa_free_set_def init_virtual_address_allocator_def virt_alloc_new_def region_def
      START_ADDRESS_def TOTAL_SIZE_def PAGE_SIZE_def)

text \<open>
  C6. From the allocator the kernel starts with, along any history of \<open>alloc\<close> and \<open>free\<close> calls that
  frees only ranges in use, the ranges in use are pairwise disjoint, disjoint from the free
  addresses, and with them exactly fill the 1 TiB that \<open>memory/mod.rs\<close> sets aside for the
  allocator (\<open>0xffff_0001_0000_0000 .. 0xffff_0101_0000_0000\<close>). Freeing a range in use never fails.
\<close>

theorem va_history_partition:
  assumes "alloc_history va_alloc va_free init_virtual_address_allocator v live"
  shows "separated live \<and> in_use live \<inter> vaa_free_set v = {} \<and>
    in_use live \<union> vaa_free_set v = {0xffff000100000000 ..< 0xffff010100000000} \<and>
    (\<forall>(a, n)\<in>set live. is_ok (va_free a n v))"
  using vaa.history_partition [OF init_inv assms] init_free_set
    vaa.history_release_succeeds [OF init_inv assms] by fastforce

theorem va_history_partition_witness:
  "\<exists>v. alloc_history va_alloc va_free init_virtual_address_allocator v [(0xffff000100000000, 3)] \<and>
     is_ok (va_free 0xffff000100000000 3 v)"
proof -
  have ok: "va_alloc 3 init_virtual_address_allocator =
      Ok (\<lparr>free_list = [\<lparr>fb_address = 0xffff000100003000, fb_size = TOTAL_SIZE - 3\<rparr>]\<rparr>, 0xffff000100000000)"
    by (simp add: va_alloc_def init_virtual_address_allocator_def virt_alloc_new_def START_ADDRESS_def
        TOTAL_SIZE_def PAGE_SIZE_def va_add_def wrapping_add_def)
  have h: "alloc_history va_alloc va_free init_virtual_address_allocator
      \<lparr>free_list = [\<lparr>fb_address = 0xffff000100003000, fb_size = TOTAL_SIZE - 3\<rparr>]\<rparr> [(0xffff000100000000, 3)]"
    using history_alloc [of va_alloc va_free init_virtual_address_allocator _ "[]" 3,
        OF history_start _ ok] by simp
  show ?thesis using va_history_partition [OF h] h by auto
qed

text \<open>
  C7. \<open>alloc\<close> never panics, never returns addresses that were not free, removes exactly the
  returned range from the free addresses, and fails only with \<open>OutOfMemory\<close> and only when every
  free block is smaller than the request.
\<close>

theorem va_alloc_correct:
  assumes "vaa_inv v" "0 < n"
  shows "case va_alloc n v of
      Ok (v', a) \<Rightarrow> vaa_inv v' \<and> PAGE_SIZE dvd a \<and> a + n * PAGE_SIZE < usize_bound \<and>
        region a n \<subseteq> vaa_free_set v \<and> vaa_free_set v' = vaa_free_set v - region a n
    | Err e \<Rightarrow> e = OutOfMemory \<and> (\<forall>b\<in>set (free_list v). fb_size b < n)
    | Panic \<Rightarrow> False"
  using va_alloc_loop_correct [of "free_list v" n] assms
  by (cases "va_alloc_loop n (free_list v)") (auto simp: va_alloc_def vaa_inv_def vaa_free_set_def)

definition example_vaa :: virt_alloc where
  "example_vaa = \<lparr>free_list = [\<lparr>fb_address = 0x1000, fb_size = 1\<rparr>, \<lparr>fb_address = 0x8000, fb_size = 4\<rparr>]\<rparr>"

lemma example_vaa_inv: "vaa_inv example_vaa"
  by (simp add: vaa_inv_def example_vaa_def block_ok_def region_def PAGE_SIZE_def)

theorem va_alloc_correct_witness:
  "\<exists>v'. va_alloc 2 example_vaa = Ok (v', 0x8000) \<and> vaa_free_set v' = vaa_free_set example_vaa - region 0x8000 2"
proof -
  have ok: "va_alloc 2 example_vaa = Ok (\<lparr>free_list = [\<lparr>fb_address = 0x1000, fb_size = 1\<rparr>,
      \<lparr>fb_address = 0xa000, fb_size = 2\<rparr>]\<rparr>, 0x8000)"
    by (simp add: va_alloc_def example_vaa_def PAGE_SIZE_def va_add_def wrapping_add_def)
  show ?thesis using va_alloc_correct [OF example_vaa_inv, of 2] ok by simp
qed

text \<open>
  C8. \<open>reserve\<close> of a page-aligned range that does not start a larger free block never panics. When it
  succeeds the range was free and exactly this range leaves the free addresses; when the list is
  sorted it fails only if no free block contains the range.
\<close>

theorem reserve_correct:
  assumes "vaa_inv v" "0 < n" "PAGE_SIZE dvd a" "a + n * PAGE_SIZE < usize_bound"
    "\<forall>b\<in>set (free_list v). fb_address b = a \<longrightarrow> fb_size b \<le> n"
  shows "case reserve a n v of
      Ok v' \<Rightarrow> vaa_inv v' \<and> region a n \<subseteq> vaa_free_set v \<and> vaa_free_set v' = vaa_free_set v - region a n
    | Err e \<Rightarrow> e = InsufficentForAllocation n \<and> (blocks_sorted (free_list v) \<longrightarrow>
        (\<forall>b\<in>set (free_list v). \<not> region a n \<subseteq> region (fb_address b) (fb_size b)))
    | Panic \<Rightarrow> False"
  using reserve_loop_correct [OF _ assms(2, 3, 5)] assms(1, 4) va_add_pages(2) [OF assms(4)]
  by (cases "reserve_loop a (a + n * PAGE_SIZE) n (free_list v)")
    (auto simp: reserve_def vaa_inv_def vaa_free_set_def)

theorem reserve_correct_witness:
  "\<exists>v'. reserve 0x9000 1 example_vaa = Ok v' \<and> vaa_free_set v' = vaa_free_set example_vaa - region 0x9000 1"
proof -
  have ok: "reserve 0x9000 1 example_vaa = Ok \<lparr>free_list = [\<lparr>fb_address = 0x1000, fb_size = 1\<rparr>,
      \<lparr>fb_address = 0x8000, fb_size = 1\<rparr>, \<lparr>fb_address = 0xa000, fb_size = 2\<rparr>]\<rparr>"
    by (simp add: reserve_def example_vaa_def PAGE_SIZE_def va_add_def wrapping_add_def div_ceil_def)
  have "PAGE_SIZE dvd 0x9000" "(0x9000::nat) + 1 * PAGE_SIZE < usize_bound"
    "\<forall>b\<in>set (free_list example_vaa). fb_address b = 0x9000 \<longrightarrow> fb_size b \<le> 1"
    by (simp_all add: PAGE_SIZE_def example_vaa_def)
  from reserve_correct [OF example_vaa_inv _ this] ok show ?thesis by simp
qed

text \<open>
  When the range does start a larger block, the block's address advances by the number of pages
  instead of their size in bytes: the next allocation returns an unaligned address inside the
  reserved range.
\<close>

lemma reserve_block_start_hands_out_reserved:
  assumes "block_ok \<lparr>fb_address = a, fb_size = m\<rparr>" "0 < n" "n < m" "n < PAGE_SIZE"
  shows "\<exists>v' v''. reserve a n (virt_alloc_new a m) = Ok v' \<and> va_alloc 1 v' = Ok (v'', a + n) \<and>
    a + n \<in> region a n"
proof -
  have bd: "a + m * PAGE_SIZE < usize_bound" using assms(1) by (simp add: block_ok_def)
  have n: "n * PAGE_SIZE \<le> m * PAGE_SIZE" "n \<le> n * PAGE_SIZE"
    using assms(2, 3) by (simp_all add: PAGE_SIZE_def)
  have lt: "a + n * PAGE_SIZE < usize_bound" "a + n < usize_bound" using bd n by linarith+
  have adds: "va_add a (m * PAGE_SIZE) = a + m * PAGE_SIZE" "va_add a (n * PAGE_SIZE) = a + n * PAGE_SIZE"
    "va_add a n = a + n"
    unfolding va_add_def by (rule wrapping_add_small [OF bd] wrapping_add_small [OF lt(1)]
        wrapping_add_small [OF lt(2)])+
  have muls: "mul_checked m PAGE_SIZE = Ok (m * PAGE_SIZE)" "mul_checked n PAGE_SIZE = Ok (n * PAGE_SIZE)"
    using bd lt by (simp_all only: mul_checked_def) simp_all
  have "reserve a n (virt_alloc_new a m) = Ok \<lparr>free_list = [\<lparr>fb_address = a + n, fb_size = m - n\<rparr>]\<rparr>"
    using assms(3) n by (simp add: reserve_def virt_alloc_new_def muls adds)
  moreover have "\<exists>v''. va_alloc 1 \<lparr>free_list = [\<lparr>fb_address = a + n, fb_size = m - n\<rparr>]\<rparr> = Ok (v'', a + n)"
    using assms(3) by (auto simp: va_alloc_def PAGE_SIZE_def)
  moreover have "a + n \<in> region a n"
    using assms(2) by (simp add: region_def PAGE_SIZE_def)
  ultimately show ?thesis by blast
qed

text \<open>
  \<open>free\<close> appends a block at the back of the list whatever its address, so the list does not stay
  sorted and \<open>reserve\<close>, which stops at the first block past the range, can refuse a free range.
\<close>

lemma free_breaks_reserve:
  "\<exists>v'. va_free 0x1000 1 (virt_alloc_new 0x8000 4) = Ok v' \<and> region 0x1000 1 \<subseteq> vaa_free_set v' \<and>
     reserve 0x1000 1 v' = Err (InsufficentForAllocation 1)"
  by (simp add: va_free_def virt_alloc_new_def reserve_def vaa_free_set_def PAGE_SIZE_def va_add_def
      wrapping_add_def)

end
