(* ===== verification/Msg_Queue.thy ===== *)
theory Msg_Queue
  imports Kernel_Prelude
begin

text \<open>
  The lock-free message queues between kernel and processes (\<open>kapi/src/queue.rs\<close>).
  A \<open>Queue\<close> is a handle (identifier, capacity, lap size) on shared memory that holds two
  counters and the slots. \<open>post\<close> and \<open>poll\<close> are written as small-step machines, one step per
  access to shared memory, so that the same definitions serve the sequential refinement proved
  here and the interleaved executions of the theory \<open>Msg_Queue_Conc\<close>. Atomic accesses are
  sequentially consistent in the model; back-off has no effect on the state.
\<close>

unbundle bit_operations_syntax

section \<open>Queues in shared memory\<close>

type_synonym queue_id = nat

definition FIRST_RECV_QUEUE_ID :: queue_id where "FIRST_RECV_QUEUE_ID = 1"

definition FIRST_SEND_QUEUE_ID :: queue_id where "FIRST_SEND_QUEUE_ID = 2"

record 'a slot =
  slot_stamp :: "64 word"
  slot_value :: "'a option"

record 'a queue_mem =
  q_head :: "64 word"
  q_tail :: "64 word"
  q_slots :: "'a slot list"

record queue_handle =
  q_id :: queue_id
  q_capacity :: nat
  q_one_lap :: "64 word"

text \<open>The sizes of a slot and of the counters and the slot alignment depend on the message type.\<close>

definition queue_size_in_bytes :: "nat \<Rightarrow> nat \<Rightarrow> nat \<Rightarrow> nat \<Rightarrow> ('e, nat) outcome" where
  "queue_size_in_bytes slot_size slot_align counters_size capacity =
     bind_outcome (sub_checked slot_align 1) (\<lambda>el_align.
     bind_outcome (add_checked slot_size el_align) (\<lambda>padded.
     bind_outcome (mul_checked (unat ((of_nat padded :: 64 word) AND NOT (of_nat el_align))) capacity) (\<lambda>data.
     add_checked counters_size data)))"

text \<open>\<open>usize::next_power_of_two\<close>: overflows, so panics, above \<open>2 ^ 63\<close>.\<close>

definition next_power_of_two :: "nat \<Rightarrow> ('e, nat) outcome" where
  "next_power_of_two n =
     (case find (\<lambda>p. n \<le> p) (map (\<lambda>k. 2 ^ k) [0..<64]) of Some p \<Rightarrow> Ok p | None \<Rightarrow> Panic)"

definition queue_new :: "queue_id \<Rightarrow> nat \<Rightarrow> ('e, queue_handle) outcome" where
  "queue_new qid capacity =
     bind_outcome (ensure (0 < capacity)) (\<lambda>_.
     bind_outcome (add_checked capacity 1) (\<lambda>n.
     bind_outcome (next_power_of_two n) (\<lambda>p.
     Ok \<lparr>q_id = qid, q_capacity = capacity, q_one_lap = of_nat p\<rparr>)))"

definition queue_from_completion :: "queue_id \<Rightarrow> nat \<Rightarrow> nat \<Rightarrow> ('e, queue_handle) outcome" where
  "queue_from_completion qid start capacity =
     bind_outcome (ensure (start \<noteq> 0)) (\<lambda>_. queue_new qid capacity)"

definition queue_initialize :: "queue_handle \<Rightarrow> 'a queue_mem" where
  "queue_initialize h =
     \<lparr>q_head = 0, q_tail = 0,
      q_slots = map (\<lambda>index. \<lparr>slot_stamp = of_nat index, slot_value = None\<rparr>) [0..<q_capacity h]\<rparr>"

section \<open>The operations as machines\<close>

definition counter_index :: "queue_handle \<Rightarrow> 64 word \<Rightarrow> nat" where
  "counter_index h c = unat (c AND (q_one_lap h - 1))"

definition counter_lap :: "queue_handle \<Rightarrow> 64 word \<Rightarrow> 64 word" where
  "counter_lap h c = c AND NOT (q_one_lap h - 1)"

text \<open>The successor of a counter: the next index of the same lap, or index 0 of the next lap.\<close>

definition counter_next :: "queue_handle \<Rightarrow> 64 word \<Rightarrow> 64 word" where
  "counter_next h c =
     (if counter_index h c + 1 < q_capacity h then c + 1 else counter_lap h c + q_one_lap h)"

text \<open>
  Program points of \<open>post\<close> (through \<open>push_or_else\<close>) and \<open>poll\<close>. \<open>Post_load\<close>: about to load the tail;
  \<open>Post_slot\<close>: about to load the slot's stamp; \<open>Post_cas\<close>: about to compare and, if the stamp
  matches, to exchange the tail; \<open>Post_full\<close>: about to load the head in the closure of \<open>post\<close>;
  \<open>Post_write\<close>, \<open>Post_stamp\<close>: about to write the value, the stamp. The \<open>Poll\<close> points are alike.
\<close>

datatype 'a queue_pc =
    Post_load 'a
  | Post_slot 'a "64 word"
  | Post_cas 'a "64 word" "64 word"
  | Post_full 'a "64 word"
  | Post_write 'a "64 word"
  | Post_stamp "64 word"
  | Post_ok
  | Post_err 'a
  | Poll_load
  | Poll_slot "64 word"
  | Poll_cas "64 word" "64 word"
  | Poll_empty "64 word"
  | Poll_read "64 word"
  | Poll_stamp "64 word" 'a
  | Poll_some 'a
  | Poll_none

fun pc_returned :: "'a queue_pc \<Rightarrow> bool" where
  "pc_returned Post_ok = True"
| "pc_returned (Post_err v) = True"
| "pc_returned (Poll_some v) = True"
| "pc_returned Poll_none = True"
| "pc_returned _ = False"

definition set_slot :: "nat \<Rightarrow> ('a slot \<Rightarrow> 'a slot) \<Rightarrow> 'a queue_mem \<Rightarrow> 'a queue_mem" where
  "set_slot i f m = m\<lparr>q_slots := (q_slots m)[i := f (q_slots m ! i)]\<rparr>"

text \<open>
  One step. \<open>weak\<close> says that a \<open>compare_exchange_weak\<close> of this step fails spuriously. Reading a
  slot that was never written is undefined behaviour in the source and \<open>Panic\<close> here. A counter
  whose index passes the \<open>debug_assert\<close> is below the largest word, so \<open>tail + 1\<close> and \<open>head + 1\<close>
  do not overflow.
\<close>

fun queue_step :: "queue_handle \<Rightarrow> bool \<Rightarrow> 'a queue_mem \<Rightarrow> 'a queue_pc \<Rightarrow>
    ('e, 'a queue_mem \<times> 'a queue_pc) outcome" where
  "queue_step h weak m (Post_load v) = Ok (m, Post_slot v (q_tail m))"
| "queue_step h weak m (Post_slot v tail) =
     bind_outcome (ensure (counter_index h tail < q_capacity h)) (\<lambda>_.
     Ok (m, Post_cas v tail (slot_stamp (q_slots m ! counter_index h tail))))"
| "queue_step h weak m (Post_cas v tail stamp) =
     (if tail = stamp then
        if \<not> weak \<and> q_tail m = tail then Ok (m\<lparr>q_tail := counter_next h tail\<rparr>, Post_write v tail)
        else Ok (m, Post_slot v (q_tail m))
      else if stamp + q_one_lap h = tail + 1 then Ok (m, Post_full v tail)
      else Ok (m, Post_load v))"
| "queue_step h weak m (Post_full v tail) =
     (if q_head m + q_one_lap h = tail then Ok (m, Post_err v) else Ok (m, Post_load v))"
| "queue_step h weak m (Post_write v tail) =
     Ok (set_slot (counter_index h tail) (\<lambda>s. s\<lparr>slot_value := Some v\<rparr>) m, Post_stamp tail)"
| "queue_step h weak m (Post_stamp tail) =
     Ok (set_slot (counter_index h tail) (\<lambda>s. s\<lparr>slot_stamp := tail + 1\<rparr>) m, Post_ok)"
| "queue_step h weak m Poll_load = Ok (m, Poll_slot (q_head m))"
| "queue_step h weak m (Poll_slot head) =
     bind_outcome (ensure (counter_index h head < q_capacity h)) (\<lambda>_.
     Ok (m, Poll_cas head (slot_stamp (q_slots m ! counter_index h head))))"
| "queue_step h weak m (Poll_cas head stamp) =
     (if head + 1 = stamp then
        if \<not> weak \<and> q_head m = head then Ok (m\<lparr>q_head := counter_next h head\<rparr>, Poll_read head)
        else Ok (m, Poll_slot (q_head m))
      else if stamp = head then Ok (m, Poll_empty head)
      else Ok (m, Poll_load))"
| "queue_step h weak m (Poll_empty head) =
     (if q_tail m = head then Ok (m, Poll_none) else Ok (m, Poll_load))"
| "queue_step h weak m (Poll_read head) =
     (case slot_value (q_slots m ! counter_index h head) of
        Some msg \<Rightarrow> Ok (m, Poll_stamp head msg)
      | None \<Rightarrow> Panic)"
| "queue_step h weak m (Poll_stamp head msg) =
     Ok (set_slot (counter_index h head) (\<lambda>s. s\<lparr>slot_stamp := head + q_one_lap h\<rparr>) m, Poll_some msg)"
| "queue_step h weak m pc = Ok (m, pc)"

text \<open>An undisturbed run to the return; \<open>None\<close> if the loop does not end.\<close>

partial_function (option) queue_run ::
  "queue_handle \<Rightarrow> 'a queue_mem \<Rightarrow> 'a queue_pc \<Rightarrow> (unit, 'a queue_mem \<times> 'a queue_pc) outcome option" where
  "queue_run h m pc =
     (if pc_returned pc then Some (Ok (m, pc))
      else case queue_step h False m pc of
             Ok (m', pc') \<Rightarrow> queue_run h m' pc'
           | Err e \<Rightarrow> Some (Err e)
           | Panic \<Rightarrow> Some Panic)"

definition post :: "queue_handle \<Rightarrow> 'a \<Rightarrow> 'a queue_mem \<Rightarrow> (unit, 'a queue_mem \<times> 'a queue_pc) outcome option" where
  "post h v m = queue_run h m (Post_load v)"

definition poll :: "queue_handle \<Rightarrow> 'a queue_mem \<Rightarrow> (unit, 'a queue_mem \<times> 'a queue_pc) outcome option" where
  "poll h m = queue_run h m Poll_load"

section \<open>Counter arithmetic\<close>

text \<open>
  The counter value that stands for the \<open>n\<close>-th position ever used: the lap number times the lap
  size plus the index. Counters repeat after \<open>counter_period\<close> positions.
\<close>

definition counter_of :: "queue_handle \<Rightarrow> nat \<Rightarrow> 64 word" where
  "counter_of h n = of_nat (n div q_capacity h) * q_one_lap h + of_nat (n mod q_capacity h)"

definition counter_period :: "queue_handle \<Rightarrow> nat" where
  "counter_period h = q_capacity h * (2 ^ 64 div unat (q_one_lap h))"

definition handle_ok :: "queue_handle \<Rightarrow> bool" where
  "handle_ok h \<longleftrightarrow> 0 < q_capacity h \<and> (\<exists>k \<le> 63. q_one_lap h = 2 ^ k \<and> q_capacity h < 2 ^ k)"

lemma unat_and_mask: "unat ((c :: 64 word) AND (2 ^ k - 1)) = unat c mod 2 ^ k"
proof -
  have "c AND (2 ^ k - 1) = take_bit k c" by (simp add: take_bit_eq_mask mask_eq_exp_minus_1)
  then show ?thesis by (simp only: unsigned_take_bit_eq) (simp add: take_bit_eq_mod)
qed

lemma and_not_word: "(c :: 64 word) AND NOT m = c - (c AND m)"
proof -
  have "(c AND m) + (c AND NOT m) = (c AND m) OR (c AND NOT m)"
    by (intro disjunctive_add_eq_or bit_eqI) (auto simp: bit_simps)
  also have "\<dots> = c" by (rule bit_eqI) (auto simp: bit_simps)
  finally show ?thesis by (simp add: algebra_simps)
qed

lemma unat_exp:
  assumes "k < 64"
  shows "unat (2 ^ k :: 64 word) = 2 ^ k"
proof -
  have "(2 :: nat) ^ k < 2 ^ 64" using assms by (rule power_strict_increasing) simp
  then have "unat (of_nat (2 ^ k) :: 64 word) = 2 ^ k" by (simp only: unat_of_nat) simp
  then show ?thesis by simp
qed

lemma counter_of_nat:
  assumes "q_one_lap h = 2 ^ k"
  shows "counter_of h n = of_nat (n div q_capacity h * 2 ^ k + n mod q_capacity h)"
  using assms by (simp add: counter_of_def)

lemma unat_mod_exp:
  assumes "k \<le> 64"
  shows "unat (of_nat x :: 64 word) mod 2 ^ k = x mod 2 ^ k"
proof -
  have "(2 :: nat) ^ k dvd 2 ^ 64" using assms by (rule le_imp_power_dvd)
  then have "x mod 2 ^ 64 mod 2 ^ k = x mod 2 ^ k" by (rule mod_mod_cancel)
  then show ?thesis by (simp add: unat_of_nat)
qed

lemma counter_index_of [simp]:
  assumes "handle_ok h"
  shows "counter_index h (counter_of h n) = n mod q_capacity h"
proof -
  obtain k where k: "0 < q_capacity h" "k \<le> 63" "q_one_lap h = 2 ^ k" "q_capacity h < 2 ^ k"
    using assms by (auto simp: handle_ok_def)
  have "n mod q_capacity h < 2 ^ k" using k mod_less_divisor [OF k(1), of n] by linarith
  then show ?thesis
    using k(2) by (simp add: counter_index_def k(3) unat_and_mask counter_of_nat unat_mod_exp
        del: of_nat_add of_nat_mult)
qed

lemma counter_lap_of:
  assumes "handle_ok h"
  shows "counter_lap h (counter_of h n) = of_nat (n div q_capacity h) * q_one_lap h"
proof -
  have "counter_of h n AND (q_one_lap h - 1) = of_nat (n mod q_capacity h)"
    using counter_index_of [OF assms, of n] unfolding counter_index_def
    by (metis of_nat_unat ucast_id)
  then show ?thesis by (simp add: counter_lap_def and_not_word counter_of_def)
qed

lemma counter_next_of [simp]:
  assumes "handle_ok h"
  shows "counter_next h (counter_of h n) = counter_of h (Suc n)"
proof (cases "Suc (n mod q_capacity h) < q_capacity h")
  case True
  then have "Suc n div q_capacity h = n div q_capacity h" "Suc n mod q_capacity h = Suc (n mod q_capacity h)"
    by (auto simp: div_Suc mod_Suc)
  then have "counter_of h (Suc n) = counter_of h n + 1" by (simp add: counter_of_def)
  then show ?thesis using True assms by (simp add: counter_next_def)
next
  case False
  have pos: "0 < q_capacity h" using assms by (auto simp: handle_ok_def)
  then have "Suc (n mod q_capacity h) = q_capacity h" using False mod_less_divisor [of "q_capacity h" n] by linarith
  then have "Suc n div q_capacity h = Suc (n div q_capacity h)" "Suc n mod q_capacity h = 0"
    by (auto simp: div_Suc mod_Suc)
  then have "counter_of h (Suc n) = of_nat (n div q_capacity h) * q_one_lap h + q_one_lap h"
    by (simp add: counter_of_def distrib_right)
  then show ?thesis using False assms by (simp add: counter_next_def counter_lap_of)
qed

lemma counter_add_lap [simp]:
  "handle_ok h \<Longrightarrow> counter_of h n + q_one_lap h = counter_of h (n + q_capacity h)"
  by (simp add: counter_of_def handle_ok_def distrib_right div_add_self2)

lemma counter_of_0 [simp]: "counter_of h 0 = 0"
  by (simp add: counter_of_def)

text \<open>The stamp of a written slot is never the counter of a position with the same index.\<close>

lemma counter_Suc_neq:
  assumes "handle_ok h" "m mod q_capacity h = n mod q_capacity h"
  shows "counter_of h m + 1 \<noteq> counter_of h n" "counter_of h n \<noteq> counter_of h m + 1"
proof -
  obtain k where k: "0 < q_capacity h" "k \<le> 63" "q_one_lap h = 2 ^ k" "q_capacity h < 2 ^ k"
    using assms by (auto simp: handle_ok_def)
  have lt: "n mod q_capacity h < q_capacity h" using k(1) by simp
  have one: "counter_of h m + 1 = of_nat (m div q_capacity h * 2 ^ k + Suc (n mod q_capacity h))"
    using assms(2) by (simp add: counter_of_nat [OF k(3)])
  have "unat (counter_of h m + 1) mod 2 ^ k = Suc (n mod q_capacity h)"
    unfolding one using k lt by (simp add: unat_mod_exp del: of_nat_add of_nat_mult of_nat_Suc)
  moreover have "unat (counter_of h n) mod 2 ^ k = n mod q_capacity h"
    using k lt by (simp add: counter_of_nat [OF k(3)] unat_mod_exp del: of_nat_add of_nat_mult)
  ultimately show "counter_of h m + 1 \<noteq> counter_of h n" "counter_of h n \<noteq> counter_of h m + 1"
    by (metis n_not_Suc_n)+
qed

lemma diff_same_mod: "n = a * c + r \<Longrightarrow> m = b * c + r \<Longrightarrow> n - m = (a - b) * c" for n :: nat
  by (simp add: diff_mult_distrib)

lemma counter_of_inject:
  assumes "handle_ok h" "m \<le> n" "n < m + counter_period h"
  shows "counter_of h m = counter_of h n \<longleftrightarrow> m = n"
proof
  assume eq: "counter_of h m = counter_of h n"
  obtain k where k: "0 < q_capacity h" "k \<le> 63" "q_one_lap h = 2 ^ k" "q_capacity h < 2 ^ k"
    using assms by (auto simp: handle_ok_def)
  let ?c = "q_capacity h"
  have idx: "m mod ?c = n mod ?c" using counter_index_of [OF assms(1)] eq by metis
  have le: "m div ?c \<le> n div ?c" using assms(2) by (rule div_le_mono)
  define d where "d = n div ?c - m div ?c"
  have e: "n - m = d * ?c"
    unfolding d_def by (rule diff_same_mod [of _ _ _ "n mod ?c"]) (use idx in \<open>metis div_mult_mod_eq\<close>)+
  have "unat (2 ^ k :: 64 word) = 2 ^ k" using k(2) by (intro unat_exp) simp
  then have lap: "2 ^ 64 div unat (q_one_lap h) = 2 ^ (64 - k)" using k(2) by (simp only: k(3) power_diff)
  have "n - m < counter_period h" using assms(2, 3) by linarith
  then have "d * ?c < 2 ^ (64 - k) * ?c" by (simp only: e counter_period_def lap mult.commute)
  then have "d < 2 ^ (64 - k)" by simp
  then have "d * 2 ^ k < 2 ^ (64 - k) * 2 ^ k" by simp
  then have d: "d * 2 ^ k < 2 ^ 64" using k(2) by (simp flip: power_add)
  have "n div ?c = m div ?c + d" using le by (simp add: d_def)
  then have "(of_nat (d * 2 ^ k) :: 64 word) = 0"
    using eq idx by (simp add: counter_of_def k(3) distrib_right)
  then have "2 ^ 64 dvd d * 2 ^ k" by (simp only: word_of_nat_eq_0_iff) simp
  then have "d * 2 ^ k = 0" using d nat_dvd_not_less [of "d * 2 ^ k" "2 ^ 64"] by blast
  then show "m = n" using e assms(2) by simp
qed auto

section \<open>Representation of a bounded sequence\<close>

text \<open>
  \<open>repr_at h H m xs\<close>: the memory holds the messages \<open>xs\<close>, oldest first, at the positions from \<open>H\<close>.
\<close>

definition slot_at :: "queue_handle \<Rightarrow> 'a queue_mem \<Rightarrow> nat \<Rightarrow> 'a slot" where
  "slot_at h m n = q_slots m ! (n mod q_capacity h)"

definition repr_at :: "queue_handle \<Rightarrow> nat \<Rightarrow> 'a queue_mem \<Rightarrow> 'a list \<Rightarrow> bool" where
  "repr_at h H m xs \<longleftrightarrow>
     length (q_slots m) = q_capacity h \<and> length xs \<le> q_capacity h \<and>
     q_head m = counter_of h H \<and> q_tail m = counter_of h (H + length xs) \<and>
     (\<forall>i < length xs. slot_stamp (slot_at h m (H + i)) = counter_of h (H + i) + 1 \<and>
                     slot_value (slot_at h m (H + i)) = Some (xs ! i)) \<and>
     (\<forall>i < q_capacity h. length xs \<le> i \<longrightarrow> slot_stamp (slot_at h m (H + i)) = counter_of h (H + i))"

definition queue_repr :: "queue_handle \<Rightarrow> 'a queue_mem \<Rightarrow> 'a list \<Rightarrow> bool" where
  "queue_repr h m xs \<longleftrightarrow> (\<exists>H. repr_at h H m xs)"

lemma mod_add_eq_le:
  fixes i j :: nat
  assumes "i \<le> j" "j < c" "(H + j) mod c = (H + i) mod c"
  shows "i = j"
proof -
  have "c dvd (H + j) - (H + i)" using assms by (subst mod_eq_dvd_iff_nat [symmetric]) simp_all
  then have "\<not> i < j" using assms nat_dvd_not_less [of "j - i" c] by fastforce
  then show ?thesis using assms(1) by simp
qed

lemma mod_add_eq_iff:
  fixes i j :: nat
  assumes "i < c" "j < c"
  shows "(H + i) mod c = (H + j) mod c \<longleftrightarrow> i = j"
  using assms mod_add_eq_le [of i j c H] mod_add_eq_le [of j i c H] by (cases "i \<le> j") auto

lemma slot_at_set_slot:
  assumes "length (q_slots m) = q_capacity h" "0 < q_capacity h"
  shows "slot_at h (set_slot (n mod q_capacity h) f m) p =
    (if p mod q_capacity h = n mod q_capacity h then f (slot_at h m n) else slot_at h m p)"
  using assms by (auto simp: slot_at_def set_slot_def)

lemma set_slot_simps [simp]:
  "q_head (set_slot i f m) = q_head m" "q_tail (set_slot i f m) = q_tail m"
  "length (q_slots (set_slot i f m)) = length (q_slots m)"
  by (simp_all add: set_slot_def)

lemma slot_at_upd [simp]:
  "slot_at h (m\<lparr>q_head := x\<rparr>) p = slot_at h m p" "slot_at h (m\<lparr>q_tail := x\<rparr>) p = slot_at h m p"
  by (simp_all add: slot_at_def)

lemma queue_run_step:
  "\<not> pc_returned pc \<Longrightarrow> (queue_step h False m pc :: (unit, _) outcome) = Ok (m', pc') \<Longrightarrow> queue_run h m pc = queue_run h m' pc'"
  by (subst queue_run.simps) simp

lemma queue_run_returned: "pc_returned pc \<Longrightarrow> queue_run h m pc = Some (Ok (m, pc))"
  by (subst queue_run.simps) simp

section \<open>Sequential refinement\<close>

lemma repr_post_full:
  assumes "handle_ok h" "repr_at h H m xs" "length xs = q_capacity h"
  shows "post h v m = Some (Ok (m, Post_err v))"
proof -
  let ?c = "q_capacity h" and ?t = "counter_of h (H + q_capacity h)"
  have c: "0 < ?c" using assms(1) by (simp add: handle_ok_def)
  have r: "q_tail m = ?t" "q_head m = counter_of h H" "length (q_slots m) = ?c"
    "slot_stamp (slot_at h m H) = counter_of h H + 1"
    using assms(2, 3) c by (auto simp: repr_at_def)
  have stamp: "slot_stamp (q_slots m ! (H mod ?c)) = counter_of h H + 1" using r(4) by (simp add: slot_at_def)
  have ne: "?t \<noteq> counter_of h H + 1" by (rule counter_Suc_neq) (use assms(1) in simp_all)
  have eq: "counter_of h H + 1 + q_one_lap h = ?t + 1"
    using counter_add_lap [OF assms(1), of H] by (simp add: add.assoc add.commute [of 1])
  have "queue_run h m (Post_load v) = queue_run h m (Post_slot v ?t)"
    by (rule queue_run_step) (simp_all add: r)
  also have "\<dots> = queue_run h m (Post_cas v ?t (counter_of h H + 1))"
    by (rule queue_run_step) (use assms(1) c in \<open>simp_all add: stamp\<close>)
  also have "\<dots> = queue_run h m (Post_full v ?t)"
    by (rule queue_run_step) (use ne eq in simp_all)
  also have "\<dots> = queue_run h m (Post_err v)"
    by (rule queue_run_step) (use assms(1) in \<open>simp_all add: r\<close>)
  finally show ?thesis by (simp add: post_def queue_run_returned)
qed

text \<open>The memory after a successful \<open>post\<close>, and after a successful \<open>poll\<close>.\<close>

definition posted :: "queue_handle \<Rightarrow> nat \<Rightarrow> 'a \<Rightarrow> 'a queue_mem \<Rightarrow> 'a queue_mem" where
  "posted h n v m =
     set_slot (n mod q_capacity h) (\<lambda>s. s\<lparr>slot_stamp := counter_of h n + 1\<rparr>)
       (set_slot (n mod q_capacity h) (\<lambda>s. s\<lparr>slot_value := Some v\<rparr>)
         (m\<lparr>q_tail := counter_of h (Suc n)\<rparr>))"

definition polled :: "queue_handle \<Rightarrow> nat \<Rightarrow> 'a queue_mem \<Rightarrow> 'a queue_mem" where
  "polled h n m =
     set_slot (n mod q_capacity h) (\<lambda>s. s\<lparr>slot_stamp := counter_of h (n + q_capacity h)\<rparr>)
       (m\<lparr>q_head := counter_of h (Suc n)\<rparr>)"

lemma repr_post_ok:
  assumes "handle_ok h" "repr_at h H m xs" "length xs < q_capacity h"
  shows "post h v m = Some (Ok (posted h (H + length xs) v m, Post_ok))"
proof -
  let ?c = "q_capacity h" and ?n = "H + length xs"
  let ?m1 = "m\<lparr>q_tail := counter_of h (Suc ?n)\<rparr>"
  let ?m2 = "set_slot (?n mod ?c) (\<lambda>s. s\<lparr>slot_value := Some v\<rparr>) ?m1"
  have c: "0 < ?c" using assms(1) by (simp add: handle_ok_def)
  have r: "q_tail m = counter_of h ?n" "slot_stamp (slot_at h m ?n) = counter_of h ?n"
    using assms(2, 3) by (auto simp: repr_at_def)
  have stamp: "slot_stamp (q_slots m ! (?n mod ?c)) = counter_of h ?n" using r(2) by (simp add: slot_at_def)
  have "queue_run h m (Post_load v) = queue_run h m (Post_slot v (counter_of h ?n))"
    by (rule queue_run_step) (simp_all add: r)
  also have "\<dots> = queue_run h m (Post_cas v (counter_of h ?n) (counter_of h ?n))"
    by (rule queue_run_step) (use assms(1) c in \<open>simp_all add: stamp\<close>)
  also have "\<dots> = queue_run h ?m1 (Post_write v (counter_of h ?n))"
    by (rule queue_run_step) (use assms(1) in \<open>simp_all add: r\<close>)
  also have "\<dots> = queue_run h ?m2 (Post_stamp (counter_of h ?n))"
    by (rule queue_run_step) (use assms(1) in simp_all)
  also have "\<dots> = queue_run h (posted h ?n v m) Post_ok"
    by (rule queue_run_step) (use assms(1) in \<open>simp_all add: posted_def\<close>)
  finally show ?thesis by (simp add: post_def queue_run_returned)
qed

lemma repr_poll_none:
  assumes "handle_ok h" "repr_at h H m []"
  shows "poll h m = Some (Ok (m, Poll_none))"
proof -
  let ?c = "q_capacity h"
  have c: "0 < ?c" using assms(1) by (simp add: handle_ok_def)
  have r: "q_tail m = counter_of h H" "q_head m = counter_of h H" "slot_stamp (slot_at h m H) = counter_of h H"
    using assms(2) c by (auto simp: repr_at_def)
  have stamp: "slot_stamp (q_slots m ! (H mod ?c)) = counter_of h H" using r(3) by (simp add: slot_at_def)
  have "queue_run h m Poll_load = queue_run h m (Poll_slot (counter_of h H))"
    by (rule queue_run_step) (simp_all add: r)
  also have "\<dots> = queue_run h m (Poll_cas (counter_of h H) (counter_of h H))"
    by (rule queue_run_step) (use assms(1) c in \<open>simp_all add: stamp\<close>)
  also have "\<dots> = queue_run h m (Poll_empty (counter_of h H))"
    by (rule queue_run_step) simp_all
  also have "\<dots> = queue_run h m Poll_none"
    by (rule queue_run_step) (simp_all add: r)
  finally show ?thesis by (simp add: poll_def queue_run_returned)
qed

lemma repr_poll_some:
  assumes "handle_ok h" "repr_at h H m (x # xs)"
  shows "poll h m = Some (Ok (polled h H m, Poll_some x))"
proof -
  let ?c = "q_capacity h" and ?m1 = "m\<lparr>q_head := counter_of h (Suc H)\<rparr>"
  have c: "0 < ?c" using assms(1) by (simp add: handle_ok_def)
  have r: "q_head m = counter_of h H" "slot_stamp (slot_at h m H) = counter_of h H + 1"
    "slot_value (slot_at h m H) = Some x"
    using assms(2) c by (auto simp: repr_at_def)
  have slot: "slot_stamp (q_slots m ! (H mod ?c)) = counter_of h H + 1"
    "slot_value (q_slots m ! (H mod ?c)) = Some x"
    using r(2, 3) by (simp_all add: slot_at_def)
  have "queue_run h m Poll_load = queue_run h m (Poll_slot (counter_of h H))"
    by (rule queue_run_step) (simp_all add: r)
  also have "\<dots> = queue_run h m (Poll_cas (counter_of h H) (counter_of h H + 1))"
    by (rule queue_run_step) (use assms(1) c in \<open>simp_all add: slot\<close>)
  also have "\<dots> = queue_run h ?m1 (Poll_read (counter_of h H))"
    by (rule queue_run_step) (use assms(1) in \<open>simp_all add: r\<close>)
  also have "\<dots> = queue_run h ?m1 (Poll_stamp (counter_of h H) x)"
    by (rule queue_run_step) (use assms(1) in \<open>simp_all add: slot\<close>)
  also have "\<dots> = queue_run h (polled h H m) (Poll_some x)"
    by (rule queue_run_step) (use assms(1) in \<open>simp_all add: polled_def\<close>)
  finally show ?thesis by (simp add: poll_def queue_run_returned)
qed

lemma repr_posted:
  assumes "handle_ok h" "repr_at h H m xs" "length xs < q_capacity h"
  shows "repr_at h H (posted h (H + length xs) v m) (xs @ [v])"
proof -
  have c: "0 < q_capacity h" "length (q_slots m) = q_capacity h" using assms by (simp_all add: handle_ok_def repr_at_def)
  have slots: "slot_at h (posted h (H + length xs) v m) (H + i) =
      (if i = length xs then (slot_at h m (H + i))\<lparr>slot_value := Some v, slot_stamp := counter_of h (H + i) + 1\<rparr>
       else slot_at h m (H + i))" if "i < q_capacity h" for i
    using c assms(3) that mod_add_eq_iff [OF that assms(3), of H]
    by (auto simp: posted_def slot_at_set_slot)
  show ?thesis
    using assms(2, 3) slots by (auto simp: repr_at_def nth_append posted_def less_Suc_eq)
qed

lemma repr_polled:
  assumes "handle_ok h" "repr_at h H m (x # xs)"
  shows "repr_at h (Suc H) (polled h H m) xs"
proof -
  let ?c = "q_capacity h"
  have c: "0 < ?c" "length (q_slots m) = ?c" "length xs < ?c"
    using assms by (auto simp: handle_ok_def repr_at_def)
  have slots: "slot_at h (polled h H m) (Suc H + i) =
      (if Suc i = ?c then (slot_at h m H)\<lparr>slot_stamp := counter_of h (Suc (H + i))\<rparr>
       else slot_at h m (H + Suc i))" if "i < ?c" for i
  proof (cases "Suc i = ?c")
    case True
    then have "(Suc H + i) mod ?c = H mod ?c" by (metis add_Suc_shift mod_add_self2)
    moreover have "counter_of h (H + ?c) = counter_of h (Suc (H + i))" using True by (metis add_Suc_right)
    ultimately show ?thesis using c True by (simp add: polled_def slot_at_set_slot)
  next
    case False
    then have "(H + Suc i) mod ?c \<noteq> (H + 0) mod ?c" using that c(1) by (subst mod_add_eq_iff) auto
    then show ?thesis using c False by (simp add: polled_def slot_at_set_slot)
  qed
  have filled: "slot_stamp (slot_at h m (H + Suc i)) = counter_of h (H + Suc i) + 1 \<and>
      slot_value (slot_at h m (H + Suc i)) = Some (xs ! i)" if "i < length xs" for i
    using assms(2) that unfolding repr_at_def by (metis Suc_less_eq length_Cons nth_Cons_Suc)
  have empty: "slot_stamp (slot_at h m (H + Suc i)) = counter_of h (H + Suc i)"
    if "length xs \<le> i" "Suc i < ?c" for i
    using assms(2) that unfolding repr_at_def by (metis Suc_le_mono length_Cons)
  show ?thesis
    using assms(2) c slots filled empty unfolding repr_at_def
    by (auto simp: polled_def less_Suc_eq_le)
qed

section \<open>The contract of a bounded queue\<close>

datatype 'a queue_op = Put 'a | Get

datatype 'a queue_result = Accepted bool | Got "'a option"

text \<open>A sequence of operations on an implementation, and on a list of at most \<open>cap\<close> messages.\<close>

fun queue_exec ::
  "('a \<Rightarrow> 'q \<Rightarrow> ('q \<times> bool) option) \<Rightarrow> ('q \<Rightarrow> ('q \<times> 'a option) option) \<Rightarrow> 'a queue_op list \<Rightarrow> 'q \<Rightarrow>
   ('q \<times> 'a queue_result list) option" where
  "queue_exec put get [] q = Some (q, [])"
| "queue_exec put get (Put v # ops) q =
     Option.bind (put v q) (\<lambda>(q', b). map_option (apsnd (\<lambda>rs. Accepted b # rs)) (queue_exec put get ops q'))"
| "queue_exec put get (Get # ops) q =
     Option.bind (get q) (\<lambda>(q', r). map_option (apsnd (\<lambda>rs. Got r # rs)) (queue_exec put get ops q'))"

fun fifo_exec :: "nat \<Rightarrow> 'a queue_op list \<Rightarrow> 'a list \<Rightarrow> 'a list \<times> 'a queue_result list" where
  "fifo_exec cap [] xs = (xs, [])"
| "fifo_exec cap (Put v # ops) xs =
     (if length xs < cap then apsnd (\<lambda>rs. Accepted True # rs) (fifo_exec cap ops (xs @ [v]))
      else apsnd (\<lambda>rs. Accepted False # rs) (fifo_exec cap ops xs))"
| "fifo_exec cap (Get # ops) xs =
     (case xs of [] \<Rightarrow> apsnd (\<lambda>rs. Got None # rs) (fifo_exec cap ops [])
      | x # ys \<Rightarrow> apsnd (\<lambda>rs. Got (Some x) # rs) (fifo_exec cap ops ys))"

locale bounded_queue =
  fixes rep :: "'q \<Rightarrow> 'a list \<Rightarrow> bool"
    and cap :: nat
    and put :: "'a \<Rightarrow> 'q \<Rightarrow> ('q \<times> bool) option"
    and get :: "'q \<Rightarrow> ('q \<times> 'a option) option"
  assumes put_law: "rep q xs \<Longrightarrow> \<exists>q'. put v q = Some (q', length xs < cap) \<and>
      rep q' (if length xs < cap then xs @ [v] else xs)"
    and get_law: "rep q xs \<Longrightarrow> \<exists>q'. get q = Some (q', case xs of [] \<Rightarrow> None | x # _ \<Rightarrow> Some x) \<and> rep q' (tl xs)"
begin

lemma exec_refines:
  "rep q xs \<Longrightarrow> \<exists>q'. queue_exec put get ops q = Some (q', snd (fifo_exec cap ops xs)) \<and>
     rep q' (fst (fifo_exec cap ops xs))"
proof (induction ops arbitrary: q xs)
  case (Cons op ops)
  show ?case
  proof (cases op)
    case (Put v)
    obtain q1 where q1: "put v q = Some (q1, length xs < cap)"
      "rep q1 (if length xs < cap then xs @ [v] else xs)"
      using put_law [OF Cons.prems] by blast
    show ?thesis using Cons.IH [OF q1(2)] q1 by (auto simp: Put)
  next
    case Get
    obtain q1 where q1: "get q = Some (q1, case xs of [] \<Rightarrow> None | x # _ \<Rightarrow> Some x)" "rep q1 (tl xs)"
      using get_law [OF Cons.prems] by blast
    show ?thesis using Cons.IH [OF q1(2)] q1 by (auto simp: Get split: list.split)
  qed
qed auto

end

text \<open>The results of \<open>post\<close> and \<open>poll\<close> in the shape of the contract.\<close>

definition post_result :: "queue_handle \<Rightarrow> 'a \<Rightarrow> 'a queue_mem \<Rightarrow> ('a queue_mem \<times> bool) option" where
  "post_result h v m =
     (case post h v m of
        Some (Ok (m', pc)) \<Rightarrow> (case pc of Post_ok \<Rightarrow> Some (m', True) | Post_err _ \<Rightarrow> Some (m', False) | _ \<Rightarrow> None)
      | _ \<Rightarrow> None)"

definition poll_result :: "queue_handle \<Rightarrow> 'a queue_mem \<Rightarrow> ('a queue_mem \<times> 'a option) option" where
  "poll_result h m =
     (case poll h m of
        Some (Ok (m', pc)) \<Rightarrow> (case pc of Poll_some x \<Rightarrow> Some (m', Some x) | Poll_none \<Rightarrow> Some (m', None) | _ \<Rightarrow> None)
      | _ \<Rightarrow> None)"

lemma post_refines:
  assumes "handle_ok h" "queue_repr h m xs"
  shows "\<exists>m'. post h v m = Some (Ok (m', if length xs < q_capacity h then Post_ok else Post_err v)) \<and>
    queue_repr h m' (if length xs < q_capacity h then xs @ [v] else xs)"
proof -
  obtain H where H: "repr_at h H m xs" using assms(2) by (auto simp: queue_repr_def)
  then consider "length xs < q_capacity h" | "length xs = q_capacity h" by (force simp: repr_at_def)
  then show ?thesis
    using repr_post_ok [OF assms(1) H] repr_post_full [OF assms(1) H] repr_posted [OF assms(1) H] assms(2)
    by cases (auto simp: queue_repr_def)
qed

lemma poll_refines:
  assumes "handle_ok h" "queue_repr h m xs"
  shows "\<exists>m'. poll h m = Some (Ok (m', case xs of [] \<Rightarrow> Poll_none | x # _ \<Rightarrow> Poll_some x)) \<and>
    queue_repr h m' (tl xs)"
proof -
  obtain H where H: "repr_at h H m xs" using assms(2) by (auto simp: queue_repr_def)
  show ?thesis
    using H repr_poll_none [OF assms(1)] repr_poll_some [OF assms(1)] repr_polled [OF assms(1)]
    by (cases xs) (fastforce simp: queue_repr_def)+
qed

text \<open>
  The contract holds for every handle that \<open>Queue::new\<close> makes; the handle is carried along with the
  memory.
\<close>

definition handle_repr :: "queue_handle \<times> 'a queue_mem \<Rightarrow> nat \<Rightarrow> 'a list \<Rightarrow> bool" where
  "handle_repr hm cap xs \<longleftrightarrow> handle_ok (fst hm) \<and> q_capacity (fst hm) = cap \<and> queue_repr (fst hm) (snd hm) xs"

definition handle_put :: "'a \<Rightarrow> queue_handle \<times> 'a queue_mem \<Rightarrow> ((queue_handle \<times> 'a queue_mem) \<times> bool) option" where
  "handle_put v hm = map_option (\<lambda>(m, b). ((fst hm, m), b)) (post_result (fst hm) v (snd hm))"

definition handle_get :: "queue_handle \<times> 'a queue_mem \<Rightarrow> ((queue_handle \<times> 'a queue_mem) \<times> 'a option) option" where
  "handle_get hm = map_option (\<lambda>(m, r). ((fst hm, m), r)) (poll_result (fst hm) (snd hm))"

interpretation mq: bounded_queue "\<lambda>hm xs. handle_repr hm cap xs" cap handle_put handle_get
proof
  fix hm :: "queue_handle \<times> 'a queue_mem" and xs and v :: 'a
  assume "handle_repr hm cap xs"
  then have h: "handle_ok (fst hm)" "q_capacity (fst hm) = cap" "queue_repr (fst hm) (snd hm) xs"
    by (auto simp: handle_repr_def)
  show "\<exists>q'. handle_put v hm = Some (q', length xs < cap) \<and>
      handle_repr q' cap (if length xs < cap then xs @ [v] else xs)"
    using post_refines [OF h(1, 3), of v] h by (auto simp: handle_put_def post_result_def handle_repr_def)
  show "\<exists>q'. handle_get hm = Some (q', case xs of [] \<Rightarrow> None | x # _ \<Rightarrow> Some x) \<and> handle_repr q' cap (tl xs)"
    using poll_refines [OF h(1, 3)] h
    by (cases xs) (auto simp: handle_get_def poll_result_def handle_repr_def)
qed

section \<open>Properties\<close>

lemma find_power_of_two:
  assumes "find (\<lambda>p. n \<le> p) (map (\<lambda>k. 2 ^ k) [0..<64]) = Some (p :: nat)"
  shows "\<exists>k < 64. p = 2 ^ k \<and> n \<le> p"
  using assms by (force simp: find_Some_iff)

lemma queue_new_ok:
  assumes "queue_new qid cap = Ok h"
  shows "handle_ok h" "q_capacity h = cap" "q_id h = qid"
proof -
  obtain p where p: "0 < cap" "cap + 1 < usize_bound" "next_power_of_two (cap + 1) = (Ok p :: ('a, nat) outcome)"
    "h = \<lparr>q_id = qid, q_capacity = cap, q_one_lap = of_nat p\<rparr>"
    using assms by (auto simp: queue_new_def outcome_simps)
  obtain k where "k < 64" "p = 2 ^ k" "cap + 1 \<le> p"
    using find_power_of_two [of "cap + 1" p] p(3) by (auto simp: next_power_of_two_def split: option.splits)
  then show "handle_ok h" "q_capacity h = cap" "q_id h = qid"
    using p by (auto simp: handle_ok_def intro!: exI [of _ k])
qed

lemma queue_initialize_repr:
  assumes "handle_ok h"
  shows "queue_repr h (queue_initialize h) []"
proof -
  have "repr_at h 0 (queue_initialize h) []"
    by (auto simp: repr_at_def queue_initialize_def slot_at_def counter_of_def)
  then show ?thesis by (auto simp: queue_repr_def)
qed

text \<open>
  C13. \<open>post\<close> and \<open>poll\<close> implement a bounded first-in first-out queue, whatever the values of the
  64-bit counters (they may be about to wrap around). On memory that holds the messages \<open>xs\<close>, an
  undisturbed \<open>post\<close> returns: it appends the message when fewer than \<open>capacity\<close> are held and
  otherwise hands the message back and changes nothing; an undisturbed \<open>poll\<close> returns and removes the
  oldest message, or reports that there is none.
\<close>

theorem post_poll_refine_fifo:
  assumes "handle_ok h" "queue_repr h m xs"
  shows "(\<exists>m'. post h v m = Some (Ok (m', if length xs < q_capacity h then Post_ok else Post_err v)) \<and>
           queue_repr h m' (if length xs < q_capacity h then xs @ [v] else xs)) \<and>
    (\<exists>m'. poll h m = Some (Ok (m', case xs of [] \<Rightarrow> Poll_none | x # _ \<Rightarrow> Poll_some x)) \<and>
           queue_repr h m' (tl xs))"
  using post_refines [OF assms] poll_refines [OF assms] by blast

definition example_handle :: queue_handle where
  "example_handle = \<lparr>q_id = 1, q_capacity = 2, q_one_lap = 4\<rparr>"

text \<open>A memory whose tail is about to wrap around: one message, in the last slot of the last lap.\<close>

definition example_wrap :: "nat queue_mem" where
  "example_wrap = \<lparr>q_head = - 3, q_tail = 0,
     q_slots = [\<lparr>slot_stamp = 0, slot_value = None\<rparr>, \<lparr>slot_stamp = - 2, slot_value = Some 7\<rparr>]\<rparr>"

lemma example_handle_ok: "handle_ok example_handle"
  by (auto simp: handle_ok_def example_handle_def intro!: exI [of _ 2])

lemma example_wrap_repr: "queue_repr example_handle example_wrap [7]"
proof -
  have "repr_at example_handle 0x7fffffffffffffff example_wrap [7]"
    by (auto simp: repr_at_def example_handle_def example_wrap_def counter_of_def slot_at_def less_2_cases_iff)
  then show ?thesis by (auto simp: queue_repr_def)
qed

theorem post_poll_refine_fifo_witness:
  "(\<exists>m'. post example_handle 8 example_wrap = Some (Ok (m', Post_ok)) \<and> queue_repr example_handle m' [7, 8]) \<and>
   (\<exists>m'. poll example_handle example_wrap = Some (Ok (m', Poll_some 7)) \<and> queue_repr example_handle m' [])"
  using post_poll_refine_fifo [OF example_handle_ok example_wrap_repr, of 8]
  by (simp add: example_handle_def)

text \<open>
  C14. A queue made by \<open>Queue::new\<close> and initialised behaves, on every sequence of \<open>post\<close> and \<open>poll\<close>
  calls, exactly as a list of at most \<open>capacity\<close> messages: every call returns, and all results agree.
\<close>

theorem queue_history_fifo:
  assumes "queue_new qid cap = Ok h"
  shows "map_option snd (queue_exec handle_put handle_get ops (h, queue_initialize h)) =
    Some (snd (fifo_exec cap ops []))"
proof -
  have "handle_repr (h, queue_initialize h) cap []"
    using queue_new_ok [OF assms] queue_initialize_repr by (auto simp: handle_repr_def)
  then show ?thesis using mq.exec_refines [of "(h, queue_initialize h)" cap "[]" ops] by auto
qed

theorem queue_history_fifo_witness:
  "map_option snd (queue_exec handle_put handle_get [Put (5::nat), Put 6, Put 7, Get]
     (example_handle, queue_initialize example_handle)) =
   Some [Accepted True, Accepted True, Accepted False, Got (Some 5)]"
proof -
  have "queue_new 1 2 = (Ok example_handle :: (unit, queue_handle) outcome)"
    by (simp add: queue_new_def next_power_of_two_def example_handle_def upt_rec)
  show ?thesis by (simp only: queue_history_fifo [OF \<open>queue_new 1 2 = Ok example_handle\<close>]) simp
qed

end
