(* ===== verification/Msg_Queue_Conc.thy ===== *)
theory Msg_Queue_Conc
  imports Msg_Queue
begin

text \<open>
  Concurrent use of the message queues: any number of threads, on either side of the shared
  memory, run \<open>post\<close> and \<open>poll\<close> with their steps interleaved arbitrarily. The queue is shown to be
  linearizable: the successful compare-exchange on the tail (head) is the moment a message
  enters (leaves) an abstract first-in first-out queue, a rejected \<open>post\<close> observes a full queue and
  an empty \<open>poll\<close> an empty one. The 64-bit counters repeat after \<open>counter_period\<close> positions; a thread
  that sleeps for a whole period between loading a counter and exchanging it would be fooled, so
  the results are for executions that post fewer messages than that.
\<close>

section \<open>The system\<close>

text \<open>
  The ghost fields record the messages accepted so far, in the order of the exchanges of the
  tail (\<open>sys_log\<close>), the number of messages taken out (\<open>sys_deq\<close>), and for each thread the
  position its last loaded counter stands for (\<open>sys_pos\<close>).
\<close>

record 'a qsys =
  sys_mem :: "'a queue_mem"
  sys_pc :: "nat \<Rightarrow> 'a queue_pc option"
  sys_log :: "'a list"
  sys_deq :: nat
  sys_pos :: "nat \<Rightarrow> nat"

definition qsys_init :: "queue_handle \<Rightarrow> 'a qsys" where
  "qsys_init h = \<lparr>sys_mem = queue_initialize h, sys_pc = (\<lambda>_. None), sys_log = [], sys_deq = 0,
     sys_pos = (\<lambda>_. 0)\<rparr>"

definition qsys_advance :: "'a qsys \<Rightarrow> nat \<Rightarrow> 'a queue_mem \<Rightarrow> 'a queue_pc \<Rightarrow> 'a qsys" where
  "qsys_advance s i m' pc' =
     s\<lparr>sys_mem := m', sys_pc := (sys_pc s)(i := Some pc'),
       sys_log := (case pc' of Post_write v _ \<Rightarrow> sys_log s @ [v] | _ \<Rightarrow> sys_log s),
       sys_deq := (case pc' of Poll_read _ \<Rightarrow> Suc (sys_deq s) | _ \<Rightarrow> sys_deq s),
       sys_pos := (case pc' of
           Post_slot _ _ \<Rightarrow> (sys_pos s)(i := length (sys_log s))
         | Poll_slot _ \<Rightarrow> (sys_pos s)(i := sys_deq s)
         | _ \<Rightarrow> sys_pos s)\<rparr>"

inductive qsys_step :: "queue_handle \<Rightarrow> 'a qsys \<Rightarrow> 'a qsys \<Rightarrow> bool" for h :: queue_handle where
  call_post: "sys_pc s i = None \<Longrightarrow> qsys_step h s (s\<lparr>sys_pc := (sys_pc s)(i := Some (Post_load v))\<rparr>)"
| call_poll: "sys_pc s i = None \<Longrightarrow> qsys_step h s (s\<lparr>sys_pc := (sys_pc s)(i := Some Poll_load)\<rparr>)"
| advance: "sys_pc s i = Some pc \<Longrightarrow> \<not> pc_returned pc \<Longrightarrow>
    (queue_step h weak (sys_mem s) pc :: (unit, 'a queue_mem \<times> 'a queue_pc) outcome) = Ok (m', pc') \<Longrightarrow>
    qsys_step h s (qsys_advance s i m' pc')"
| return: "sys_pc s i = Some pc \<Longrightarrow> pc_returned pc \<Longrightarrow>
    qsys_step h s (s\<lparr>sys_pc := (sys_pc s)(i := None)\<rparr>)"

inductive qsys_reach :: "queue_handle \<Rightarrow> 'a qsys \<Rightarrow> bool" for h :: queue_handle where
  reach_init: "qsys_reach h (qsys_init h)"
| reach_step: "qsys_reach h s \<Longrightarrow> qsys_step h s s' \<Longrightarrow> qsys_reach h s'"

text \<open>The abstract queue.\<close>

definition sys_queue :: "'a qsys \<Rightarrow> 'a list" where
  "sys_queue s = drop (sys_deq s) (sys_log s)"

section \<open>The invariant\<close>

fun is_writer :: "'a queue_pc \<Rightarrow> bool" where
  "is_writer (Post_write v t) = True"
| "is_writer (Post_stamp t) = True"
| "is_writer _ = False"

fun is_reader :: "'a queue_pc \<Rightarrow> bool" where
  "is_reader (Poll_read t) = True"
| "is_reader (Poll_stamp t x) = True"
| "is_reader _ = False"

definition writers :: "'a qsys \<Rightarrow> nat set" where
  "writers s = {sys_pos s i | i pc. sys_pc s i = Some pc \<and> is_writer pc}"

definition readers :: "'a qsys \<Rightarrow> nat set" where
  "readers s = {sys_pos s i | i pc. sys_pc s i = Some pc \<and> is_reader pc}"

text \<open>
  The positions in \<open>{H ..< T}\<close> hold messages or are being written (\<open>W\<close>); those in \<open>{T ..< H + cap}\<close>
  are free or their slot is still being read for the lap before (\<open>R\<close>).
\<close>

definition window :: "queue_handle \<Rightarrow> 'a queue_mem \<Rightarrow> 'a list \<Rightarrow> nat \<Rightarrow> nat set \<Rightarrow> nat set \<Rightarrow> bool" where
  "window h m log H W R \<longleftrightarrow>
     length (q_slots m) = q_capacity h \<and>
     q_head m = counter_of h H \<and> q_tail m = counter_of h (length log) \<and>
     H \<le> length log \<and> length log \<le> H + q_capacity h \<and>
     W \<subseteq> {H ..< length log} \<and> (\<forall>r\<in>R. r < H \<and> length log \<le> r + q_capacity h) \<and>
     (\<forall>n\<in>W. slot_stamp (slot_at h m n) = counter_of h n) \<and>
     (\<forall>n. H \<le> n \<longrightarrow> n < length log \<longrightarrow> n \<notin> W \<longrightarrow>
        slot_stamp (slot_at h m n) = counter_of h n + 1 \<and> slot_value (slot_at h m n) = Some (log ! n)) \<and>
     (\<forall>r\<in>R. slot_stamp (slot_at h m r) = counter_of h r + 1 \<and> slot_value (slot_at h m r) = Some (log ! r)) \<and>
     (\<forall>n. length log \<le> n \<longrightarrow> n < H + q_capacity h \<longrightarrow> (\<forall>r\<in>R. r + q_capacity h \<noteq> n) \<longrightarrow>
        slot_stamp (slot_at h m n) = counter_of h n)"

definition may_push :: "queue_handle \<Rightarrow> nat \<Rightarrow> nat \<Rightarrow> nat set \<Rightarrow> bool" where
  "may_push h T H R \<longleftrightarrow> T < H + q_capacity h \<and> (\<forall>r\<in>R. r + q_capacity h \<noteq> T)"

fun thread_ok :: "queue_handle \<Rightarrow> 'a queue_mem \<Rightarrow> 'a list \<Rightarrow> nat \<Rightarrow> nat set \<Rightarrow> nat set \<Rightarrow> nat \<Rightarrow>
    'a queue_pc \<Rightarrow> bool" where
  "thread_ok h m log H W R p (Post_slot v t) \<longleftrightarrow> t = counter_of h p \<and> p \<le> length log"
| "thread_ok h m log H W R p (Post_cas v t st) \<longleftrightarrow> t = counter_of h p \<and> p \<le> length log \<and>
     (st = t \<longrightarrow> p = length log \<longrightarrow> may_push h (length log) H R)"
| "thread_ok h m log H W R p (Post_full v t) \<longleftrightarrow> t = counter_of h p \<and> p \<le> length log"
| "thread_ok h m log H W R p (Post_write v t) \<longleftrightarrow> t = counter_of h p \<and> p < length log \<and> log ! p = v"
| "thread_ok h m log H W R p (Post_stamp t) \<longleftrightarrow> t = counter_of h p \<and> p < length log \<and>
     slot_value (slot_at h m p) = Some (log ! p)"
| "thread_ok h m log H W R p (Poll_slot t) \<longleftrightarrow> t = counter_of h p \<and> p \<le> H"
| "thread_ok h m log H W R p (Poll_cas t st) \<longleftrightarrow> t = counter_of h p \<and> p \<le> H \<and>
     (st = t + 1 \<longrightarrow> p = H \<longrightarrow> H < length log \<and> H \<notin> W)"
| "thread_ok h m log H W R p (Poll_empty t) \<longleftrightarrow> t = counter_of h p \<and> p \<le> H"
| "thread_ok h m log H W R p (Poll_read t) \<longleftrightarrow> t = counter_of h p \<and> p < H"
| "thread_ok h m log H W R p (Poll_stamp t x) \<longleftrightarrow> t = counter_of h p \<and> p < H \<and> x = log ! p"
| "thread_ok h m log H W R p (Poll_some x) \<longleftrightarrow> p < H \<and> x = log ! p"
| "thread_ok h m log H W R p _ \<longleftrightarrow> True"

text \<open>No two threads write, or have taken out, the same position.\<close>

fun is_taker :: "'a queue_pc \<Rightarrow> bool" where
  "is_taker (Poll_some x) = True"
| "is_taker pc = is_reader pc"

definition owners_distinct :: "'a qsys \<Rightarrow> bool" where
  "owners_distinct s \<longleftrightarrow>
     (\<forall>i j pc pc'. i \<noteq> j \<longrightarrow> sys_pc s i = Some pc \<longrightarrow> sys_pc s j = Some pc' \<longrightarrow>
        (is_writer pc \<and> is_writer pc' \<or> is_taker pc \<and> is_taker pc') \<longrightarrow> sys_pos s i \<noteq> sys_pos s j)"

definition qsys_inv :: "queue_handle \<Rightarrow> 'a qsys \<Rightarrow> bool" where
  "qsys_inv h s \<longleftrightarrow>
     window h (sys_mem s) (sys_log s) (sys_deq s) (writers s) (readers s) \<and> owners_distinct s \<and>
     (\<forall>i pc. sys_pc s i = Some pc \<longrightarrow>
        thread_ok h (sys_mem s) (sys_log s) (sys_deq s) (writers s) (readers s) (sys_pos s i) pc)"

section \<open>Changes of the window\<close>

lemma slot_distinct:
  assumes "m < n" "n < m + c"
  shows "n mod c \<noteq> m mod (c :: nat)"
proof
  assume "n mod c = m mod c"
  then have "c dvd n - m" using assms(1) by (simp add: mod_eq_dvd_iff_nat)
  then show False using assms nat_dvd_not_less [of "n - m" c] by auto
qed

lemma cap_less_period:
  assumes "handle_ok h"
  shows "q_capacity h < counter_period h"
proof -
  obtain k where k: "0 < q_capacity h" "k \<le> 63" "q_one_lap h = 2 ^ k" using assms by (auto simp: handle_ok_def)
  have "unat (2 ^ k :: 64 word) = 2 ^ k" using k(2) by (intro unat_exp) simp
  then have "2 ^ 64 div unat (q_one_lap h) = 2 ^ (64 - k)" using k(2) by (simp only: k(3) power_diff)
  moreover have "(2 :: nat) ^ 1 \<le> 2 ^ (64 - k)" by (rule power_increasing) (use k(2) in simp_all)
  ultimately show ?thesis using k(1) by (simp add: counter_period_def)
qed

lemma windowD:
  assumes "window h m log H W R"
  shows "length (q_slots m) = q_capacity h" "q_head m = counter_of h H" "q_tail m = counter_of h (length log)"
    and "H \<le> length log" "length log \<le> H + q_capacity h"
    and "n \<in> W \<Longrightarrow> H \<le> n" "n \<in> W \<Longrightarrow> n < length log"
    and "n \<in> W \<Longrightarrow> slot_stamp (slot_at h m n) = counter_of h n"
    and "r \<in> R \<Longrightarrow> r < H" "r \<in> R \<Longrightarrow> length log \<le> r + q_capacity h"
    and "r \<in> R \<Longrightarrow> slot_stamp (slot_at h m r) = counter_of h r + 1"
    and "r \<in> R \<Longrightarrow> slot_value (slot_at h m r) = Some (log ! r)"
    and "H \<le> n \<Longrightarrow> n < length log \<Longrightarrow> n \<notin> W \<Longrightarrow> slot_stamp (slot_at h m n) = counter_of h n + 1"
    and "H \<le> n \<Longrightarrow> n < length log \<Longrightarrow> n \<notin> W \<Longrightarrow> slot_value (slot_at h m n) = Some (log ! n)"
    and "length log \<le> n \<Longrightarrow> n < H + q_capacity h \<Longrightarrow> \<forall>r\<in>R. r + q_capacity h \<noteq> n \<Longrightarrow>
      slot_stamp (slot_at h m n) = counter_of h n"
  using assms unfolding window_def by auto

lemma windowI:
  assumes "length (q_slots m) = q_capacity h" "q_head m = counter_of h H" "q_tail m = counter_of h (length log)"
    "H \<le> length log" "length log \<le> H + q_capacity h"
    and "\<And>n. n \<in> W \<Longrightarrow> H \<le> n \<and> n < length log \<and> slot_stamp (slot_at h m n) = counter_of h n"
    and "\<And>r. r \<in> R \<Longrightarrow> r < H \<and> length log \<le> r + q_capacity h \<and>
      slot_stamp (slot_at h m r) = counter_of h r + 1 \<and> slot_value (slot_at h m r) = Some (log ! r)"
    and "\<And>n. H \<le> n \<Longrightarrow> n < length log \<Longrightarrow> n \<notin> W \<Longrightarrow>
      slot_stamp (slot_at h m n) = counter_of h n + 1 \<and> slot_value (slot_at h m n) = Some (log ! n)"
    and "\<And>n. length log \<le> n \<Longrightarrow> n < H + q_capacity h \<Longrightarrow> \<forall>r\<in>R. r + q_capacity h \<noteq> n \<Longrightarrow>
      slot_stamp (slot_at h m n) = counter_of h n"
  shows "window h m log H W R"
  using assms unfolding window_def by auto

lemma window_tail_cas:
  assumes w: "window h m log H W R" and p: "may_push h (length log) H R"
  shows "window h (m\<lparr>q_tail := counter_of h (Suc (length log))\<rparr>) (log @ [v]) H (insert (length log) W) R"
proof (rule windowI)
  fix n assume "n \<in> insert (length log) W"
  then show "H \<le> n \<and> n < length (log @ [v]) \<and>
      slot_stamp (slot_at h (m\<lparr>q_tail := counter_of h (Suc (length log))\<rparr>) n) = counter_of h n"
    using windowD(4, 6, 7, 8, 15) [OF w] p by (auto simp: may_push_def less_Suc_eq)
next
  fix r assume r: "r \<in> R"
  have "length log \<noteq> r + q_capacity h" using p r by (auto simp: may_push_def)
  then show "r < H \<and> length (log @ [v]) \<le> r + q_capacity h \<and>
      slot_stamp (slot_at h (m\<lparr>q_tail := counter_of h (Suc (length log))\<rparr>) r) = counter_of h r + 1 \<and>
      slot_value (slot_at h (m\<lparr>q_tail := counter_of h (Suc (length log))\<rparr>) r) = Some ((log @ [v]) ! r)"
    using windowD(4) [OF w] windowD(9-12) [OF w r] by (simp add: nth_append)
qed (use windowD [OF w] p in \<open>auto simp: may_push_def nth_append\<close>)

lemma window_head_cas:
  assumes w: "window h m log H W R" and "H < length log" "H \<notin> W"
  shows "window h (m\<lparr>q_head := counter_of h (Suc H)\<rparr>) log (Suc H) W (insert H R)"
proof (rule windowI)
  fix n assume n: "n \<in> W"
  then have "H \<noteq> n" using assms by auto
  then show "Suc H \<le> n \<and> n < length log \<and>
      slot_stamp (slot_at h (m\<lparr>q_head := counter_of h (Suc H)\<rparr>) n) = counter_of h n"
    using windowD(6-8) [OF w n] by simp
next
  fix r assume "r \<in> insert H R"
  then show "r < Suc H \<and> length log \<le> r + q_capacity h \<and>
      slot_stamp (slot_at h (m\<lparr>q_head := counter_of h (Suc H)\<rparr>) r) = counter_of h r + 1 \<and>
      slot_value (slot_at h (m\<lparr>q_head := counter_of h (Suc H)\<rparr>) r) = Some (log ! r)"
    using windowD(5) [OF w] windowD(9-12) [OF w, of r] windowD(13, 14) [OF w, of H] assms(2, 3)
    by (auto simp: less_Suc_eq)
next
  fix n assume "length log \<le> n" "n < Suc H + q_capacity h" "\<forall>r\<in>insert H R. r + q_capacity h \<noteq> n"
  then show "slot_stamp (slot_at h (m\<lparr>q_head := counter_of h (Suc H)\<rparr>) n) = counter_of h n"
    using windowD(15) [OF w, of n] by (auto simp: less_Suc_eq)
qed (use windowD [OF w] assms in auto)

text \<open>The slot of a position being written or read is no other position of the window.\<close>

lemma writer_slot_private:
  assumes w: "window h m log H W R" and p: "p \<in> W"
  shows "H \<le> n \<Longrightarrow> n < length log \<Longrightarrow> n \<noteq> p \<Longrightarrow> n mod q_capacity h \<noteq> p mod q_capacity h"
    and "r \<in> R \<Longrightarrow> r mod q_capacity h \<noteq> p mod q_capacity h"
    and "length log \<le> n \<Longrightarrow> n < H + q_capacity h \<Longrightarrow> n mod q_capacity h \<noteq> p mod q_capacity h"
proof -
  note d = windowD(4, 5) [OF w] windowD(6, 7) [OF w p]
  show "n mod q_capacity h \<noteq> p mod q_capacity h" if "H \<le> n" "n < length log" "n \<noteq> p"
    using that d slot_distinct [of n p "q_capacity h"] slot_distinct [of p n "q_capacity h"]
    by (cases "n < p") auto
  show "n mod q_capacity h \<noteq> p mod q_capacity h" if "length log \<le> n" "n < H + q_capacity h"
    using that d slot_distinct [of p n "q_capacity h"] by auto
  show "r mod q_capacity h \<noteq> p mod q_capacity h" if "r \<in> R"
    using windowD(9, 10) [OF w that] d slot_distinct [of r p "q_capacity h"] by auto
qed

lemma reader_slot_private:
  assumes w: "window h m log H W R" and p: "p \<in> R"
  shows "H \<le> n \<Longrightarrow> n < length log \<Longrightarrow> n mod q_capacity h \<noteq> p mod q_capacity h"
    and "r \<in> R \<Longrightarrow> r \<noteq> p \<Longrightarrow> r mod q_capacity h \<noteq> p mod q_capacity h"
    and "length log \<le> n \<Longrightarrow> n < H + q_capacity h \<Longrightarrow> n \<noteq> p + q_capacity h \<Longrightarrow>
      n mod q_capacity h \<noteq> p mod q_capacity h"
proof -
  note d = windowD(4, 5) [OF w] windowD(9, 10) [OF w p]
  show "n mod q_capacity h \<noteq> p mod q_capacity h" if "H \<le> n" "n < length log"
    using that d slot_distinct [of p n "q_capacity h"] by auto
  show "n mod q_capacity h \<noteq> p mod q_capacity h" if "length log \<le> n" "n < H + q_capacity h" "n \<noteq> p + q_capacity h"
    using that d slot_distinct [of "p + q_capacity h" n "q_capacity h"]
      slot_distinct [of n "p + q_capacity h" "q_capacity h"]
    by (cases "n < p + q_capacity h") auto
  show "r mod q_capacity h \<noteq> p mod q_capacity h" if "r \<in> R" "r \<noteq> p"
    using windowD(9, 10) [OF w that(1)] that d slot_distinct [of r p "q_capacity h"]
      slot_distinct [of p r "q_capacity h"] by (cases "r < p") auto
qed

lemma slot_at_private:
  "length (q_slots m) = q_capacity h \<Longrightarrow> 0 < q_capacity h \<Longrightarrow> n mod q_capacity h \<noteq> p mod q_capacity h \<Longrightarrow>
     slot_at h (set_slot (p mod q_capacity h) f m) n = slot_at h m n"
  "length (q_slots m) = q_capacity h \<Longrightarrow> 0 < q_capacity h \<Longrightarrow>
     slot_at h (set_slot (p mod q_capacity h) f m) p = f (slot_at h m p)"
  by (simp_all add: slot_at_set_slot)

lemma window_write:
  assumes w: "window h m log H W R" and p: "p \<in> W" and c: "0 < q_capacity h"
  shows "window h (set_slot (p mod q_capacity h) (\<lambda>s. s\<lparr>slot_value := Some v\<rparr>) m) log H W R"
proof (rule windowI)
  note priv = writer_slot_private [OF w p] and at = slot_at_private [OF windowD(1) [OF w] c]
  fix n assume "n \<in> W"
  then show "H \<le> n \<and> n < length log \<and>
      slot_stamp (slot_at h (set_slot (p mod q_capacity h) (\<lambda>s. s\<lparr>slot_value := Some v\<rparr>) m) n) = counter_of h n"
    using windowD(6-8) [OF w, of n] priv(1) [of n] at by (cases "n = p") auto
next
  let ?m = "set_slot (p mod q_capacity h) (\<lambda>s. s\<lparr>slot_value := Some v\<rparr>) m"
  fix n assume n: "H \<le> n" "n < length log" "n \<notin> W"
  then have "n \<noteq> p" using p by auto
  then show "slot_stamp (slot_at h ?m n) = counter_of h n + 1 \<and> slot_value (slot_at h ?m n) = Some (log ! n)"
    using windowD(13, 14) [OF w n] writer_slot_private(1) [OF w p n(1, 2)]
      slot_at_private [OF windowD(1) [OF w] c] by simp
qed (use windowD [OF w] writer_slot_private [OF w p] slot_at_private [OF windowD(1) [OF w] c] in auto)

lemma window_publish:
  assumes w: "window h m log H W R" and p: "p \<in> W" and c: "0 < q_capacity h"
    and v: "slot_value (slot_at h m p) = Some (log ! p)"
  shows "window h (set_slot (p mod q_capacity h) (\<lambda>s. s\<lparr>slot_stamp := counter_of h p + 1\<rparr>) m) log H (W - {p}) R"
proof (rule windowI)
  note priv = writer_slot_private [OF w p] and at = slot_at_private [OF windowD(1) [OF w] c]
  let ?m = "set_slot (p mod q_capacity h) (\<lambda>s. s\<lparr>slot_stamp := counter_of h p + 1\<rparr>) m"
  fix n assume "H \<le> n" "n < length log" "n \<notin> W - {p}"
  then show "slot_stamp (slot_at h ?m n) = counter_of h n + 1 \<and> slot_value (slot_at h ?m n) = Some (log ! n)"
    using windowD(13, 14) [OF w, of n] priv(1) [of n] at v by (cases "n = p") auto
qed (use windowD [OF w] writer_slot_private [OF w p] slot_at_private [OF windowD(1) [OF w] c] in auto)

lemma window_release:
  assumes w: "window h m log H W R" and p: "p \<in> R" and c: "0 < q_capacity h"
  shows "window h (set_slot (p mod q_capacity h) (\<lambda>s. s\<lparr>slot_stamp := counter_of h (p + q_capacity h)\<rparr>) m)
    log H W (R - {p})"
proof (rule windowI)
  note priv = reader_slot_private [OF w p] and at = slot_at_private [OF windowD(1) [OF w] c]
  let ?m = "set_slot (p mod q_capacity h) (\<lambda>s. s\<lparr>slot_stamp := counter_of h (p + q_capacity h)\<rparr>) m"
  fix n assume n: "length log \<le> n" "n < H + q_capacity h" "\<forall>r\<in>R - {p}. r + q_capacity h \<noteq> n"
  show "slot_stamp (slot_at h ?m n) = counter_of h n"
  proof (cases "n = p + q_capacity h")
    case True
    then have "slot_at h ?m n = slot_at h ?m p" by (simp add: slot_at_def)
    then show ?thesis using True at by simp
  next
    case False
    then have "\<forall>r\<in>R. r + q_capacity h \<noteq> n" using n(3) by auto
    then show ?thesis using windowD(15) [OF w n(1, 2)] priv(3) [OF n(1, 2) False] at by simp
  qed
qed (use windowD [OF w] reader_slot_private [OF w p] slot_at_private [OF windowD(1) [OF w] c] in auto)

section \<open>Stability of the other threads\<close>

lemma thread_ok_tail_cas:
  assumes "thread_ok h m log H W R p pc" "H \<le> length log"
  shows "thread_ok h (m\<lparr>q_tail := x\<rparr>) (log @ [v]) H (insert (length log) W) R p pc"
  using assms by (cases pc) (auto simp: nth_append)

lemma thread_ok_head_cas:
  assumes "thread_ok h m log H W R p pc"
  shows "thread_ok h (m\<lparr>q_head := x\<rparr>) log (Suc H) W (insert H R) p pc"
  using assms by (cases pc) (auto simp: may_push_def)

lemma thread_ok_write:
  assumes "thread_ok h m log H W R q pc" "is_writer pc \<Longrightarrow> q mod q_capacity h \<noteq> p mod q_capacity h"
    "length (q_slots m) = q_capacity h" "0 < q_capacity h"
  shows "thread_ok h (set_slot (p mod q_capacity h) f m) log H W R q pc"
  using assms by (cases pc) (auto simp: slot_at_set_slot)

lemma thread_ok_stamp:
  assumes "thread_ok h m log H W R q pc" "length (q_slots m) = q_capacity h" "0 < q_capacity h"
    "W' \<subseteq> W" "R' \<subseteq> R"
  shows "thread_ok h (set_slot (p mod q_capacity h) (\<lambda>s. s\<lparr>slot_stamp := x\<rparr>) m) log H W' R' q pc"
proof -
  have "slot_value (slot_at h (set_slot (p mod q_capacity h) (\<lambda>s. s\<lparr>slot_stamp := x\<rparr>) m) n) =
      slot_value (slot_at h m n)" for n
    using assms(2, 3) by (auto simp: slot_at_set_slot) (auto simp: slot_at_def)
  then show ?thesis using assms by (cases pc) (auto simp: may_push_def)
qed

section \<open>Preservation\<close>

text \<open>The positions of the other threads in a given phase.\<close>

definition others :: "('a queue_pc \<Rightarrow> bool) \<Rightarrow> 'a qsys \<Rightarrow> nat \<Rightarrow> nat set" where
  "others P s i = {sys_pos s j | j pc. j \<noteq> i \<and> sys_pc s j = Some pc \<and> P pc}"

lemma writers_others:
  "sys_pc s i = Some pc \<Longrightarrow> writers s = others is_writer s i \<union> (if is_writer pc then {sys_pos s i} else {})"
  "sys_pc s i = None \<Longrightarrow> writers s = others is_writer s i"
  unfolding writers_def others_def by auto

lemma readers_others:
  "sys_pc s i = Some pc \<Longrightarrow> readers s = others is_reader s i \<union> (if is_reader pc then {sys_pos s i} else {})"
  "sys_pc s i = None \<Longrightarrow> readers s = others is_reader s i"
  unfolding readers_def others_def by auto

lemma others_cong:
  assumes "\<And>j. j \<noteq> i \<Longrightarrow> sys_pc s' j = sys_pc s j \<and> sys_pos s' j = sys_pos s j"
  shows "others P s' i = others P s i"
  unfolding others_def by (rule Collect_cong) (metis assms)

lemma is_reader_taker: "is_reader pc \<Longrightarrow> is_taker pc"
  by (cases pc) auto

lemma owners_distinct_others:
  assumes "owners_distinct s" "sys_pc s i = Some pc"
  shows "is_writer pc \<Longrightarrow> sys_pos s i \<notin> others is_writer s i" "is_taker pc \<Longrightarrow> sys_pos s i \<notin> others is_taker s i"
  using assms unfolding owners_distinct_def others_def by auto

text \<open>
  A step of thread \<open>i\<close> keeps the invariant when the window does, when the thread's own claim and the
  claims of the others hold in the new state, and when the thread does not come to own a position
  another thread owns.
\<close>

lemma inv_step:
  assumes inv: "qsys_inv h s"
    and pcs: "\<And>j. j \<noteq> i \<Longrightarrow> sys_pc s' j = sys_pc s j \<and> sys_pos s' j = sys_pos s j"
    and w: "window h (sys_mem s') (sys_log s') (sys_deq s') (writers s') (readers s')"
    and own: "\<And>pc. sys_pc s' i = Some pc \<Longrightarrow>
      thread_ok h (sys_mem s') (sys_log s') (sys_deq s') (writers s') (readers s') (sys_pos s' i) pc \<and>
      (is_writer pc \<longrightarrow> sys_pos s' i \<notin> others is_writer s i) \<and> (is_taker pc \<longrightarrow> sys_pos s' i \<notin> others is_taker s i)"
    and oth: "\<And>j pc. j \<noteq> i \<Longrightarrow> sys_pc s j = Some pc \<Longrightarrow>
      thread_ok h (sys_mem s) (sys_log s) (sys_deq s) (writers s) (readers s) (sys_pos s j) pc \<Longrightarrow>
      thread_ok h (sys_mem s') (sys_log s') (sys_deq s') (writers s') (readers s') (sys_pos s j) pc"
  shows "qsys_inv h s'"
proof -
  have "sys_pos s' j \<noteq> sys_pos s' k"
    if "j \<noteq> k" "sys_pc s' j = Some pj" "sys_pc s' k = Some pk"
      "is_writer pj \<and> is_writer pk \<or> is_taker pj \<and> is_taker pk" for j k pj pk
  proof -
    have other: "sys_pos s l \<in> others P s i" if "l \<noteq> i" "sys_pc s' l = Some pl" "P pl" for l pl P
      using that pcs [of l] unfolding others_def by auto
    have d: "owners_distinct s" using inv by (simp add: qsys_inv_def)
    consider "j = i" | "k = i" | "j \<noteq> i" "k \<noteq> i" by blast
    then show ?thesis
    proof cases
      case 1
      then have "sys_pos s' k = sys_pos s k" "k \<noteq> i" using pcs [of k] that(1) by auto
      then show ?thesis using 1 that own [of pj] other [of k pk] by metis
    next
      case 2
      then have "sys_pos s' j = sys_pos s j" "j \<noteq> i" using pcs [of j] that(1) by auto
      then show ?thesis using 2 that own [of pk] other [of j pj] by metis
    next
      case 3
      then have "sys_pc s j = Some pj" "sys_pc s k = Some pk" "sys_pos s' j = sys_pos s j" "sys_pos s' k = sys_pos s k"
        using that(2, 3) pcs by simp_all
      then show ?thesis using d [unfolded owners_distinct_def, rule_format, OF that(1) _ _ that(4)] by simp
    qed
  qed
  then have "owners_distinct s'" unfolding owners_distinct_def by blast
  moreover have "thread_ok h (sys_mem s') (sys_log s') (sys_deq s') (writers s') (readers s') (sys_pos s' j) pc"
    if "sys_pc s' j = Some pc" for j pc
  proof (cases "j = i")
    case False
    then have "sys_pc s j = Some pc" "sys_pos s' j = sys_pos s j" using pcs [of j] that by auto
    moreover have "thread_ok h (sys_mem s) (sys_log s) (sys_deq s) (writers s) (readers s) (sys_pos s j) pc"
      using inv calculation(1) by (simp add: qsys_inv_def)
    ultimately show ?thesis using False oth [of j pc] by simp
  next
    case True
    then show ?thesis using own [of pc] that by simp
  qed
  ultimately show ?thesis using w by (simp add: qsys_inv_def)
qed

text \<open>A step that touches no shared memory and keeps the thread's ownership.\<close>

lemma inv_local:
  assumes inv: "qsys_inv h s"
    and pcs: "\<And>j. j \<noteq> i \<Longrightarrow> sys_pc s' j = sys_pc s j \<and> sys_pos s' j = sys_pos s j"
    and same: "sys_mem s' = sys_mem s" "sys_log s' = sys_log s" "sys_deq s' = sys_deq s"
    and sets: "writers s' = writers s" "readers s' = readers s"
    and own: "\<And>pc. sys_pc s' i = Some pc \<Longrightarrow>
      thread_ok h (sys_mem s) (sys_log s) (sys_deq s) (writers s) (readers s) (sys_pos s' i) pc \<and>
      (is_writer pc \<longrightarrow> sys_pos s' i \<notin> others is_writer s i) \<and> (is_taker pc \<longrightarrow> sys_pos s' i \<notin> others is_taker s i)"
  shows "qsys_inv h s'"
proof (rule inv_step [OF inv pcs])
  show "window h (sys_mem s') (sys_log s') (sys_deq s') (writers s') (readers s')"
    using inv unfolding qsys_inv_def same sets by blast
qed (use own in \<open>auto simp: same sets\<close>)

lemma advance_simps [simp]:
  "sys_mem (qsys_advance s i m pc) = m"
  "sys_pc (qsys_advance s i m pc) = (sys_pc s)(i := Some pc)"
  "sys_log (qsys_advance s i m pc) = (case pc of Post_write v _ \<Rightarrow> sys_log s @ [v] | _ \<Rightarrow> sys_log s)"
  "sys_deq (qsys_advance s i m pc) = (case pc of Poll_read _ \<Rightarrow> Suc (sys_deq s) | _ \<Rightarrow> sys_deq s)"
  "sys_pos (qsys_advance s i m pc) i =
     (case pc of Post_slot _ _ \<Rightarrow> length (sys_log s) | Poll_slot _ \<Rightarrow> sys_deq s | _ \<Rightarrow> sys_pos s i)"
  "j \<noteq> i \<Longrightarrow> sys_pos (qsys_advance s i m pc) j = sys_pos s j"
  by (simp_all add: qsys_advance_def split: queue_pc.split)

lemma advance_sets:
  "writers (qsys_advance s i m pc) =
     others is_writer s i \<union> (if is_writer pc then {sys_pos (qsys_advance s i m pc) i} else {})"
  "readers (qsys_advance s i m pc) =
     others is_reader s i \<union> (if is_reader pc then {sys_pos (qsys_advance s i m pc) i} else {})"
proof -
  have "others P (qsys_advance s i m pc) i = others P s i" for P
    by (rule others_cong) simp
  then show "writers (qsys_advance s i m pc) =
      others is_writer s i \<union> (if is_writer pc then {sys_pos (qsys_advance s i m pc) i} else {})"
    "readers (qsys_advance s i m pc) =
      others is_reader s i \<union> (if is_reader pc then {sys_pos (qsys_advance s i m pc) i} else {})"
    using writers_others(1) [of "qsys_advance s i m pc" i pc] readers_others(1) [of "qsys_advance s i m pc" i pc]
    by simp_all
qed

lemma inv_advance_local:
  assumes inv: "qsys_inv h s" and pc: "sys_pc s i = Some pc"
    and kind: "is_writer pc' = is_writer pc" "is_reader pc' = is_reader pc" "is_taker pc' = is_taker pc"
    and pos: "is_writer pc \<or> is_taker pc \<Longrightarrow> sys_pos (qsys_advance s i (sys_mem s) pc') i = sys_pos s i"
    and ghost: "sys_log (qsys_advance s i (sys_mem s) pc') = sys_log s"
      "sys_deq (qsys_advance s i (sys_mem s) pc') = sys_deq s"
    and own: "thread_ok h (sys_mem s) (sys_log s) (sys_deq s) (writers s) (readers s)
      (sys_pos (qsys_advance s i (sys_mem s) pc') i) pc'"
  shows "qsys_inv h (qsys_advance s i (sys_mem s) pc')"
proof (rule inv_local [OF inv])
  have d: "owners_distinct s" using inv by (simp add: qsys_inv_def)
  show "writers (qsys_advance s i (sys_mem s) pc') = writers s"
    using pos kind unfolding advance_sets writers_others(1) [OF pc] by auto
  show "readers (qsys_advance s i (sys_mem s) pc') = readers s"
    using pos kind is_reader_taker unfolding advance_sets readers_others(1) [OF pc] by auto
  fix pcx assume "sys_pc (qsys_advance s i (sys_mem s) pc') i = Some pcx"
  then have "pcx = pc'" by simp
  then show "thread_ok h (sys_mem s) (sys_log s) (sys_deq s) (writers s) (readers s)
        (sys_pos (qsys_advance s i (sys_mem s) pc') i) pcx \<and>
      (is_writer pcx \<longrightarrow> sys_pos (qsys_advance s i (sys_mem s) pc') i \<notin> others is_writer s i) \<and>
      (is_taker pcx \<longrightarrow> sys_pos (qsys_advance s i (sys_mem s) pc') i \<notin> others is_taker s i)"
    using own pos kind owners_distinct_others [OF d pc] by auto
qed (use ghost in simp_all)

text \<open>What a matching stamp tells the thread that loaded it while its counter was current.\<close>

lemma stamp_may_push:
  assumes w: "window h m log H W R" and h: "handle_ok h"
    and st: "slot_stamp (slot_at h m (length log)) = counter_of h (length log)"
  shows "may_push h (length log) H R"
proof -
  let ?c = "q_capacity h" and ?T = "length log"
  have c: "0 < ?c" using h by (simp add: handle_ok_def)
  have "?T < H + ?c"
  proof (rule ccontr)
    assume "\<not> ?T < H + ?c"
    then have T: "?T = H + ?c" using windowD(5) [OF w] by simp
    have same: "slot_at h m ?T = slot_at h m H" by (simp add: slot_at_def T)
    have "counter_of h H \<noteq> counter_of h ?T"
      using counter_of_inject [OF h, of H ?T] cap_less_period [OF h] T c by simp
    moreover have "counter_of h H + 1 \<noteq> counter_of h ?T" by (rule counter_Suc_neq [OF h]) (simp add: T)
    ultimately show False
      using st windowD(8) [OF w, of H] windowD(13) [OF w, of H] T c unfolding same by (cases "H \<in> W") auto
  qed
  moreover have "r + ?c \<noteq> ?T" if r: "r \<in> R" for r
  proof
    assume T: "r + ?c = ?T"
    then have "slot_at h m ?T = slot_at h m r" by (simp add: slot_at_def flip: T)
    then have "counter_of h r + 1 = counter_of h ?T" using st windowD(11) [OF w r] by simp
    moreover have "counter_of h r + 1 \<noteq> counter_of h ?T"
      by (rule counter_Suc_neq [OF h]) (simp flip: T)
    ultimately show False by simp
  qed
  ultimately show ?thesis by (simp add: may_push_def)
qed

lemma stamp_may_pop:
  assumes w: "window h m log H W R" and h: "handle_ok h"
    and st: "slot_stamp (slot_at h m H) = counter_of h H + 1"
  shows "H < length log \<and> H \<notin> W"
proof -
  let ?c = "q_capacity h"
  have c: "0 < ?c" using h by (simp add: handle_ok_def)
  have "H \<noteq> length log"
  proof
    assume T: "H = length log"
    show False
    proof (cases "\<forall>r\<in>R. r + ?c \<noteq> H")
      case True
      then show False using windowD(15) [OF w, of H] st T c by simp
    next
      case False
      then obtain r where r: "r \<in> R" "r + ?c = H" by auto
      then have "slot_at h m H = slot_at h m r" by (simp add: slot_at_def flip: r(2))
      then have "counter_of h r = counter_of h H" using st windowD(11) [OF w r(1)] by simp
      then show False using counter_of_inject [OF h, of r H] cap_less_period [OF h] r c by simp
    qed
  qed
  moreover have "H \<notin> W" using windowD(8) [OF w, of H] st by auto
  ultimately show ?thesis using windowD(4) [OF w] by simp
qed

section \<open>Steps on shared memory\<close>

lemma inv_window: "qsys_inv h s \<Longrightarrow> window h (sys_mem s) (sys_log s) (sys_deq s) (writers s) (readers s)"
  by (simp add: qsys_inv_def)

lemma inv_thread:
  "qsys_inv h s \<Longrightarrow> sys_pc s i = Some pc \<Longrightarrow>
     thread_ok h (sys_mem s) (sys_log s) (sys_deq s) (writers s) (readers s) (sys_pos s i) pc"
  by (simp add: qsys_inv_def)

lemma others_writer_less: "qsys_inv h s \<Longrightarrow> n \<in> others is_writer s i \<Longrightarrow> n < length (sys_log s)"
  using windowD(7) [OF inv_window] unfolding others_def writers_def by blast

lemma taker_less:
  "thread_ok h m log H W R p pc \<Longrightarrow> is_taker pc \<Longrightarrow> p < H"
  by (cases pc) auto

lemma others_taker_less: "qsys_inv h s \<Longrightarrow> n \<in> others is_taker s i \<Longrightarrow> n < sys_deq s"
  using taker_less [OF inv_thread] unfolding others_def by blast

definition within_period :: "queue_handle \<Rightarrow> 'a qsys \<Rightarrow> bool" where
  "within_period h s \<longleftrightarrow> length (sys_log s) + q_capacity h < counter_period h"

lemma current_tail:
  assumes "handle_ok h" "within_period h s" "counter_of h p = counter_of h (length (sys_log s))"
    "p \<le> length (sys_log s)"
  shows "p = length (sys_log s)"
  using counter_of_inject [OF assms(1, 4)] assms by (simp add: within_period_def)

lemma current_head:
  assumes "handle_ok h" "within_period h s" "counter_of h p = counter_of h (sys_deq s)"
    "p \<le> sys_deq s" "sys_deq s \<le> length (sys_log s)"
  shows "p = sys_deq s"
  using counter_of_inject [OF assms(1, 4)] assms by (simp add: within_period_def)

lemma inv_tail_cas:
  assumes h: "handle_ok h" "within_period h s" and inv: "qsys_inv h s"
    and pc: "sys_pc s i = Some (Post_cas v t t)" and cas: "q_tail (sys_mem s) = t"
  shows "qsys_inv h (qsys_advance s i ((sys_mem s)\<lparr>q_tail := counter_next h t\<rparr>) (Post_write v t))"
proof -
  let ?s = "qsys_advance s i ((sys_mem s)\<lparr>q_tail := counter_next h t\<rparr>) (Post_write v t)"
  let ?T = "length (sys_log s)"
  note w = inv_window [OF inv]
  have ok: "t = counter_of h (sys_pos s i)" "sys_pos s i \<le> ?T"
    "sys_pos s i = ?T \<longrightarrow> may_push h ?T (sys_deq s) (readers s)"
    using inv_thread [OF inv pc] by simp_all
  have p: "sys_pos s i = ?T" using current_tail [OF h] windowD(3) [OF w] cas ok by simp
  have t: "counter_next h t = counter_of h (Suc ?T)" using ok(1) p h(1) by simp
  have sets: "writers ?s = insert ?T (writers s)" "readers ?s = readers s"
    unfolding advance_sets using writers_others(1) [OF pc] readers_others(1) [OF pc] p by auto
  show ?thesis
  proof (rule inv_step [OF inv, of i])
    show "window h (sys_mem ?s) (sys_log ?s) (sys_deq ?s) (writers ?s) (readers ?s)"
      unfolding sets using window_tail_cas [OF w] ok p t by simp
    fix pc' assume "sys_pc ?s i = Some pc'"
    then have "pc' = Post_write v t" by simp
    then show "thread_ok h (sys_mem ?s) (sys_log ?s) (sys_deq ?s) (writers ?s) (readers ?s) (sys_pos ?s i) pc' \<and>
        (is_writer pc' \<longrightarrow> sys_pos ?s i \<notin> others is_writer s i) \<and> (is_taker pc' \<longrightarrow> sys_pos ?s i \<notin> others is_taker s i)"
      using ok p others_writer_less [OF inv, of ?T i] by auto
  next
    fix j pc' assume "thread_ok h (sys_mem s) (sys_log s) (sys_deq s) (writers s) (readers s) (sys_pos s j) pc'"
    then show "thread_ok h (sys_mem ?s) (sys_log ?s) (sys_deq ?s) (writers ?s) (readers ?s) (sys_pos s j) pc'"
      unfolding sets using thread_ok_tail_cas windowD(4) [OF w] by simp
  qed simp
qed

lemma inv_head_cas:
  assumes h: "handle_ok h" "within_period h s" and inv: "qsys_inv h s"
    and pc: "sys_pc s i = Some (Poll_cas t (t + 1))" and cas: "q_head (sys_mem s) = t"
  shows "qsys_inv h (qsys_advance s i ((sys_mem s)\<lparr>q_head := counter_next h t\<rparr>) (Poll_read t))"
proof -
  let ?s = "qsys_advance s i ((sys_mem s)\<lparr>q_head := counter_next h t\<rparr>) (Poll_read t)"
  let ?H = "sys_deq s"
  note w = inv_window [OF inv]
  have ok: "t = counter_of h (sys_pos s i)" "sys_pos s i \<le> ?H"
    "sys_pos s i = ?H \<longrightarrow> ?H < length (sys_log s) \<and> ?H \<notin> writers s"
    using inv_thread [OF inv pc] by simp_all
  have p: "sys_pos s i = ?H" using current_head [OF h _ ok(2)] windowD(2, 4) [OF w] cas ok by simp
  have t: "counter_next h t = counter_of h (Suc ?H)" using ok(1) p h(1) by simp
  have sets: "writers ?s = writers s" "readers ?s = insert ?H (readers s)"
    unfolding advance_sets using writers_others(1) [OF pc] readers_others(1) [OF pc] p by auto
  show ?thesis
  proof (rule inv_step [OF inv, of i])
    show "window h (sys_mem ?s) (sys_log ?s) (sys_deq ?s) (writers ?s) (readers ?s)"
      unfolding sets using window_head_cas [OF w] ok p t by simp
    fix pc' assume "sys_pc ?s i = Some pc'"
    then have "pc' = Poll_read t" by simp
    then show "thread_ok h (sys_mem ?s) (sys_log ?s) (sys_deq ?s) (writers ?s) (readers ?s) (sys_pos ?s i) pc' \<and>
        (is_writer pc' \<longrightarrow> sys_pos ?s i \<notin> others is_writer s i) \<and> (is_taker pc' \<longrightarrow> sys_pos ?s i \<notin> others is_taker s i)"
      using ok p others_taker_less [OF inv, of ?H i] by auto
  next
    fix j pc' assume "thread_ok h (sys_mem s) (sys_log s) (sys_deq s) (writers s) (readers s) (sys_pos s j) pc'"
    then show "thread_ok h (sys_mem ?s) (sys_log ?s) (sys_deq ?s) (writers ?s) (readers ?s) (sys_pos s j) pc'"
      unfolding sets using thread_ok_head_cas by simp
  qed simp
qed

lemma inv_write:
  assumes h: "handle_ok h" and inv: "qsys_inv h s" and pc: "sys_pc s i = Some (Post_write v t)"
  shows "qsys_inv h (qsys_advance s i
    (set_slot (counter_index h t) (\<lambda>x. x\<lparr>slot_value := Some v\<rparr>) (sys_mem s)) (Post_stamp t))"
proof -
  let ?s = "qsys_advance s i
    (set_slot (counter_index h t) (\<lambda>x. x\<lparr>slot_value := Some v\<rparr>) (sys_mem s)) (Post_stamp t)"
  let ?p = "sys_pos s i"
  note w = inv_window [OF inv]
  have c: "0 < q_capacity h" using h by (simp add: handle_ok_def)
  have ok: "t = counter_of h ?p" "?p < length (sys_log s)" "sys_log s ! ?p = v"
    using inv_thread [OF inv pc] by simp_all
  have idx: "counter_index h t = ?p mod q_capacity h" using ok(1) h by simp
  have sets: "writers ?s = writers s" "readers ?s = readers s"
    unfolding advance_sets using writers_others(1) [OF pc] readers_others(1) [OF pc] by simp_all
  have pW: "?p \<in> writers s" and fresh: "?p \<notin> others is_writer s i"
    using writers_others(1) [OF pc] owners_distinct_others(1) [OF _ pc] inv by (auto simp: qsys_inv_def)
  show ?thesis
  proof (rule inv_step [OF inv, of i])
    show "window h (sys_mem ?s) (sys_log ?s) (sys_deq ?s) (writers ?s) (readers ?s)"
      unfolding sets using window_write [OF w pW c] idx by simp
    fix pc' assume "sys_pc ?s i = Some pc'"
    then have "pc' = Post_stamp t" by simp
    then show "thread_ok h (sys_mem ?s) (sys_log ?s) (sys_deq ?s) (writers ?s) (readers ?s) (sys_pos ?s i) pc' \<and>
        (is_writer pc' \<longrightarrow> sys_pos ?s i \<notin> others is_writer s i) \<and> (is_taker pc' \<longrightarrow> sys_pos ?s i \<notin> others is_taker s i)"
      using ok fresh idx slot_at_private(2) [OF windowD(1) [OF w] c] by simp
  next
    fix j pc' assume j: "j \<noteq> i" "sys_pc s j = Some pc'"
      "thread_ok h (sys_mem s) (sys_log s) (sys_deq s) (writers s) (readers s) (sys_pos s j) pc'"
    have "sys_pos s j mod q_capacity h \<noteq> ?p mod q_capacity h" if "is_writer pc'"
    proof -
      have jW: "sys_pos s j \<in> others is_writer s i" using j that unfolding others_def by blast
      then have "sys_pos s j \<in> writers s" "sys_pos s j \<noteq> ?p" using writers_others(1) [OF pc] fresh by auto
      then show ?thesis using writer_slot_private(1) [OF w pW] windowD(6, 7) [OF w] by blast
    qed
    then show "thread_ok h (sys_mem ?s) (sys_log ?s) (sys_deq ?s) (writers ?s) (readers ?s) (sys_pos s j) pc'"
      unfolding sets using thread_ok_write [OF j(3) _ windowD(1) [OF w] c] idx by simp
  qed simp
qed

lemma inv_publish:
  assumes h: "handle_ok h" and inv: "qsys_inv h s" and pc: "sys_pc s i = Some (Post_stamp t)"
  shows "qsys_inv h (qsys_advance s i
    (set_slot (counter_index h t) (\<lambda>x. x\<lparr>slot_stamp := t + 1\<rparr>) (sys_mem s)) Post_ok)"
proof -
  let ?s = "qsys_advance s i (set_slot (counter_index h t) (\<lambda>x. x\<lparr>slot_stamp := t + 1\<rparr>) (sys_mem s)) Post_ok"
  let ?p = "sys_pos s i"
  note w = inv_window [OF inv]
  have c: "0 < q_capacity h" using h by (simp add: handle_ok_def)
  have ok: "t = counter_of h ?p" "slot_value (slot_at h (sys_mem s) ?p) = Some (sys_log s ! ?p)"
    using inv_thread [OF inv pc] by simp_all
  have idx: "counter_index h t = ?p mod q_capacity h" using ok(1) h by simp
  have pW: "?p \<in> writers s" and fresh: "?p \<notin> others is_writer s i"
    using writers_others(1) [OF pc] owners_distinct_others(1) [OF _ pc] inv by (auto simp: qsys_inv_def)
  have sets: "writers ?s = writers s - {?p}" "readers ?s = readers s"
    unfolding advance_sets using writers_others(1) [OF pc] readers_others(1) [OF pc] fresh by auto
  show ?thesis
  proof (rule inv_step [OF inv, of i])
    show "window h (sys_mem ?s) (sys_log ?s) (sys_deq ?s) (writers ?s) (readers ?s)"
      unfolding sets using window_publish [OF w pW c ok(2)] idx ok(1) by simp
  next
    fix j pc' assume "thread_ok h (sys_mem s) (sys_log s) (sys_deq s) (writers s) (readers s) (sys_pos s j) pc'"
    then show "thread_ok h (sys_mem ?s) (sys_log ?s) (sys_deq ?s) (writers ?s) (readers ?s) (sys_pos s j) pc'"
      unfolding sets using thread_ok_stamp [OF _ windowD(1) [OF w] c] idx by simp
  qed simp_all
qed

lemma inv_release:
  assumes h: "handle_ok h" and inv: "qsys_inv h s" and pc: "sys_pc s i = Some (Poll_stamp t x)"
  shows "qsys_inv h (qsys_advance s i
    (set_slot (counter_index h t) (\<lambda>y. y\<lparr>slot_stamp := t + q_one_lap h\<rparr>) (sys_mem s)) (Poll_some x))"
proof -
  let ?s = "qsys_advance s i
    (set_slot (counter_index h t) (\<lambda>y. y\<lparr>slot_stamp := t + q_one_lap h\<rparr>) (sys_mem s)) (Poll_some x)"
  let ?p = "sys_pos s i"
  note w = inv_window [OF inv]
  have c: "0 < q_capacity h" using h by (simp add: handle_ok_def)
  have ok: "t = counter_of h ?p" "?p < sys_deq s" "x = sys_log s ! ?p"
    using inv_thread [OF inv pc] by simp_all
  have idx: "counter_index h t = ?p mod q_capacity h" and lap: "t + q_one_lap h = counter_of h (?p + q_capacity h)"
    using ok(1) h by simp_all
  have d: "owners_distinct s" using inv by (simp add: qsys_inv_def)
  have pR: "?p \<in> readers s" using readers_others(1) [OF pc] by simp
  have fresh: "?p \<notin> others is_taker s i" using owners_distinct_others(2) [OF d pc] by simp
  then have "?p \<notin> others is_reader s i" unfolding others_def using is_reader_taker by blast
  then have sets: "writers ?s = writers s" "readers ?s = readers s - {?p}"
    unfolding advance_sets using writers_others(1) [OF pc] readers_others(1) [OF pc] by auto
  show ?thesis
  proof (rule inv_step [OF inv, of i])
    show "window h (sys_mem ?s) (sys_log ?s) (sys_deq ?s) (writers ?s) (readers ?s)"
      unfolding sets using window_release [OF w pR c] idx lap by simp
    fix pc' assume "sys_pc ?s i = Some pc'"
    then have "pc' = Poll_some x" by simp
    then show "thread_ok h (sys_mem ?s) (sys_log ?s) (sys_deq ?s) (writers ?s) (readers ?s) (sys_pos ?s i) pc' \<and>
        (is_writer pc' \<longrightarrow> sys_pos ?s i \<notin> others is_writer s i) \<and> (is_taker pc' \<longrightarrow> sys_pos ?s i \<notin> others is_taker s i)"
      using ok fresh by simp
  next
    fix j pc' assume "thread_ok h (sys_mem s) (sys_log s) (sys_deq s) (writers s) (readers s) (sys_pos s j) pc'"
    then show "thread_ok h (sys_mem ?s) (sys_log ?s) (sys_deq ?s) (writers ?s) (readers ?s) (sys_pos s j) pc'"
      unfolding sets using thread_ok_stamp [OF _ windowD(1) [OF w] c] idx by simp
  qed simp
qed

section \<open>Every step keeps the invariant\<close>

lemma post_cas_cases:
  assumes "(queue_step h weak m (Post_cas v t st) :: (unit, _) outcome) = Ok (m', pc')"
  shows "st = t \<and> q_tail m = t \<and> m' = m\<lparr>q_tail := counter_next h t\<rparr> \<and> pc' = Post_write v t \<or>
    m' = m \<and> pc' = Post_slot v (q_tail m) \<or> m' = m \<and> (pc' = Post_full v t \<or> pc' = Post_load v)"
  using assms by (simp only: queue_step.simps split: if_split_asm) auto

lemma poll_cas_cases:
  assumes "(queue_step h weak m (Poll_cas t st) :: (unit, _) outcome) = Ok (m', pc')"
  shows "st = t + 1 \<and> q_head m = t \<and> m' = m\<lparr>q_head := counter_next h t\<rparr> \<and> pc' = Poll_read t \<or>
    m' = m \<and> pc' = Poll_slot (q_head m) \<or> m' = m \<and> (pc' = Poll_empty t \<or> pc' = Poll_load)"
  using assms by (simp only: queue_step.simps split: if_split_asm) auto

lemma post_step_inv:
  assumes h: "handle_ok h" "within_period h s" and inv: "qsys_inv h s" and pc: "sys_pc s i = Some pc"
    and step: "(queue_step h weak (sys_mem s) pc :: (unit, _) outcome) = Ok (m', pc')"
    and kind: "pc = Post_load v \<or> pc = Post_slot v t \<or> pc = Post_cas v t st \<or> pc = Post_full v t"
  shows "qsys_inv h (qsys_advance s i m' pc')"
proof -
  note w = inv_window [OF inv] and ok = inv_thread [OF inv pc]
  consider "pc = Post_load v" | "pc = Post_slot v t" | "pc = Post_cas v t st" | "pc = Post_full v t"
    using kind by blast
  then show ?thesis
  proof cases
    case 1
    then have "m' = sys_mem s" "pc' = Post_slot v (q_tail (sys_mem s))" using step by auto
    then show ?thesis
      using inv_advance_local [OF inv pc, of pc'] 1 windowD(3) [OF w] by simp
  next
    case 2
    then have s: "m' = sys_mem s" "pc' = Post_cas v t (slot_stamp (q_slots (sys_mem s) ! counter_index h t))"
      using step by (auto simp: outcome_simps)
    have "may_push h (length (sys_log s)) (sys_deq s) (readers s)"
      if "slot_stamp (slot_at h (sys_mem s) (sys_pos s i)) = t" "sys_pos s i = length (sys_log s)"
      using stamp_may_push [OF w h(1)] that ok 2 by simp
    then have "thread_ok h (sys_mem s) (sys_log s) (sys_deq s) (writers s) (readers s) (sys_pos s i) pc'"
      unfolding s(2) using 2 ok h(1) by (auto simp: slot_at_def)
    then show ?thesis
      unfolding s(1) by (intro inv_advance_local [OF inv pc]) (use s(2) 2 in auto)
  next
    case 3
    then consider (cas) "st = t" "q_tail (sys_mem s) = t" "m' = (sys_mem s)\<lparr>q_tail := counter_next h t\<rparr>"
        "pc' = Post_write v t"
      | (retry) "m' = sys_mem s" "pc' = Post_slot v (q_tail (sys_mem s))"
      | (back_off) "m' = sys_mem s" "pc' = Post_full v t \<or> pc' = Post_load v"
      using post_cas_cases step by metis
    then show ?thesis
    proof cases
      case cas
      then show ?thesis using inv_tail_cas [OF h inv, of i v t] pc 3 by simp
    next
      case retry
      then show ?thesis using inv_advance_local [OF inv pc, of pc'] 3 windowD(3) [OF w] by simp
    next
      case back_off
      then show ?thesis using inv_advance_local [OF inv pc, of pc'] 3 ok by auto
    qed
  next
    case 4
    then have "m' = sys_mem s" "pc' = Post_err v \<or> pc' = Post_load v" using step by (auto split: if_splits)
    then show ?thesis using inv_advance_local [OF inv pc, of pc'] 4 by auto
  qed
qed

lemma poll_step_inv:
  assumes h: "handle_ok h" "within_period h s" and inv: "qsys_inv h s" and pc: "sys_pc s i = Some pc"
    and step: "(queue_step h weak (sys_mem s) pc :: (unit, _) outcome) = Ok (m', pc')"
    and kind: "pc = Poll_load \<or> pc = Poll_slot t \<or> pc = Poll_cas t st \<or> pc = Poll_empty t \<or> pc = Poll_read t"
  shows "qsys_inv h (qsys_advance s i m' pc')"
proof -
  note w = inv_window [OF inv] and ok = inv_thread [OF inv pc]
  consider "pc = Poll_load" | "pc = Poll_slot t" | "pc = Poll_cas t st" | "pc = Poll_empty t" | "pc = Poll_read t"
    using kind by blast
  then show ?thesis
  proof cases
    case 1
    then have "m' = sys_mem s" "pc' = Poll_slot (q_head (sys_mem s))" using step by auto
    then show ?thesis
      using inv_advance_local [OF inv pc, of pc'] 1 windowD(2) [OF w] by simp
  next
    case 2
    then have s: "m' = sys_mem s" "pc' = Poll_cas t (slot_stamp (q_slots (sys_mem s) ! counter_index h t))"
      using step by (auto simp: outcome_simps)
    have "sys_deq s < length (sys_log s) \<and> sys_deq s \<notin> writers s"
      if "slot_stamp (slot_at h (sys_mem s) (sys_pos s i)) = t + 1" "sys_pos s i = sys_deq s"
      using stamp_may_pop [OF w h(1)] that ok 2 by simp
    then have "thread_ok h (sys_mem s) (sys_log s) (sys_deq s) (writers s) (readers s) (sys_pos s i) pc'"
      unfolding s(2) using 2 ok h(1) by (auto simp: slot_at_def)
    then show ?thesis
      unfolding s(1) by (intro inv_advance_local [OF inv pc]) (use s(2) 2 in auto)
  next
    case 3
    then consider (cas) "st = t + 1" "q_head (sys_mem s) = t" "m' = (sys_mem s)\<lparr>q_head := counter_next h t\<rparr>"
        "pc' = Poll_read t"
      | (retry) "m' = sys_mem s" "pc' = Poll_slot (q_head (sys_mem s))"
      | (back_off) "m' = sys_mem s" "pc' = Poll_empty t \<or> pc' = Poll_load"
      using poll_cas_cases step by metis
    then show ?thesis
    proof cases
      case cas
      then show ?thesis using inv_head_cas [OF h inv, of i t] pc 3 by simp
    next
      case retry
      then show ?thesis using inv_advance_local [OF inv pc, of pc'] 3 windowD(2) [OF w] by simp
    next
      case back_off
      then show ?thesis using inv_advance_local [OF inv pc, of pc'] 3 ok by auto
    qed
  next
    case 4
    then have "m' = sys_mem s" "pc' = Poll_none \<or> pc' = Poll_load" using step by (auto split: if_splits)
    then show ?thesis using inv_advance_local [OF inv pc, of pc'] 4 by auto
  next
    case 5
    have "sys_pos s i \<in> readers s" using readers_others(1) [OF pc] 5 by simp
    then have "slot_value (slot_at h (sys_mem s) (sys_pos s i)) = Some (sys_log s ! sys_pos s i)"
      by (rule windowD(12) [OF w])
    then have "m' = sys_mem s" "pc' = Poll_stamp t (sys_log s ! sys_pos s i)"
      using step 5 ok h(1) by (auto simp: slot_at_def)
    then show ?thesis using inv_advance_local [OF inv pc, of pc'] 5 ok by simp
  qed
qed

lemma advance_inv:
  assumes h: "handle_ok h" "within_period h s" and inv: "qsys_inv h s" and pc: "sys_pc s i = Some pc"
    and step: "(queue_step h weak (sys_mem s) pc :: (unit, _) outcome) = Ok (m', pc')" and "\<not> pc_returned pc"
  shows "qsys_inv h (qsys_advance s i m' pc')"
proof (cases pc)
  case (Post_write v t)
  then show ?thesis using inv_write [OF h(1) inv, of i v t] pc step by simp
next
  case (Post_stamp t)
  then show ?thesis using inv_publish [OF h(1) inv, of i t] pc step by simp
next
  case (Poll_stamp t x)
  then show ?thesis using inv_release [OF h(1) inv, of i t x] pc step by simp
qed (use assms(6) post_step_inv [OF h inv pc step] poll_step_inv [OF h inv pc step] in auto)

lemma advance_no_panic:
  assumes h: "handle_ok h" and inv: "qsys_inv h s" and pc: "sys_pc s i = Some pc"
  shows "(queue_step h weak (sys_mem s) pc :: (unit, _) outcome) \<noteq> Panic"
proof -
  note w = inv_window [OF inv] and ok = inv_thread [OF inv pc]
  have c: "0 < q_capacity h" using h by (simp add: handle_ok_def)
  show ?thesis
  proof (cases pc)
    case (Poll_read t)
    have "sys_pos s i \<in> readers s" using readers_others(1) [OF pc] Poll_read by simp
    then show ?thesis using Poll_read ok h windowD(12) [OF w] by (simp add: slot_at_def)
  qed (use ok c h in \<open>auto simp: outcome_simps ensure_def\<close>)
qed

lemma call_return_inv:
  assumes inv: "qsys_inv h s"
    and kind: "sys_pc s i = None \<or> (\<exists>pc. sys_pc s i = Some pc \<and> pc_returned pc)"
    and new: "new = None \<or> new = Some Poll_load \<or> new = Some (Post_load v)"
  shows "qsys_inv h (s\<lparr>sys_pc := (sys_pc s)(i := new)\<rparr>)"
proof (rule inv_local [OF inv, of i])
  let ?s = "s\<lparr>sys_pc := (sys_pc s)(i := new)\<rparr>"
  have r: "\<not> is_writer pc \<and> \<not> is_reader pc" if "pc_returned pc" for pc :: "'a queue_pc"
    using that by (cases pc) auto
  have o: "others P ?s i = others P s i" for P by (rule others_cong) simp
  have "writers s = others is_writer s i" "readers s = others is_reader s i"
    using kind writers_others [of s i] readers_others [of s i] r by (metis Un_empty_right)+
  moreover have "writers ?s = others is_writer s i" "readers ?s = others is_reader s i"
    using new writers_others [of ?s i] readers_others [of ?s i] o by auto
  ultimately show "writers ?s = writers s" "readers ?s = readers s" by simp_all
qed (use new in auto)

section \<open>Reachable states\<close>

lemma step_log_mono:
  assumes "qsys_step h s s'"
  shows "length (sys_log s) \<le> length (sys_log s')"
  using assms by (cases rule: qsys_step.cases) (auto split: queue_pc.split)

lemma within_period_back: "qsys_step h s s' \<Longrightarrow> within_period h s' \<Longrightarrow> within_period h s"
  using step_log_mono by (fastforce simp: within_period_def)

lemma step_inv:
  assumes "qsys_step h s s'" "handle_ok h" "within_period h s" "qsys_inv h s"
  shows "qsys_inv h s'"
  using assms(1)
proof (cases rule: qsys_step.cases)
  case (call_post i v)
  then show ?thesis using call_return_inv [OF assms(4), of i "Some (Post_load v)" v] by simp
next
  case (call_poll i)
  then show ?thesis using call_return_inv [OF assms(4), of i "Some Poll_load"] by simp
next
  case (advance i pc weak m' pc')
  then show ?thesis using advance_inv [OF assms(2-4)] by blast
next
  case (return i pc)
  then show ?thesis using call_return_inv [OF assms(4), of i None] by simp
qed

lemma qsys_init_inv:
  assumes "handle_ok h"
  shows "qsys_inv h (qsys_init h)"
proof -
  have "window h (queue_initialize h) ([] :: 'a list) 0 {} {}"
    by (rule windowI) (auto simp: queue_initialize_def slot_at_def counter_of_def)
  moreover have "writers (qsys_init h :: 'a qsys) = {}" "readers (qsys_init h :: 'a qsys) = {}"
    by (auto simp: writers_def readers_def qsys_init_def)
  ultimately show ?thesis by (simp add: qsys_inv_def qsys_init_def owners_distinct_def)
qed

lemma reach_inv:
  assumes "qsys_reach h s" "handle_ok h" "within_period h s"
  shows "qsys_inv h s"
  using assms
proof (induction rule: qsys_reach.induct)
  case reach_init
  then show ?case by (intro qsys_init_inv)
next
  case (reach_step s s')
  then show ?case using step_inv within_period_back by blast
qed

section \<open>Linearization\<close>

text \<open>
  The effect of a step on the abstract queue: an exchange of the tail enters a message, one of the
  head takes the oldest out; giving up in \<open>post\<close> observes a full and in \<open>poll\<close> an empty queue.
\<close>

datatype 'a queue_event = Silent | Enq 'a | Full 'a | Deq 'a | Empty

definition event_of :: "'a list \<Rightarrow> nat \<Rightarrow> 'a queue_pc \<Rightarrow> 'a queue_pc \<Rightarrow> 'a queue_event" where
  "event_of log p pc pc' =
     (case pc of
        Post_cas _ _ _ \<Rightarrow> (case pc' of Post_write v _ \<Rightarrow> Enq v | _ \<Rightarrow> Silent)
      | Post_full _ _ \<Rightarrow> (case pc' of Post_err v \<Rightarrow> Full v | _ \<Rightarrow> Silent)
      | Poll_cas _ _ \<Rightarrow> (case pc' of Poll_read _ \<Rightarrow> Deq (log ! p) | _ \<Rightarrow> Silent)
      | Poll_empty _ \<Rightarrow> (case pc' of Poll_none \<Rightarrow> Empty | _ \<Rightarrow> Silent)
      | _ \<Rightarrow> Silent)"

fun fifo_allows :: "nat \<Rightarrow> 'a queue_event \<Rightarrow> 'a list \<Rightarrow> 'a list \<Rightarrow> bool" where
  "fifo_allows cap Silent xs ys \<longleftrightarrow> ys = xs"
| "fifo_allows cap (Enq v) xs ys \<longleftrightarrow> length xs < cap \<and> ys = xs @ [v]"
| "fifo_allows cap (Full v) xs ys \<longleftrightarrow> length xs = cap \<and> ys = xs"
| "fifo_allows cap (Deq x) xs ys \<longleftrightarrow> xs = x # ys"
| "fifo_allows cap Empty xs ys \<longleftrightarrow> xs = [] \<and> ys = []"

lemma silent_queue:
  "(\<And>v t. pc' \<noteq> Post_write v t) \<Longrightarrow> (\<And>t. pc' \<noteq> Poll_read t) \<Longrightarrow>
     sys_queue (qsys_advance s i m pc') = sys_queue s"
  by (cases pc') (auto simp: sys_queue_def)

lemma post_cas_linear:
  assumes h: "handle_ok h" "within_period h s" and inv: "qsys_inv h s"
    and pc: "sys_pc s i = Some (Post_cas v t st)"
    and step: "(queue_step h weak (sys_mem s) (Post_cas v t st) :: (unit, _) outcome) = Ok (m', pc')"
  shows "fifo_allows (q_capacity h) (event_of (sys_log s) (sys_pos s i) (Post_cas v t st) pc') (sys_queue s)
    (sys_queue (qsys_advance s i m' pc'))"
proof -
  note w = inv_window [OF inv]
  consider (cas) "st = t" "q_tail (sys_mem s) = t" "pc' = Post_write v t"
    | (other) "\<exists>c. pc' = Post_slot v c \<or> pc' = Post_full v c \<or> pc' = Post_load v"
    using post_cas_cases [OF step] by blast
  then show ?thesis
  proof cases
    case cas
    have ok: "t = counter_of h (sys_pos s i)" "sys_pos s i \<le> length (sys_log s)"
      "sys_pos s i = length (sys_log s) \<longrightarrow> may_push h (length (sys_log s)) (sys_deq s) (readers s)"
      using inv_thread [OF inv pc] cas by simp_all
    have "sys_pos s i = length (sys_log s)" using current_tail [OF h] windowD(3) [OF w] cas(2) ok by simp
    then show ?thesis using cas ok windowD(4) [OF w] by (auto simp: may_push_def sys_queue_def event_of_def)
  next
    case other
    then have "event_of (sys_log s) (sys_pos s i) (Post_cas v t st) pc' = Silent"
      "sys_queue (qsys_advance s i m' pc') = sys_queue s"
      using silent_queue [of pc'] by (auto simp: event_of_def)
    then show ?thesis by simp
  qed
qed

lemma poll_cas_linear:
  assumes h: "handle_ok h" "within_period h s" and inv: "qsys_inv h s"
    and pc: "sys_pc s i = Some (Poll_cas t st)"
    and step: "(queue_step h weak (sys_mem s) (Poll_cas t st) :: (unit, _) outcome) = Ok (m', pc')"
  shows "fifo_allows (q_capacity h) (event_of (sys_log s) (sys_pos s i) (Poll_cas t st) pc') (sys_queue s)
    (sys_queue (qsys_advance s i m' pc'))"
proof -
  note w = inv_window [OF inv]
  consider (cas) "st = t + 1" "q_head (sys_mem s) = t" "pc' = Poll_read t"
    | (other) "\<exists>c. pc' = Poll_slot c \<or> pc' = Poll_empty c \<or> pc' = Poll_load"
    using poll_cas_cases [OF step] by blast
  then show ?thesis
  proof cases
    case cas
    have ok: "t = counter_of h (sys_pos s i)" "sys_pos s i \<le> sys_deq s"
      "sys_pos s i = sys_deq s \<longrightarrow> sys_deq s < length (sys_log s) \<and> sys_deq s \<notin> writers s"
      using inv_thread [OF inv pc] cas by simp_all
    have "sys_pos s i = sys_deq s" using current_head [OF h _ ok(2)] windowD(2, 4) [OF w] cas(2) ok by simp
    then show ?thesis using cas ok by (simp add: sys_queue_def Cons_nth_drop_Suc event_of_def)
  next
    case other
    then have "event_of (sys_log s) (sys_pos s i) (Poll_cas t st) pc' = Silent"
      "sys_queue (qsys_advance s i m' pc') = sys_queue s"
      using silent_queue [of pc'] by (auto simp: event_of_def)
    then show ?thesis by simp
  qed
qed

lemma post_full_observed:
  assumes h: "handle_ok h" "within_period h s" and inv: "qsys_inv h s"
    and pc: "sys_pc s i = Some (Post_full v t)" and seen: "q_head (sys_mem s) + q_one_lap h = t"
  shows "length (sys_queue s) = q_capacity h"
proof -
  note w = inv_window [OF inv]
  have ok: "t = counter_of h (sys_pos s i)" "sys_pos s i \<le> length (sys_log s)"
    using inv_thread [OF inv pc] by simp_all
  have "counter_of h (sys_pos s i) = counter_of h (sys_deq s + q_capacity h)"
    using seen windowD(2) [OF w] ok h(1) by simp
  then have "sys_pos s i = sys_deq s + q_capacity h"
    using counter_of_inject [OF h(1), of "sys_pos s i" "sys_deq s + q_capacity h"] windowD(4, 5) [OF w] ok h(2)
    by (simp add: within_period_def)
  then show ?thesis using windowD(5) [OF w] ok by (simp add: sys_queue_def)
qed

lemma poll_empty_observed:
  assumes h: "handle_ok h" "within_period h s" and inv: "qsys_inv h s"
    and pc: "sys_pc s i = Some (Poll_empty t)" and seen: "q_tail (sys_mem s) = t"
  shows "sys_queue s = []"
proof -
  note w = inv_window [OF inv]
  have ok: "t = counter_of h (sys_pos s i)" "sys_pos s i \<le> sys_deq s"
    using inv_thread [OF inv pc] by simp_all
  have "sys_pos s i = length (sys_log s)"
    using current_tail [OF h, of "sys_pos s i"] windowD(3, 4) [OF w] seen ok by simp
  then show ?thesis using windowD(4) [OF w] ok by (simp add: sys_queue_def)
qed

lemma advance_linear:
  assumes h: "handle_ok h" "within_period h s" and inv: "qsys_inv h s" and pc: "sys_pc s i = Some pc"
    and step: "(queue_step h weak (sys_mem s) pc :: (unit, _) outcome) = Ok (m', pc')" and "\<not> pc_returned pc"
  shows "fifo_allows (q_capacity h) (event_of (sys_log s) (sys_pos s i) pc pc') (sys_queue s)
    (sys_queue (qsys_advance s i m' pc'))"
proof (cases pc)
  case (Post_cas v t st)
  then show ?thesis using post_cas_linear [OF h inv] pc step by simp
next
  case (Poll_cas t st)
  then show ?thesis using poll_cas_linear [OF h inv] pc step by simp
next
  case (Post_full v t)
  then show ?thesis
    using step pc post_full_observed [OF h inv, of i v t] silent_queue [of pc' s i m'] by (auto simp: event_of_def split: if_splits)
next
  case (Poll_empty t)
  then show ?thesis
    using step pc poll_empty_observed [OF h inv, of i t] silent_queue [of pc' s i m'] by (auto simp: event_of_def split: if_splits)
next
  case (Poll_read t)
  then show ?thesis using step silent_queue [of pc' s i m'] by (auto simp: event_of_def split: option.splits)
qed (use step assms(6) silent_queue [of pc' s i m'] in \<open>auto simp: event_of_def outcome_simps\<close>)

section \<open>Properties\<close>

text \<open>Executable schedules, to exhibit reachable states.\<close>

datatype 'a sched = Call_post nat 'a | Call_poll nat | Run nat | Leave nat

fun run_sched :: "queue_handle \<Rightarrow> 'a sched \<Rightarrow> 'a qsys \<Rightarrow> 'a qsys option" where
  "run_sched h (Call_post i v) s =
     (if sys_pc s i = None then Some (s\<lparr>sys_pc := (sys_pc s)(i := Some (Post_load v))\<rparr>) else None)"
| "run_sched h (Call_poll i) s =
     (if sys_pc s i = None then Some (s\<lparr>sys_pc := (sys_pc s)(i := Some Poll_load)\<rparr>) else None)"
| "run_sched h (Run i) s =
     (case sys_pc s i of
        None \<Rightarrow> None
      | Some pc \<Rightarrow>
          if pc_returned pc then None
          else (case queue_step h False (sys_mem s) pc :: (unit, 'a queue_mem \<times> 'a queue_pc) outcome of
                  Ok (m', pc') \<Rightarrow> Some (qsys_advance s i m' pc')
                | _ \<Rightarrow> None))"
| "run_sched h (Leave i) s =
     (case sys_pc s i of
        None \<Rightarrow> None
      | Some pc \<Rightarrow> if pc_returned pc then Some (s\<lparr>sys_pc := (sys_pc s)(i := None)\<rparr>) else None)"

fun run_scheds :: "queue_handle \<Rightarrow> 'a sched list \<Rightarrow> 'a qsys \<Rightarrow> 'a qsys option" where
  "run_scheds h [] s = Some s"
| "run_scheds h (x # xs) s = Option.bind (run_sched h x s) (run_scheds h xs)"

lemma run_sched_step: "run_sched h x s = Some s' \<Longrightarrow> qsys_step h s s'"
  by (cases x) (auto intro: qsys_step.intros split: if_splits option.splits outcome.splits)

lemma run_scheds_reach: "qsys_reach h s \<Longrightarrow> run_scheds h xs s = Some s' \<Longrightarrow> qsys_reach h s'"
  by (induction xs arbitrary: s)
    (auto simp: bind_eq_Some_conv dest!: run_sched_step intro: reach_step)

text \<open>
  Thread 0 claims the first position but has not published its message when thread 1 posts;
  thread 2 then finishes a \<open>poll\<close> only after thread 0 is done.
\<close>

definition example_run :: "nat sched list" where
  "example_run = [Call_post 0 5, Run 0, Run 0, Run 0, Call_post 1 6, Run 1, Run 1, Run 1, Run 1, Run 1,
     Run 0, Run 0, Call_poll 2, Run 2, Run 2, Run 2, Run 2, Run 2]"

lemma example_new: "queue_new 1 2 = (Ok example_handle :: (unit, queue_handle) outcome)"
  by (simp add: queue_new_def next_power_of_two_def example_handle_def upt_rec)

lemma example_run_result:
  "\<exists>s. run_scheds example_handle example_run (qsys_init example_handle) = Some s \<and>
     sys_pc s 2 = Some (Poll_some 5) \<and> sys_log s = [5, 6] \<and> sys_deq s = 1 \<and> sys_pos s 2 = 0"
  by (simp add: example_run_def example_handle_def qsys_init_def queue_initialize_def qsys_advance_def
      counter_index_def counter_next_def counter_lap_def set_slot_def upt_rec)

text \<open>
  C15. Concurrent \<open>poll\<close>s deliver every message at most once and in order. In every state any
  interleaving of \<open>post\<close> and \<open>poll\<close> calls can reach, a \<open>poll\<close> that returns a message returns the one
  accepted at the position its exchange of the head took, no two such calls took the same
  position, the number of messages held never exceeds the capacity, and no thread can panic or
  read a slot that was never written.
\<close>

theorem concurrent_queue_safe:
  assumes "queue_new qid cap = Ok h" "qsys_reach h s" "within_period h s"
  shows "(\<forall>i x. sys_pc s i = Some (Poll_some x) \<longrightarrow> sys_pos s i < sys_deq s \<and> x = sys_log s ! sys_pos s i) \<and>
    (\<forall>i j x y. sys_pc s i = Some (Poll_some x) \<longrightarrow> sys_pc s j = Some (Poll_some y) \<longrightarrow> i \<noteq> j \<longrightarrow>
       sys_pos s i \<noteq> sys_pos s j) \<and>
    sys_deq s \<le> length (sys_log s) \<and> length (sys_queue s) \<le> cap \<and>
    (\<forall>i pc weak. sys_pc s i = Some pc \<longrightarrow>
       (queue_step h weak (sys_mem s) pc :: (unit, 'a queue_mem \<times> 'a queue_pc) outcome) \<noteq> Panic)"
proof -
  have h: "handle_ok h" "q_capacity h = cap" using queue_new_ok [OF assms(1)] by simp_all
  have inv: "qsys_inv h s" by (rule reach_inv [OF assms(2) h(1) assms(3)])
  note w = inv_window [OF inv]
  have "sys_pos s i \<noteq> sys_pos s j"
    if "sys_pc s i = Some (Poll_some x)" "sys_pc s j = Some (Poll_some y)" "i \<noteq> j" for i j x y
    using inv that unfolding qsys_inv_def owners_distinct_def by fastforce
  moreover have "sys_pos s i < sys_deq s \<and> x = sys_log s ! sys_pos s i" if "sys_pc s i = Some (Poll_some x)" for i x
    using inv_thread [OF inv that] by simp
  ultimately show ?thesis
    using windowD(4, 5) [OF w] h(2) advance_no_panic [OF h(1) inv] by (auto simp: sys_queue_def)
qed

theorem concurrent_queue_safe_witness:
  "\<exists>s. qsys_reach example_handle s \<and> sys_pc s 2 = Some (Poll_some 5) \<and> sys_log s ! sys_pos s 2 = (5 :: nat)"
proof -
  obtain s where s: "run_scheds example_handle example_run (qsys_init example_handle) = Some s"
    "sys_pc s 2 = Some (Poll_some 5)" "sys_log s = [5, 6]" "sys_deq s = 1" "sys_pos s 2 = 0"
    using example_run_result by blast
  have r: "qsys_reach example_handle s" by (rule run_scheds_reach [OF reach_init s(1)])
  have "within_period example_handle s"
    by (simp add: within_period_def s counter_period_def example_handle_def)
  from concurrent_queue_safe [OF example_new r this] s r show ?thesis by metis
qed

text \<open>
  C16. Linearizability: each step of any thread, in any reachable state, changes the abstract queue
  as a bounded first-in first-out queue allows. A successful exchange of the tail appends the
  message to a queue that is not full, a successful exchange of the head removes the oldest
  message, \<open>post\<close> gives a message back only at a moment when the queue is full and \<open>poll\<close> reports
  no message only at a moment when it is empty; every other step leaves the queue unchanged.
\<close>

theorem concurrent_queue_linearizable:
  assumes "queue_new qid cap = Ok h" "qsys_reach h s" "within_period h s" "sys_pc s i = Some pc"
    "\<not> pc_returned pc"
    "(queue_step h weak (sys_mem s) pc :: (unit, 'a queue_mem \<times> 'a queue_pc) outcome) = Ok (m', pc')"
  shows "fifo_allows cap (event_of (sys_log s) (sys_pos s i) pc pc') (sys_queue s)
    (sys_queue (qsys_advance s i m' pc'))"
  using advance_linear [OF queue_new_ok(1) [OF assms(1)] assms(3) reach_inv [OF assms(2) queue_new_ok(1) [OF assms(1)] assms(3)]
      assms(4, 6, 5)] queue_new_ok(2) [OF assms(1)] by simp

theorem concurrent_queue_linearizable_witness:
  "\<exists>s m'. qsys_reach example_handle s \<and> sys_pc s 0 = Some (Post_cas (5 :: nat) 0 0) \<and>
     sys_queue (qsys_advance s 0 m' (Post_write 5 0)) = sys_queue s @ [5]"
proof -
  define s :: "nat qsys" where "s = the (run_scheds example_handle [Call_post 0 5, Run 0, Run 0] (qsys_init example_handle))"
  have run: "run_scheds example_handle [Call_post 0 5, Run 0, Run 0] (qsys_init example_handle) = Some s"
    and pc: "sys_pc s 0 = Some (Post_cas 5 0 0)" and log: "sys_log s = []" and tail: "q_tail (sys_mem s) = 0"
    by (simp_all add: s_def example_handle_def qsys_init_def queue_initialize_def qsys_advance_def
        counter_index_def upt_rec)
  have r: "qsys_reach example_handle s" by (rule run_scheds_reach [OF reach_init run])
  have p: "within_period example_handle s"
    by (simp add: within_period_def log counter_period_def example_handle_def)
  have st: "(queue_step example_handle False (sys_mem s) (Post_cas 5 0 0) :: (unit, _) outcome) =
      Ok ((sys_mem s)\<lparr>q_tail := counter_next example_handle 0\<rparr>, Post_write 5 0)"
    using tail by simp
  show ?thesis
    using concurrent_queue_linearizable [OF example_new r p pc _ st] r pc by (auto simp: event_of_def)
qed

end
