(* ===== verification/Page_Table.thy ===== *)
theory Page_Table
  imports Phys_Alloc
begin

text \<open>
  The page tables (\<open>kernel/src/memory/paging.rs\<close>). A table is 512 descriptors; the tables live in
  physical memory, which the kernel reaches through the identity mapping at \<open>0xffff_0000_0000_0000\<close>.
  The model keeps the tables in a store indexed by physical address, next to the physical memory
  allocator that supplies new ones. An access to an address that holds no table is \<open>Panic\<close>. An error
  carries the memory as the failed operation leaves it. Interrupt masking and the lock around the
  root table are not modelled: each operation runs with the lock held.
\<close>

section \<open>Descriptors\<close>

type_synonym pte = "64 word"

definition pte_address :: "pte \<Rightarrow> 64 word" where "pte_address e = get_field 47 12 e"
definition set_pte_address :: "64 word \<Rightarrow> pte \<Rightarrow> pte" where "set_pte_address v e = set_field 47 12 v e"
definition pte_af :: "pte \<Rightarrow> bool" where "pte_af e = get_flag 10 e"
definition set_pte_af :: "bool \<Rightarrow> pte \<Rightarrow> pte" where "set_pte_af b e = set_flag 10 b e"
definition pte_read_only :: "pte \<Rightarrow> bool" where "pte_read_only e = get_flag 7 e"
definition set_pte_read_only :: "bool \<Rightarrow> pte \<Rightarrow> pte" where "set_pte_read_only b e = set_flag 7 b e"
definition pte_el0_access :: "pte \<Rightarrow> bool" where "pte_el0_access e = get_flag 6 e"
definition set_pte_el0_access :: "bool \<Rightarrow> pte \<Rightarrow> pte" where "set_pte_el0_access b e = set_flag 6 b e"
definition pte_type :: "pte \<Rightarrow> bool" where "pte_type e = get_flag 1 e"
definition set_pte_type :: "bool \<Rightarrow> pte \<Rightarrow> pte" where "set_pte_type b e = set_flag 1 b e"
definition pte_valid :: "pte \<Rightarrow> bool" where "pte_valid e = get_flag 0 e"
definition set_pte_valid :: "bool \<Rightarrow> pte \<Rightarrow> pte" where "set_pte_valid b e = set_flag 0 b e"

definition table_desc :: "physical_address \<Rightarrow> pte" where
  "table_desc table_ptr =
     set_pte_address (drop_bit 12 (of_nat table_ptr)) (set_pte_type True (set_pte_valid True 0))"

definition block_entry :: "physical_address \<Rightarrow> nat \<Rightarrow> pte option" where
  "block_entry base_address level =
     (if level = 1 \<and> and base_address 0xffffff \<noteq> 0 \<or> level = 2 \<and> and base_address 0xfffff \<noteq> 0 \<or>
         level \<noteq> 1 \<and> level \<noteq> 2 then None
      else Some (set_pte_address (drop_bit 12 (of_nat base_address))
                  (set_pte_af True (set_pte_type False (set_pte_valid True 0)))))"

definition page_entry :: "physical_address \<Rightarrow> pte" where
  "page_entry base_address =
     set_pte_address (drop_bit 12 (of_nat base_address))
       (set_pte_af True (set_pte_type True (set_pte_valid True 0)))"

definition invalid_entry :: pte where
  "invalid_entry = 0"

definition table_phy_addr :: "pte \<Rightarrow> physical_address option" where
  "table_phy_addr e =
     (if \<not> pte_valid e \<or> \<not> pte_type e then None else Some (unat (push_bit 12 (pte_address e))))"

text \<open>The next table is named by its physical address; the canonical pointer to it is never null.\<close>

definition table_ref :: "pte \<Rightarrow> nat \<Rightarrow> physical_address option" where
  "table_ref e lvl = (if 3 \<le> lvl then None else table_phy_addr e)"

definition base_address :: "pte \<Rightarrow> nat \<Rightarrow> physical_address option" where
  "base_address e lvl =
     (if \<not> pte_valid e \<or> (lvl < 3 \<and> pte_type e) \<or> (3 \<le> lvl \<and> \<not> pte_type e) then None
      else Some (unat (push_bit 12 (pte_address e))))"

record entry_options =
  read_only :: bool
  el0_access :: bool

definition apply_options :: "entry_options \<Rightarrow> pte \<Rightarrow> pte" where
  "apply_options opts entry = set_pte_el0_access (el0_access opts) (set_pte_read_only (read_only opts) entry)"

section \<open>Tables in memory\<close>

record pt_mem =
  pm_tables :: "physical_address \<rightharpoonup> pte list"
  pm_alloc :: phys_alloc

record page_table =
  high_addresses :: bool
  pt_modified :: bool
  asid :: nat
  level0_phy_addr :: physical_address

type_synonym 'a pt_outcome = "(memory_error \<times> pt_mem, 'a) outcome"

definition read_entry :: "pt_mem \<Rightarrow> physical_address \<Rightarrow> nat \<Rightarrow> pte pt_outcome" where
  "read_entry m t i =
     (case pm_tables m t of
        Some table \<Rightarrow> if i < length table then Ok (table ! i) else Panic
      | None \<Rightarrow> Panic)"

definition write_entry :: "pt_mem \<Rightarrow> physical_address \<Rightarrow> nat \<Rightarrow> pte \<Rightarrow> pt_mem" where
  "write_entry m t i e =
     m\<lparr>pm_tables := (pm_tables m)(t := map_option (\<lambda>table. table[i := e]) (pm_tables m t))\<rparr>"

definition allocate_table :: "pt_mem \<Rightarrow> (pt_mem \<times> physical_address) pt_outcome" where
  "allocate_table m =
     bind_outcome (map_outcome_err (\<lambda>e. (e, m)) (alloc_page (pm_alloc m))) (\<lambda>(p, new_page_phy_addr).
     bind_outcome (to_virtual_canonical new_page_phy_addr) (\<lambda>_.
     Ok (m\<lparr>pm_alloc := p, pm_tables := (pm_tables m)(new_page_phy_addr \<mapsto> replicate 512 0)\<rparr>,
         new_page_phy_addr)))"

definition pt_empty :: "bool \<Rightarrow> nat \<Rightarrow> pt_mem \<Rightarrow> (pt_mem \<times> page_table) pt_outcome" where
  "pt_empty high asid_no m =
     bind_outcome (allocate_table m) (\<lambda>(m', a).
     Ok (m', \<lparr>high_addresses = high, pt_modified = False, asid = asid_no, level0_phy_addr = a\<rparr>))"

definition tag_matches :: "page_table \<Rightarrow> nat \<Rightarrow> bool" where
  "tag_matches pt tag \<longleftrightarrow> (if high_addresses pt then tag = 0xffff else tag = 0)"

section \<open>Mapping\<close>

text \<open>
  The inner loop of \<open>map_range\<close> over the levels above the last. \<open>Inl n\<close>: a block of \<open>n\<close> pages was
  entered (the source continues the outer loop); \<open>Inr t\<close>: the level 3 table.
\<close>

fun map_levels ::
  "entry_options \<Rightarrow> physical_address \<Rightarrow> nat \<Rightarrow> (nat \<times> nat \<times> bool \<times> nat) list \<Rightarrow> physical_address \<Rightarrow> pt_mem \<Rightarrow>
   (pt_mem \<times> (nat + physical_address)) pt_outcome" where
  "map_levels opts pa remaining [] table m = Ok (m, Inr table)"
| "map_levels opts pa remaining ((lvl, i, can_allocate_large_block, large_block_size) # levels) table m =
     bind_outcome (read_entry m table i) (\<lambda>e.
     case table_ref e lvl of
       Some existing_table \<Rightarrow> map_levels opts pa remaining levels existing_table m
     | None \<Rightarrow>
         if pte_valid e then Panic
         else (case (if can_allocate_large_block \<and> remaining \<ge> large_block_size
                     then block_entry pa lvl else None) of
                 Some b \<Rightarrow> Ok (write_entry m table i (apply_options opts b), Inl large_block_size)
               | None \<Rightarrow>
                   bind_outcome (allocate_table m) (\<lambda>(m', new_table).
                   let m'' = write_entry m' table i (table_desc new_table) in
                   case table_ref (table_desc new_table) lvl of
                     Some t \<Rightarrow> map_levels opts pa remaining levels t m''
                   | None \<Rightarrow> Panic)))"

text \<open>One iteration of the outer loop; the result is the number of pages it mapped.\<close>

definition map_page ::
  "entry_options \<Rightarrow> physical_address \<Rightarrow> physical_address \<Rightarrow> virtual_address \<Rightarrow> nat \<Rightarrow> pt_mem \<Rightarrow>
   (pt_mem \<times> nat) pt_outcome" where
  "map_page opts root pa va remaining m =
     (case to_parts va of (tag, i0, i1, i2, i3, po) \<Rightarrow>
        bind_outcome (map_levels opts pa remaining
          [(0, i0, False, 0), (1, i1, i2 = 0 \<and> i3 = 0, 512 * 512), (2, i2, i3 = 0, 512)] root m)
          (\<lambda>(m', r).
          case r of
            Inl block_pages \<Rightarrow> Ok (m', block_pages)
          | Inr table \<Rightarrow>
              bind_outcome (read_entry m' table i3) (\<lambda>_.
              Ok (write_entry m' table i3 (apply_options opts (page_entry pa)), 1))))"

lemma map_levels_advance:
  assumes "map_levels opts pa remaining levels table m = Ok (m', Inl n)"
    "\<forall>(lvl, i, large, size)\<in>set levels. large \<longrightarrow> 0 < size"
  shows "0 < n"
  using assms
proof (induction levels arbitrary: table m)
  case (Cons l levels)
  obtain lvl i large size where l: "l = (lvl, i, large, size)" by (metis prod.collapse)
  obtain e where e: "read_entry m table i = Ok e" using Cons.prems(1) by (auto simp: l outcome_simps)
  show ?case
    using Cons.prems Cons.IH
    by (auto simp: l e outcome_simps Let_def split: option.split_asm if_split_asm)
qed simp

lemma map_page_advance:
  assumes "map_page opts root pa va remaining m = Ok (m', n)"
  shows "0 < n"
proof -
  obtain tag i0 i1 i2 i3 po where parts: "to_parts va = (tag, i0, i1, i2, i3, po)" by (metis prod.collapse)
  let ?levels = "[(0, i0, False, 0), (1, i1, i2 = 0 \<and> i3 = 0, 512 * 512), (2, i2, i3 = 0, 512)]"
  obtain m1 r where r: "map_levels opts pa remaining ?levels root m = Ok (m1, r)"
    using assms unfolding map_page_def parts by (auto simp: outcome_simps simp del: map_levels.simps)
  show ?thesis
  proof (cases r)
    case (Inl k)
    then have "0 < k" using map_levels_advance [of opts pa remaining ?levels root m m1 k] r by simp
    then show ?thesis using assms r Inl unfolding map_page_def parts by (simp del: map_levels.simps)
  next
    case (Inr t)
    then show ?thesis
      using assms r unfolding map_page_def parts by (auto simp: outcome_simps simp del: map_levels.simps)
  qed
qed

function map_loop ::
  "entry_options \<Rightarrow> physical_address \<Rightarrow> physical_address \<Rightarrow> virtual_address \<Rightarrow> nat \<Rightarrow> nat \<Rightarrow> pt_mem \<Rightarrow>
   pt_mem pt_outcome" where
  "map_loop opts root phy_start virt_start page_count page_index m =
     (if page_index < page_count then
        bind_outcome (mul_checked page_index PAGE_SIZE) (\<lambda>byte_offset.
        bind_outcome (add_checked virt_start byte_offset) (\<lambda>va.
        bind_outcome (add_checked phy_start byte_offset) (\<lambda>pa.
        bind_outcome (map_page opts root pa va (page_count - page_index) m) (\<lambda>(m', n).
        map_loop opts root phy_start virt_start page_count (page_index + n) m'))))
      else Ok m)"
  by pat_completeness auto
termination
  by (relation "measure (\<lambda>(_, _, _, _, page_count, page_index, _). page_count - page_index)")
    (auto dest: map_page_advance)

declare map_loop.simps [simp del]

definition map_range ::
  "page_table \<Rightarrow> physical_address \<Rightarrow> virtual_address \<Rightarrow> nat \<Rightarrow> bool \<Rightarrow> entry_options \<Rightarrow> pt_mem \<Rightarrow>
   (pt_mem \<times> page_table) pt_outcome" where
  "map_range pt phy_start virt_start page_count overwrite opts m =
     (case to_parts virt_start of (tag, lv0_start, lv1_start, lv2_start, lv3_start, page_offset) \<Rightarrow>
        if page_offset \<noteq> 0 then
          Err (MapErr (MapRangeBadVirtualBase
            ''starting virtual address for mapping range must be at a page boundary'' virt_start), m)
        else if \<not> tag_matches pt tag then
          Err (MapErr (MapRangeBadVirtualBase
            ''starting virtual address for mapping range must match tag for page table'' virt_start), m)
        else if \<not> overwrite then Panic
        else bind_outcome (map_loop opts (level0_phy_addr pt) phy_start virt_start page_count 0 m) (\<lambda>m'.
             Ok (m', pt\<lparr>pt_modified := True\<rparr>)))"

definition pt_identity ::
  "bool \<Rightarrow> physical_address \<Rightarrow> nat \<Rightarrow> nat \<Rightarrow> entry_options \<Rightarrow> pt_mem \<Rightarrow> (pt_mem \<times> page_table) pt_outcome" where
  "pt_identity high start_addr page_count asid_no opts m =
     bind_outcome (pt_empty high asid_no m) (\<lambda>(m', pt).
     map_range pt start_addr start_addr page_count True opts m')"

section \<open>Unmapping\<close>

record mapped_region =
  base_phys_addr :: physical_address
  base_virt_addr :: virtual_address
  region_page_count :: nat

text \<open>
  The levels of one iteration of \<open>unmap_range_custom\<close>: the number of pages cleared and the region,
  if any, that is passed to \<open>process_region\<close> before.
\<close>

fun unmap_levels ::
  "virtual_address \<Rightarrow> (nat \<times> nat \<times> nat) list \<Rightarrow> physical_address \<Rightarrow> pt_mem \<Rightarrow>
   (pt_mem \<times> nat \<times> mapped_region option) pt_outcome" where
  "unmap_levels va [] table m = Ok (m, 0, None)"
| "unmap_levels va ((lvl, i, block_size) # levels) table m =
     bind_outcome (read_entry m table i) (\<lambda>e.
     case table_ref e lvl of
       Some existing_table \<Rightarrow> unmap_levels va levels existing_table m
     | None \<Rightarrow>
         if block_size = 0 then Panic
         else Ok (write_entry m table i invalid_entry, block_size,
           map_option (\<lambda>a. \<lparr>base_phys_addr = a, base_virt_addr = va, region_page_count = block_size\<rparr>)
             (base_address e lvl)))"

definition unmap_page ::
  "physical_address \<Rightarrow> virtual_address \<Rightarrow> pt_mem \<Rightarrow> (pt_mem \<times> nat \<times> mapped_region option) pt_outcome" where
  "unmap_page root va m =
     (case to_parts va of (tag, i0, i1, i2, i3, po) \<Rightarrow>
        unmap_levels va [(0, i0, 0), (1, i1, 512 * 512), (2, i2, 512), (3, i3, 1)] root m)"

text \<open>The last level never refers to a table, so the loop over the levels always ends in an entry.\<close>

lemma unmap_levels_advance:
  "unmap_levels va (levels @ [(3, i, n)]) table m = Ok (m', k, r) \<Longrightarrow> 0 < k"
proof (induction levels arbitrary: table)
  case Nil
  then show ?case by (auto simp: outcome_simps table_ref_def split: if_splits)
next
  case (Cons l levels)
  then show ?case by (cases l) (auto simp: outcome_simps split: option.splits if_splits)
qed

lemma unmap_page_advance: "unmap_page root va m = Ok (m', k, r) \<Longrightarrow> 0 < k"
  using unmap_levels_advance [of va "[(0, _, 0), (1, _, 512 * 512), (2, _, 512)]"]
  by (auto simp: unmap_page_def simp del: unmap_levels.simps split: prod.splits)

function unmap_loop ::
  "physical_address \<Rightarrow> virtual_address \<Rightarrow> nat \<Rightarrow> nat \<Rightarrow> pt_mem \<Rightarrow> (pt_mem \<times> mapped_region list) pt_outcome" where
  "unmap_loop root virt_start page_count page_index m =
     (if page_index < page_count then
        bind_outcome (mul_checked page_index PAGE_SIZE) (\<lambda>byte_offset.
        bind_outcome (add_checked virt_start byte_offset) (\<lambda>page_addr.
        bind_outcome (unmap_page root page_addr m) (\<lambda>(m', n, r).
        bind_outcome (unmap_loop root virt_start page_count (page_index + n) m') (\<lambda>(m'', rs).
        Ok (m'', (case r of Some x \<Rightarrow> x # rs | None \<Rightarrow> rs))))))
      else Ok (m, []))"
  by pat_completeness auto
termination
  by (relation "measure (\<lambda>(_, _, page_count, page_index, _). page_count - page_index)")
    (auto dest: unmap_page_advance)

declare unmap_loop.simps [simp del]

text \<open>\<open>unmap_range_custom\<close> with the regions in the order they are passed to \<open>process_region\<close>.\<close>

definition unmap_range_custom ::
  "page_table \<Rightarrow> virtual_address \<Rightarrow> nat \<Rightarrow> pt_mem \<Rightarrow> (pt_mem \<times> page_table \<times> mapped_region list) pt_outcome" where
  "unmap_range_custom pt virt_start page_count m =
     bind_outcome (unmap_loop (level0_phy_addr pt) virt_start page_count 0 m) (\<lambda>(m', rs).
     Ok (m', pt\<lparr>pt_modified := True\<rparr>, rs))"

definition unmap_range ::
  "page_table \<Rightarrow> virtual_address \<Rightarrow> nat \<Rightarrow> pt_mem \<Rightarrow> (pt_mem \<times> page_table) pt_outcome" where
  "unmap_range pt virt_start page_count m =
     bind_outcome (unmap_range_custom pt virt_start page_count m) (\<lambda>(m', pt', _). Ok (m', pt'))"

section \<open>Translation\<close>

fun lookup_levels :: "nat \<Rightarrow> (nat \<times> nat) list \<Rightarrow> physical_address \<Rightarrow> pt_mem \<Rightarrow> physical_address option pt_outcome" where
  "lookup_levels po [] table m = Panic"
| "lookup_levels po ((lvl, i) # levels) table m =
     bind_outcome (read_entry m table i) (\<lambda>e.
     case table_ref e lvl of
       Some existing_table \<Rightarrow> lookup_levels po levels existing_table m
     | None \<Rightarrow>
         (case base_address e lvl of
            None \<Rightarrow> Ok None
          | Some addr \<Rightarrow> bind_outcome (add_checked addr po) (\<lambda>a. Ok (Some a))))"

definition physical_address_of ::
  "page_table \<Rightarrow> virtual_address \<Rightarrow> pt_mem \<Rightarrow> physical_address option pt_outcome" where
  "physical_address_of pt virt m =
     (case to_parts virt of (tag, i0, i1, i2, i3, po) \<Rightarrow>
        if \<not> tag_matches pt tag then Ok None
        else lookup_levels po [(0, i0), (1, i1), (2, i2), (3, i3)] (level0_phy_addr pt) m)"

end
