(* ===== verification/Page_Map.thy ===== *)
theory Page_Map
  imports Page_Table
begin

text \<open>
  Correctness of the page-table operations of the theory \<open>Page_Table\<close> against what the memory
  management unit does with the tables: the translation of a virtual address walks the levels,
  a page descriptor supplies all address bits above the page offset and a block descriptor those
  above the block offset. The invariant says that the tables reachable from a root form a tree and
  lie in pages the physical memory allocator regards as allocated.
\<close>

section \<open>Encoding of descriptors\<close>

lemmas pte_field_defs =
  pte_address_def set_pte_address_def pte_af_def set_pte_af_def pte_read_only_def set_pte_read_only_def
  pte_el0_access_def set_pte_el0_access_def pte_type_def set_pte_type_def pte_valid_def set_pte_valid_def
  get_flag_def

definition page_addr_ok :: "physical_address \<Rightarrow> bool" where
  "page_addr_ok a \<longleftrightarrow> PAGE_SIZE dvd a \<and> a < 2 ^ 48"

lemma page_addr_bits:
  assumes "page_addr_ok a" "bit (of_nat a :: 64 word) n"
  shows "12 \<le> n" "n < 48"
proof -
  have n: "bit a n" "n < 64" using assms(2) by (auto simp: bit_of_nat_iff_bit bit_simps dest: bit_imp_le_length)
  have a: "2 ^ 12 dvd a" "a < 2 ^ 48" using assms(1) by (simp_all add: page_addr_ok_def PAGE_SIZE_def)
  have "take_bit 12 a = 0" using a(1) by (simp only: take_bit_eq_0_iff)
  then show "12 \<le> n" using n(1) by (metis bit_take_bit_iff bit_0_eq bot_apply bot_bool_def linorder_not_less)
  have "take_bit 48 a = a" using a(2) by (simp only: take_bit_nat_eq_self)
  then show "n < 48" using n(1) by (metis bit_take_bit_iff)
qed

lemma address_field_roundtrip:
  assumes "page_addr_ok a"
  shows "unat (push_bit 12 (get_field 47 12 (set_field 47 12 (drop_bit 12 (of_nat a :: 64 word)) e))) = a"
proof -
  have "push_bit 12 (get_field 47 12 (set_field 47 12 (drop_bit 12 (of_nat a :: 64 word)) e)) = of_nat a"
  proof (rule bit_eqI)
    fix n
    show "bit (push_bit 12 (get_field 47 12 (set_field 47 12 (drop_bit 12 (of_nat a :: 64 word)) e))) n =
        bit (of_nat a :: 64 word) n"
    proof (cases "bit (of_nat a :: 64 word) n")
      case True
      then have "12 \<le> n" "n < 48" "bit a n" using page_addr_bits [OF assms True] by (auto simp: bit_simps)
      then show ?thesis by (auto simp: bit_simps bit_get_field bit_set_field)
    qed (auto simp: bit_simps bit_get_field bit_set_field)
  qed
  moreover have "unat (of_nat a :: 64 word) = a"
    using assms by (simp add: page_addr_ok_def unat_of_nat)
  ultimately show ?thesis by simp
qed

lemma address_field_flags [simp]:
  "get_field 47 12 (set_flag n b (e :: 64 word)) = get_field 47 12 e" if "n < 12"
  using that by (intro bit_eqI) (auto simp: bit_get_field bit_set_flag)

lemma table_desc_decode:
  assumes "page_addr_ok a"
  shows "table_phy_addr (table_desc a) = Some a" "pte_valid (table_desc a)" "pte_type (table_desc a)"
  using address_field_roundtrip [OF assms]
  by (simp_all add: table_phy_addr_def table_desc_def pte_field_defs bit_set_field bit_set_flag)

lemma page_entry_decode:
  assumes "page_addr_ok a"
  shows "base_address (apply_options opts (page_entry a)) 3 = Some a"
    "pte_read_only (apply_options opts (page_entry a)) = read_only opts"
    "pte_el0_access (apply_options opts (page_entry a)) = el0_access opts"
  using address_field_roundtrip [OF assms]
  by (simp_all add: base_address_def page_entry_def apply_options_def pte_field_defs bit_set_field bit_set_flag)

lemma block_entry_decode:
  assumes "page_addr_ok a" "block_entry a lvl = Some b"
  shows "base_address (apply_options opts b) lvl = Some a" "table_ref (apply_options opts b) l = None"
    "pte_read_only (apply_options opts b) = read_only opts"
    "pte_el0_access (apply_options opts b) = el0_access opts"
  using address_field_roundtrip [OF assms(1)] assms(2)
  by (auto simp: base_address_def block_entry_def apply_options_def pte_field_defs bit_set_field bit_set_flag
      table_ref_def table_phy_addr_def split: if_splits)

lemma zero_entry [simp]: "table_ref 0 lvl = None" "base_address 0 lvl = None" "\<not> pte_valid 0"
  by (simp_all add: table_ref_def table_phy_addr_def base_address_def pte_valid_def get_flag_def)

lemma table_ref_level3 [simp]: "table_ref e 3 = None"
  by (simp add: table_ref_def)

section \<open>The tree of tables\<close>

definition entry_of :: "pt_mem \<Rightarrow> physical_address \<Rightarrow> nat \<Rightarrow> pte option" where
  "entry_of m t i =
     (case pm_tables m t of Some table \<Rightarrow> if i < length table then Some (table ! i) else None | None \<Rightarrow> None)"

definition next_table :: "pt_mem \<Rightarrow> nat \<Rightarrow> physical_address \<Rightarrow> nat \<Rightarrow> physical_address option" where
  "next_table m lvl t i = Option.bind (entry_of m t i) (\<lambda>e. table_ref e lvl)"

text \<open>The table reached by a path of indices, the last index first.\<close>

primrec table_at :: "pt_mem \<Rightarrow> physical_address \<Rightarrow> nat list \<Rightarrow> physical_address option" where
  "table_at m root [] = Some root"
| "table_at m root (i # rp) = Option.bind (table_at m root rp) (\<lambda>t. next_table m (length rp) t i)"

text \<open>The level and descriptor at which a walk ends, if they map anything.\<close>

fun walk :: "pt_mem \<Rightarrow> nat \<Rightarrow> physical_address \<Rightarrow> nat list \<Rightarrow> (nat \<times> pte) option" where
  "walk m lvl t [] = None"
| "walk m lvl t (i # is) =
     (case entry_of m t i of
        None \<Rightarrow> None
      | Some e \<Rightarrow>
          (case table_ref e lvl of
             Some t' \<Rightarrow> walk m (Suc lvl) t' is
           | None \<Rightarrow> if base_address e lvl = None then None else Some (lvl, e)))"

definition pt_inv :: "pt_mem \<Rightarrow> physical_address \<Rightarrow> bool" where
  "pt_inv m root \<longleftrightarrow>
     pma_inv (pm_alloc m) \<and> PAGE_SIZE dvd memory_start (pm_alloc m) \<and>
     memory_start (pm_alloc m) + length (allocated_pages (pm_alloc m)) * PAGE_SIZE \<le> 2 ^ 48 \<and>
     (\<forall>rp t. table_at m root rp = Some t \<longrightarrow>
        (\<exists>table. pm_tables m t = Some table \<and> length table = 512) \<and> t \<notin> pma_free_set (pm_alloc m)) \<and>
     (\<forall>rp rq t. table_at m root rp = Some t \<longrightarrow> table_at m root rq = Some t \<longrightarrow> rp = rq)"

lemma read_entry_iff: "read_entry m t i = Ok e \<longleftrightarrow> entry_of m t i = Some e"
  by (auto simp: read_entry_def entry_of_def split: option.splits)

lemma read_entry_not_Err [simp]: "read_entry m t i \<noteq> Err e"
  by (auto simp: read_entry_def split: option.splits)

lemma entry_of_write:
  "entry_of (write_entry m t i e) u j =
     (if u = t \<and> j = i \<and> entry_of m t i \<noteq> None then Some e else entry_of m u j)"
  by (auto simp: entry_of_def write_entry_def split: option.splits)

lemma write_entry_alloc [simp]: "pm_alloc (write_entry m t i e) = pm_alloc m"
  by (simp add: write_entry_def)

lemma pt_invD:
  assumes "pt_inv m root"
  shows "pma_inv (pm_alloc m)"
    and "table_at m root rp = Some t \<Longrightarrow> \<exists>table. pm_tables m t = Some table \<and> length table = 512"
    and "table_at m root rp = Some t \<Longrightarrow> t \<notin> pma_free_set (pm_alloc m)"
    and "table_at m root rp = Some t \<Longrightarrow> table_at m root rq = Some t \<Longrightarrow> rq = rp"
  using assms unfolding pt_inv_def by blast+

lemma table_entry:
  assumes "pt_inv m root" "table_at m root rp = Some t" "i < 512"
  shows "\<exists>e. entry_of m t i = Some e"
  using pt_invD(2) [OF assms(1, 2)] assms(3) by (auto simp: entry_of_def)

lemma table_at_write:
  assumes inv: "pt_inv m root" and t: "table_at m root rp = Some t"
    and old: "next_table m (length rp) t i = None" and new: "table_ref e (length rp) = None"
  shows "table_at (write_entry m t i e) root rq = table_at m root rq"
proof (induction rq)
  case (Cons j rq)
  show ?case
  proof (cases "table_at m root rq")
    case (Some u)
    have "next_table (write_entry m t i e) (length rq) u j = next_table m (length rq) u j"
    proof (cases "u = t \<and> j = i")
      case True
      then have "rq = rp" using pt_invD(4) [OF inv t] Some by simp
      then show ?thesis
        using True old new by (auto simp: next_table_def entry_of_write split: Option.bind_split)
    qed (auto simp: next_table_def entry_of_write)
    then show ?thesis using Cons Some by simp
  qed (use Cons in simp)
qed simp

lemma pt_inv_write:
  assumes inv: "pt_inv m root" and t: "table_at m root rp = Some t"
    and old: "next_table m (length rp) t i = None" and new: "table_ref e (length rp) = None"
  shows "pt_inv (write_entry m t i e) root"
proof -
  have "\<exists>table. pm_tables (write_entry m t i e) u = Some table \<and> length table = 512"
    if "pm_tables m u = Some tb" "length tb = 512" for u tb
    using that by (auto simp: write_entry_def)
  then show ?thesis
    using inv unfolding pt_inv_def table_at_write [OF assms] by (simp; blast)
qed

lemma table_at_suffix: "table_at m root (xs @ ys) = Some t \<Longrightarrow> \<exists>u. table_at m root ys = Some u"
  by (induction xs arbitrary: t) (auto simp: bind_eq_Some_conv)

text \<open>An entry that refers to no table is on no longer path.\<close>

lemma path_ends:
  assumes t: "table_at m root rp = Some t" and old: "next_table m (length rp) t i = None"
    and u: "table_at m root rq = Some u"
  shows "take (Suc (length rp)) (rev rq) \<noteq> rev rp @ [i]"
proof
  assume pre: "take (Suc (length rp)) (rev rq) = rev rp @ [i]"
  have "rev rq = (rev rp @ [i]) @ drop (Suc (length rp)) (rev rq)"
    by (metis append_take_drop_id pre)
  then have "rev rq = rev (i # rp) @ drop (Suc (length rp)) (rev rq)" by simp
  then have "rq = rev (drop (Suc (length rp)) (rev rq)) @ i # rp" by (metis rev_append rev_rev_ident)
  then have "\<exists>v. table_at m root (i # rp) = Some v" using u table_at_suffix by metis
  then show False using t old by simp
qed

text \<open>
  What a change of one entry that refers to no table does to the walks: exactly the walks that pass
  through this entry now end in it.
\<close>

lemma walk_write:
  assumes inv: "pt_inv m root" and t: "table_at m root rp = Some t" and i: "entry_of m t i \<noteq> None"
    and old: "next_table m (length rp) t i = None" and new: "table_ref e (length rp) = None"
    and u: "table_at m root rq = Some u"
  shows "walk (write_entry m t i e) (length rq) u is =
    (if take (Suc (length rp)) (rev rq @ is) = rev rp @ [i]
     then (if base_address e (length rp) = None then None else Some (length rp, e))
     else walk m (length rq) u is)"
  using u
proof (induction "is" arbitrary: rq u)
  case Nil
  then show ?case using path_ends [OF t old] by simp
next
  case (Cons j "is")
  show ?case
  proof (cases "u = t \<and> j = i")
    case True
    then have "rq = rp" using pt_invD(4) [OF inv t] Cons.prems by simp
    then show ?thesis using True i new by (auto simp: entry_of_write)
  next
    case False
    then have same: "entry_of (write_entry m t i e) u j = entry_of m u j" by (auto simp: entry_of_write)
    show ?thesis
    proof (cases "next_table m (length rq) u j")
      case (Some v)
      then have v: "table_at m root (j # rq) = Some v" using Cons.prems by simp
      obtain e' where "entry_of m u j = Some e'" "table_ref e' (length rq) = Some v"
        using Some by (auto simp: next_table_def bind_eq_Some_conv)
      then show ?thesis using Cons.IH [OF v] same by simp
    next
      case None
      have "take (Suc (length rp)) (rev rq @ j # is) \<noteq> rev rp @ [i]"
      proof
        assume pre: "take (Suc (length rp)) (rev rq @ j # is) = rev rp @ [i]"
        consider "length rq < length rp" | "length rq = length rp" | "length rp < length rq" by linarith
        then show False
        proof cases
          case 1
          have "take (Suc (length rq)) (rev rp) = take (Suc (length rq)) (rev rp @ [i])" using 1 by simp
          also have "\<dots> = take (Suc (length rq)) (rev rq @ j # is)" using 1 by (simp flip: pre)
          finally have "take (Suc (length rq)) (rev rp) = rev rq @ [j]" by simp
          then show False using path_ends [OF Cons.prems None t] by simp
        next
          case 2
          then have "rev rq @ [j] = rev rp @ [i]" using pre by simp
          then show False using False t Cons.prems by simp
        next
          case 3
          then have "take (Suc (length rp)) (rev rq) = rev rp @ [i]" using pre by simp
          then show False using path_ends [OF t old Cons.prems] by simp
        qed
      qed
      then show ?thesis using None same by (auto simp: next_table_def split: option.splits)
    qed
  qed
qed

section \<open>Adding a table\<close>

lemma allocate_table_Ok:
  assumes inv: "pt_inv m root" and ok: "allocate_table m = Ok (m1, a)"
  shows "page_addr_ok a" "a \<in> pma_free_set (pm_alloc m)" "a \<notin> pma_free_set (pm_alloc m1)"
    "pma_free_set (pm_alloc m1) \<subseteq> pma_free_set (pm_alloc m)" "pma_inv (pm_alloc m1)"
    "memory_start (pm_alloc m1) = memory_start (pm_alloc m)"
    "length (allocated_pages (pm_alloc m1)) = length (allocated_pages (pm_alloc m))"
    "pm_tables m1 = (pm_tables m)(a \<mapsto> replicate 512 0)"
proof -
  let ?p = "pm_alloc m"
  obtain p' where p': "alloc_contig 1 ?p = Ok (p', a)" and
    m1: "m1 = m\<lparr>pm_alloc := p', pm_tables := (pm_tables m)(a \<mapsto> replicate 512 0)\<rparr>"
    using ok by (auto simp: allocate_table_def alloc_page_def outcome_simps)
  have pinv: "pma_inv ?p" using inv by (simp add: pt_inv_def)
  obtain k where k: "free_run (allocated_pages ?p) k 1" "a = memory_start ?p + k * PAGE_SIZE"
    "p' = mark_pages ?p k 1 True"
    using alloc_contig_Ok [OF p' pinv] by auto
  have len: "k + 1 \<le> length (allocated_pages ?p)" using k(1) by (simp add: free_run_def)
  have law: "pma_inv p'" "region a 1 \<subseteq> pma_free_set ?p" "pma_free_set p' = pma_free_set ?p - region a 1"
    using pma.alloc_law [OF pinv _ p'] by auto
  have a: "a \<in> region a 1" by (simp add: region_def)
  show "a \<in> pma_free_set ?p" "a \<notin> pma_free_set (pm_alloc m1)" "pma_inv (pm_alloc m1)"
    "pma_free_set (pm_alloc m1) \<subseteq> pma_free_set ?p"
    using law a by (auto simp: m1)
  show "pm_tables m1 = (pm_tables m)(a \<mapsto> replicate 512 0)" by (simp add: m1)
  show "memory_start (pm_alloc m1) = memory_start ?p"
    "length (allocated_pages (pm_alloc m1)) = length (allocated_pages ?p)"
    using k len by (simp_all add: m1)
  have dv: "PAGE_SIZE dvd memory_start ?p"
    and top: "memory_start ?p + length (allocated_pages ?p) * PAGE_SIZE \<le> 2 ^ 48"
    using inv unfolding pt_inv_def by blast+
  have "k * PAGE_SIZE < length (allocated_pages ?p) * PAGE_SIZE" using len by simp
  then have "a < 2 ^ 48" using top k(2) by linarith
  then show "page_addr_ok a" using dv k(2) by (simp add: page_addr_ok_def)
qed

lemma entry_of_zero: "entry_of m a j = Some e \<Longrightarrow> pm_tables m a = Some (replicate 512 0) \<Longrightarrow> e = 0"
  by (auto simp: entry_of_def split: if_splits)

lemma walk_zero_table: "pm_tables m a = Some (replicate 512 0) \<Longrightarrow> walk m lvl a is = None"
  by (cases "is") (auto simp: entry_of_def split: option.splits)

text \<open>Entering a fresh table at an invalid entry: the state before and after.\<close>

definition adds_table ::
  "pt_mem \<Rightarrow> physical_address \<Rightarrow> nat list \<Rightarrow> physical_address \<Rightarrow> nat \<Rightarrow> pte \<Rightarrow> pt_mem \<Rightarrow> physical_address \<Rightarrow> bool" where
  "adds_table m root rp t i e m1 a \<longleftrightarrow>
     pt_inv m root \<and> table_at m root rp = Some t \<and> length rp < 3 \<and> entry_of m t i = Some e \<and>
     table_ref e (length rp) = None \<and> \<not> pte_valid e \<and> allocate_table m = Ok (m1, a)"

definition with_table :: "pt_mem \<Rightarrow> physical_address \<Rightarrow> nat \<Rightarrow> physical_address \<Rightarrow> pt_mem" where
  "with_table m1 t i a = write_entry m1 t i (table_desc a)"

lemma adds_tableD:
  assumes "adds_table m root rp t i e m1 a"
  shows "pt_inv m root" "table_at m root rp = Some t" "entry_of m t i = Some e" "allocate_table m = Ok (m1, a)"
    "next_table m (length rp) t i = None" "base_address e (length rp) = None" "table_ref e (length rp) = None"
  using assms by (auto simp: adds_table_def next_table_def base_address_def)

lemma adds_table_not_new:
  assumes "adds_table m root rp t i e m1 a" "table_at m root rq = Some u"
  shows "u \<noteq> a"
  using pt_invD(3) [OF _ assms(2)] allocate_table_Ok(2) adds_tableD(1, 4) [OF assms(1)] by blast

lemma adds_table_ref:
  assumes "adds_table m root rp t i e m1 a"
  shows "table_ref (table_desc a) (length rp) = Some a"
  using table_desc_decode(1) [OF allocate_table_Ok(1)] adds_tableD [OF assms] assms
  by (auto simp: table_ref_def adds_table_def)

lemma with_table_new:
  assumes "adds_table m root rp t i e m1 a"
  shows "pm_tables (with_table m1 t i a) a = Some (replicate 512 0)"
  using allocate_table_Ok(8) [OF adds_tableD(1, 4) [OF assms]] adds_table_not_new [OF assms adds_tableD(2) [OF assms]]
  by (simp add: with_table_def write_entry_def)

lemma with_table_entry:
  assumes f: "adds_table m root rp t i e m1 a" and "u \<noteq> a"
  shows "entry_of (with_table m1 t i a) u j = (if u = t \<and> j = i then Some (table_desc a) else entry_of m u j)"
proof -
  have "entry_of m1 v k = entry_of m v k" if "v \<noteq> a" for v k
    using that allocate_table_Ok(8) [OF adds_tableD(1, 4) [OF f]] by (simp add: entry_of_def)
  then show ?thesis
    using assms adds_tableD(3) [OF f] adds_table_not_new [OF f adds_tableD(2) [OF f]]
    by (auto simp: with_table_def entry_of_write)
qed

lemma with_table_at:
  assumes f: "adds_table m root rp t i e m1 a"
  shows "table_at (with_table m1 t i a) root rq = (if rq = i # rp then Some a else table_at m root rq)"
proof (induction rq)
  case (Cons j rq)
  note d = adds_tableD [OF f] and new = with_table_new [OF f]
  show ?case
  proof (cases "rq = i # rp")
    case True
    have "next_table (with_table m1 t i a) (length rq) a j = None"
      using entry_of_zero [of "with_table m1 t i a" a j] new
      by (cases "entry_of (with_table m1 t i a) a j") (auto simp: next_table_def)
    then show ?thesis using Cons True d by simp
  next
    case False
    show ?thesis
    proof (cases "table_at m root rq")
      case (Some u)
      have ne: "u \<noteq> a" by (rule adds_table_not_new [OF f Some])
      show ?thesis
      proof (cases "u = t \<and> j = i")
        case True
        then have "rq = rp" using pt_invD(4) [OF d(1, 2)] Some by simp
        then show ?thesis
          using True Cons False Some adds_table_ref [OF f] ne by (simp add: next_table_def with_table_entry [OF f])
      next
        case neq: False
        then have "\<not> (j = i \<and> rq = rp)" using Some d by auto
        then show ?thesis using neq Cons False Some ne by (auto simp: next_table_def with_table_entry [OF f])
      qed
    qed (use Cons False d in auto)
  qed
qed simp

lemma with_table_inv:
  assumes f: "adds_table m root rp t i e m1 a"
  shows "pt_inv (with_table m1 t i a) root"
proof -
  let ?m2 = "with_table m1 t i a"
  note d = adds_tableD [OF f] and fresh = allocate_table_Ok [OF adds_tableD(1, 4) [OF f]]
  have alloc: "pm_alloc ?m2 = pm_alloc m1" by (simp add: with_table_def)
  have tab: "\<exists>table. pm_tables ?m2 u = Some table \<and> length table = 512" if "table_at m root rq = Some u" for rq u
    using pt_invD(2) [OF d(1) that] fresh(8) adds_table_not_new [OF f that]
    by (auto simp: with_table_def write_entry_def)
  have free: "u \<notin> pma_free_set (pm_alloc m1)" if "table_at m root rq = Some u" for rq u
    using pt_invD(3) [OF d(1) that] fresh(4) by blast
  have "\<forall>rq u. table_at ?m2 root rq = Some u \<longrightarrow>
      (\<exists>table. pm_tables ?m2 u = Some table \<and> length table = 512) \<and> u \<notin> pma_free_set (pm_alloc ?m2)"
    using tab free fresh(3) with_table_new [OF f] by (auto simp: with_table_at [OF f] alloc split: if_split_asm)
  moreover have "\<forall>rq rr u. table_at ?m2 root rq = Some u \<longrightarrow> table_at ?m2 root rr = Some u \<longrightarrow> rq = rr"
    using pt_invD(4) [OF d(1)] adds_table_not_new [OF f] unfolding with_table_at [OF f] by (metis option.inject)
  ultimately show ?thesis
    using d(1) fresh(5-7) unfolding pt_inv_def alloc by simp
qed

lemma with_table_walk:
  assumes f: "adds_table m root rp t i e m1 a"
  shows "table_at m root rq = Some u \<Longrightarrow> walk (with_table m1 t i a) (length rq) u is = walk m (length rq) u is"
proof (induction "is" arbitrary: rq u)
  case (Cons j "is")
  note d = adds_tableD [OF f]
  have ne: "u \<noteq> a" by (rule adds_table_not_new [OF f Cons.prems])
  show ?case
  proof (cases "u = t \<and> j = i")
    case True
    then have "rq = rp" using pt_invD(4) [OF d(1, 2)] Cons.prems by simp
    then show ?thesis
      using True ne d adds_table_ref [OF f] walk_zero_table [OF with_table_new [OF f]]
      by (simp add: with_table_entry [OF f])
  next
    case False
    have "walk (with_table m1 t i a) (Suc (length rq)) v is = walk m (Suc (length rq)) v is"
      if "entry_of m u j = Some x" "table_ref x (length rq) = Some v" for x v
      using Cons.IH [of "j # rq" v] Cons.prems that by (simp add: next_table_def)
    then show ?thesis using False ne by (auto simp: with_table_entry [OF f] split: option.split)
  qed
qed simp

section \<open>Mapping one page or block\<close>

text \<open>The levels the loops of the source run over: level numbers from that of the current table.\<close>

fun levels_from :: "nat \<Rightarrow> (nat \<times> nat \<times> bool \<times> nat) list \<Rightarrow> bool" where
  "levels_from n [] \<longleftrightarrow> n = 3"
| "levels_from n ((lvl, i, large, sz) # levels) \<longleftrightarrow> lvl = n \<and> n < 3 \<and> i < 512 \<and> levels_from (Suc n) levels"

abbreviation level_index :: "nat \<times> nat \<times> bool \<times> nat \<Rightarrow> nat" where
  "level_index l \<equiv> fst (snd l)"

text \<open>The effect of \<open>map_levels\<close> on all walks from the root.\<close>

definition block_mapped ::
  "entry_options \<Rightarrow> physical_address \<Rightarrow> pt_mem \<Rightarrow> physical_address \<Rightarrow> nat list \<Rightarrow> nat \<Rightarrow> pt_mem \<Rightarrow> bool" where
  "block_mapped opts pa m root path lvl m' \<longleftrightarrow>
     (\<exists>b. block_entry pa lvl = Some b \<and>
        (\<forall>is. walk m' 0 root is =
           (if take (Suc lvl) is = path then Some (lvl, apply_options opts b) else walk m 0 root is)))"

lemma block_mapped_cong:
  "(\<And>is. walk m1 0 root is = walk m2 0 root is) \<Longrightarrow>
     block_mapped opts pa m1 root path lvl m' = block_mapped opts pa m2 root path lvl m'"
  by (simp add: block_mapped_def)

lemma write_block_mapped:
  assumes "pt_inv m root" "table_at m root rp = Some t" "entry_of m t i = Some e"
    "table_ref e (length rp) = None" "page_addr_ok pa" "block_entry pa (length rp) = Some b"
  shows "pt_inv (write_entry m t i (apply_options opts b)) root"
    "block_mapped opts pa m root (rev rp @ [i]) (length rp) (write_entry m t i (apply_options opts b))"
proof -
  have old: "next_table m (length rp) t i = None" using assms by (simp add: next_table_def)
  note dec = block_entry_decode [OF assms(5, 6), of opts]
  show "pt_inv (write_entry m t i (apply_options opts b)) root"
    by (rule pt_inv_write [OF assms(1, 2) old dec(2)])
  show "block_mapped opts pa m root (rev rp @ [i]) (length rp) (write_entry m t i (apply_options opts b))"
    using walk_write [OF assms(1, 2) _ old dec(2), of "[]" root] assms(3, 6) dec(1)
    by (auto simp: block_mapped_def)
qed

definition levels_mapped ::
  "entry_options \<Rightarrow> physical_address \<Rightarrow> nat \<Rightarrow> (nat \<times> nat \<times> bool \<times> nat) list \<Rightarrow> nat list \<Rightarrow> pt_mem \<Rightarrow>
   physical_address \<Rightarrow> pt_mem \<Rightarrow> nat + physical_address \<Rightarrow> bool" where
  "levels_mapped opts pa remaining levels rp m root m' r \<longleftrightarrow> pt_inv m' root \<and>
     (case r of
        Inr t \<Rightarrow> table_at m' root (rev (map level_index levels) @ rp) = Some t \<and>
          (\<forall>is. walk m' 0 root is = walk m 0 root is)
      | Inl n \<Rightarrow> \<exists>pre lvl i post. levels = pre @ (lvl, i, True, n) # post \<and> n \<le> remaining \<and>
          block_mapped opts pa m root (rev rp @ map level_index pre @ [i]) lvl m')"

lemma levels_mapped_descend:
  assumes "levels_mapped opts pa remaining levels (i # rp) m1 root m' r"
    "\<And>is. walk m1 0 root is = walk m 0 root is"
  shows "levels_mapped opts pa remaining ((lvl, i, large, sz) # levels) rp m root m' r"
proof (cases r)
  case (Inl n)
  then obtain pre lv j post where "levels = pre @ (lv, j, True, n) # post" "n \<le> remaining" "pt_inv m' root"
    "block_mapped opts pa m1 root (rev (i # rp) @ map level_index pre @ [j]) lv m'"
    using assms(1) by (auto simp: levels_mapped_def)
  then show ?thesis
    using Inl block_mapped_cong [OF assms(2)]
    by (auto simp: levels_mapped_def intro!: exI [of _ "(lvl, i, large, sz) # pre"])
next
  case (Inr t)
  then show ?thesis using assms by (simp add: levels_mapped_def)
qed

lemma map_levels_correct:
  assumes "map_levels opts pa remaining levels table m = Ok (m', r)" "pt_inv m root"
    "table_at m root rp = Some table" "levels_from (length rp) levels" "page_addr_ok pa"
  shows "levels_mapped opts pa remaining levels rp m root m' r"
  using assms
proof (induction levels arbitrary: table m rp)
  case Nil
  then show ?case by (auto simp: levels_mapped_def)
next
  case (Cons l levels)
  obtain lvl i large sz where l: "l = (lvl, i, large, sz)" by (metis prod.collapse)
  have lv: "lvl = length rp" "length rp < 3" "levels_from (length (i # rp)) levels"
    using Cons.prems(4) by (auto simp: l)
  obtain e where e: "read_entry m table i = Ok e" using Cons.prems(1) by (auto simp: l outcome_simps)
  then have e': "entry_of m table i = Some e" by (simp add: read_entry_iff)
  show ?case
  proof (cases "table_ref e lvl")
    case (Some t')
    then have "table_at m root (i # rp) = Some t'" using Cons.prems(3) e' lv(1) by (simp add: next_table_def)
    moreover have "map_levels opts pa remaining levels t' m = Ok (m', r)"
      using Cons.prems(1) Some e by (simp add: l)
    ultimately show ?thesis
      using Cons.IH [OF _ Cons.prems(2) _ lv(3) Cons.prems(5)] levels_mapped_descend l by blast
  next
    case None
    have inval: "\<not> pte_valid e" using Cons.prems(1) None e by (auto simp: l split: if_splits)
    show ?thesis
    proof (cases "if large \<and> sz \<le> remaining then block_entry pa lvl else None")
      case (Some b)
      then have b: "large" "sz \<le> remaining" "block_entry pa (length rp) = Some b" using lv(1) by (auto split: if_splits)
      have "m' = write_entry m table i (apply_options opts b)" "r = Inl sz"
        using Cons.prems(1) None e inval Some by (simp_all add: l)
      then show ?thesis
        using write_block_mapped [OF Cons.prems(2, 3) e' _ Cons.prems(5) b(3), of opts] None lv(1) b
        by (auto simp: levels_mapped_def l intro!: exI [of _ "[]"])
    next
      case no_block: None
      obtain m1 a where a: "allocate_table m = Ok (m1, a)"
        using Cons.prems(1) None e inval no_block by (auto simp: l outcome_simps)
      have f: "adds_table m root rp table i e m1 a"
        using Cons.prems(2, 3) lv e' None inval a by (simp add: adds_table_def)
      have ref: "table_ref (table_desc a) lvl = Some a" using adds_table_ref [OF f] lv(1) by simp
      have "map_levels opts pa remaining levels a (with_table m1 table i a) = Ok (m', r)"
        using Cons.prems(1) None e inval no_block a ref by (simp add: l with_table_def)
      moreover have "table_at (with_table m1 table i a) root (i # rp) = Some a"
        unfolding with_table_at [OF f] by simp
      ultimately have "levels_mapped opts pa remaining levels (i # rp) (with_table m1 table i a) root m' r"
        using Cons.IH [OF _ with_table_inv [OF f] _ lv(3) Cons.prems(5)] by blast
      then show ?thesis
        unfolding l using levels_mapped_descend with_table_walk [OF f, of "[]" root] by simp
    qed
  qed
qed

section \<open>Address ranges under an entry\<close>

definition indices :: "virtual_address \<Rightarrow> nat list" where
  "indices va = [va div 2 ^ 39 mod 512, va div 2 ^ 30 mod 512, va div 2 ^ 21 mod 512, va div 2 ^ 12 mod 512]"

text \<open>The bytes under an entry of a level.\<close>

definition entry_span :: "nat \<Rightarrow> nat" where
  "entry_span lvl = 2 ^ (39 - 9 * lvl)"

lemma entry_span_simps [simp]: "entry_span 1 = 2 ^ 30" "entry_span (Suc 0) = 2 ^ 30" "entry_span 2 = 2 ^ 21" "entry_span 3 = 2 ^ 12"
  by (simp_all add: entry_span_def)

lemma div_split_512: "(va :: nat) div 2 ^ k = va div 2 ^ (k + 9) * 512 + va div 2 ^ k mod 512"
proof -
  have "va div 2 ^ (k + 9) = va div 2 ^ k div 512" by (simp add: power_add div_mult2_eq)
  then show ?thesis by simp
qed

lemma div_coarser: "va div 2 ^ k = vb div 2 ^ k \<Longrightarrow> k \<le> l \<Longrightarrow> va div 2 ^ l = vb div (2 :: nat) ^ l"
  by (metis div_mult2_eq le_add_diff_inverse power_add)

lemma digits_eq:
  assumes "va div 2 ^ (k + 9) = vb div 2 ^ (k + 9)"
  shows "va div 2 ^ k = vb div 2 ^ k \<longleftrightarrow> va div 2 ^ k mod 512 = vb div (2 :: nat) ^ k mod 512"
  using div_split_512 [of va k] div_split_512 [of vb k] assms by metis

lemma take_indices:
  "take (Suc 1) (indices v) = [v div 2 ^ 39 mod 512, v div 2 ^ 30 mod 512]"
  "take (Suc 2) (indices v) = [v div 2 ^ 39 mod 512, v div 2 ^ 30 mod 512, v div 2 ^ 21 mod 512]"
  "take (Suc 3) (indices v) =
     [v div 2 ^ 39 mod 512, v div 2 ^ 30 mod 512, v div 2 ^ 21 mod 512, v div 2 ^ 12 mod 512]"
  by (simp_all add: indices_def)

lemma indices_prefix_iff:
  assumes "va div 2 ^ 48 = vb div 2 ^ 48" "lvl \<in> {1, 2, 3}"
  shows "take (Suc lvl) (indices va) = take (Suc lvl) (indices vb) \<longleftrightarrow> va div entry_span lvl = vb div entry_span lvl"
proof -
  have d39: "va div 2 ^ 39 mod 512 = vb div 2 ^ 39 mod 512 \<longleftrightarrow> va div 2 ^ 39 = vb div 2 ^ 39"
    using digits_eq [of va 39 vb] assms(1) by simp
  have d30: "va div 2 ^ 39 = vb div 2 ^ 39 \<and> va div 2 ^ 30 mod 512 = vb div 2 ^ 30 mod 512 \<longleftrightarrow>
      va div 2 ^ 30 = vb div 2 ^ 30"
    using digits_eq [of va 30 vb] div_coarser [of va 30 vb 39] by auto
  have d21: "va div 2 ^ 30 = vb div 2 ^ 30 \<and> va div 2 ^ 21 mod 512 = vb div 2 ^ 21 mod 512 \<longleftrightarrow>
      va div 2 ^ 21 = vb div 2 ^ 21"
    using digits_eq [of va 21 vb] div_coarser [of va 21 vb 30] by auto
  have d12: "va div 2 ^ 21 = vb div 2 ^ 21 \<and> va div 2 ^ 12 mod 512 = vb div 2 ^ 12 mod 512 \<longleftrightarrow>
      va div 2 ^ 12 = vb div 2 ^ 12"
    using digits_eq [of va 12 vb] div_coarser [of va 12 vb 21] by auto
  consider "lvl = 1" | "lvl = 2" | "lvl = 3" using assms(2) by auto
  then show ?thesis
  proof cases
    case 1
    then show ?thesis unfolding 1 take_indices entry_span_simps list.inject using d39 d30 by blast
  next
    case 2
    then show ?thesis unfolding 2 take_indices entry_span_simps list.inject using d39 d30 d21 by blast
  next
    case 3
    then show ?thesis
      unfolding 3 take_indices entry_span_simps list.inject using d39 d30 d21 d12 by blast
  qed
qed

section \<open>Translation by the memory management unit\<close>

text \<open>
  The physical address with the read-only and user-access attributes. A descriptor of a level
  supplies the address bits above the span of its level, the virtual address those below.
\<close>

definition mmu_translate :: "pt_mem \<Rightarrow> physical_address \<Rightarrow> virtual_address \<Rightarrow> (physical_address \<times> bool \<times> bool) option" where
  "mmu_translate m root va =
     (case walk m 0 root (indices va) of
        None \<Rightarrow> None
      | Some (lvl, e) \<Rightarrow>
          (case base_address e lvl of
             None \<Rightarrow> None
           | Some b \<Rightarrow> Some (b div entry_span lvl * entry_span lvl + va mod entry_span lvl,
                             pte_read_only e, pte_el0_access e)))"

text \<open>One iteration of the loop of \<open>map_range\<close>: an entry of a level, covering \<open>n\<close> pages.\<close>

definition unit_mapped ::
  "entry_options \<Rightarrow> physical_address \<Rightarrow> virtual_address \<Rightarrow> nat \<Rightarrow> pt_mem \<Rightarrow> physical_address \<Rightarrow> nat \<Rightarrow> pt_mem \<Rightarrow> bool" where
  "unit_mapped opts pa va remaining m root n m' \<longleftrightarrow>
     (\<exists>lvl e. lvl \<in> {1, 2, 3} \<and> n * PAGE_SIZE = entry_span lvl \<and> va mod entry_span lvl = 0 \<and>
        (lvl \<noteq> 3 \<longrightarrow> 512 \<le> remaining) \<and> n \<le> remaining \<and>
        base_address e lvl = Some pa \<and> pte_read_only e = read_only opts \<and> pte_el0_access e = el0_access opts \<and>
        (\<forall>is. length is = 4 \<longrightarrow>
          walk m' 0 root is = (if take (Suc lvl) is = take (Suc lvl) (indices va) then Some (lvl, e)
                               else walk m 0 root is)))"

lemma block_unit_mapped:
  assumes "block_mapped opts pa m root path lvl m'" "page_addr_ok pa" "lvl \<in> {1, 2}"
    "path = take (Suc lvl) (indices va)" "n * PAGE_SIZE = entry_span lvl" "va mod entry_span lvl = 0" "n \<le> remaining"
  shows "unit_mapped opts pa va remaining m root n m'"
proof -
  obtain b where b: "block_entry pa lvl = Some b"
    "\<And>is. walk m' 0 root is = (if take (Suc lvl) is = path then Some (lvl, apply_options opts b) else walk m 0 root is)"
    using assms(1) by (auto simp: block_mapped_def)
  have "512 \<le> n" using assms(3, 5) by (auto simp: PAGE_SIZE_def)
  then show ?thesis
    unfolding unit_mapped_def using assms block_entry_decode [OF assms(2) b(1), of opts] b(2)
    by (intro exI [of _ lvl] exI [of _ "apply_options opts b"]) auto
qed

lemma mod_of_digits:
  assumes "va mod 2 ^ k = 0" "va div 2 ^ k mod 512 = 0"
  shows "va mod 2 ^ (k + 9) = (0 :: nat)"
  using assms by (simp add: power_add mod_mult2_eq)

lemma parts_indices:
  obtains tag i0 i1 i2 i3 where "to_parts va = (tag, i0, i1, i2, i3, va mod PAGE_SIZE)" "tag = va div 2 ^ 48 mod 2 ^ 16"
    "indices va = [i0, i1, i2, i3]" "i0 < 512" "i1 < 512" "i2 < 512" "i3 < 512"
    "va mod PAGE_SIZE = 0 \<Longrightarrow> i3 = 0 \<Longrightarrow> va mod entry_span 2 = 0"
    "va mod PAGE_SIZE = 0 \<Longrightarrow> i3 = 0 \<Longrightarrow> i2 = 0 \<Longrightarrow> va mod entry_span 1 = 0"
proof -
  have p: "PAGE_SIZE = 2 ^ 12" "PAGE_SIZE = 4096" by (simp_all add: PAGE_SIZE_def)
  have z2: "va mod entry_span 2 = 0" if "va mod PAGE_SIZE = 0" "va div 2 ^ 12 mod 512 = 0"
    using mod_of_digits [of va 12] that unfolding p(1) entry_span_simps by simp
  have z1: "va mod entry_span 1 = 0" if "va mod entry_span 2 = 0" "va div 2 ^ 21 mod 512 = 0"
    using mod_of_digits [of va 21] that unfolding entry_span_simps by simp
  show thesis
  proof (rule that [OF to_parts_eq [of va, folded p(2)] refl indices_def])
    assume v: "va mod PAGE_SIZE = 0" "va div 2 ^ 12 mod 512 = 0"
    show "va mod entry_span 2 = 0" by (rule z2 [OF v])
    show "va mod entry_span 1 = 0" if "va div 2 ^ 21 mod 512 = 0" by (rule z1 [OF z2 [OF v] that])
  qed simp_all
qed

lemma page_unit_mapped:
  assumes inv: "pt_inv m1 root" and t: "table_at m1 root [i2, i1, i0] = Some t" and idx: "indices va = [i0, i1, i2, i3]"
    and e: "entry_of m1 t i3 = Some e" and pa: "page_addr_ok pa" and va: "va mod PAGE_SIZE = 0" and rem: "0 < remaining"
    and same: "\<And>is. walk m1 0 root is = walk m 0 root is"
  shows "pt_inv (write_entry m1 t i3 (apply_options opts (page_entry pa))) root"
    "unit_mapped opts pa va remaining m root 1 (write_entry m1 t i3 (apply_options opts (page_entry pa)))"
proof -
  let ?e = "apply_options opts (page_entry pa)"
  have len: "length [i2, i1, i0] = 3" by simp
  have old: "next_table m1 (length [i2, i1, i0]) t i3 = None" and new: "table_ref ?e (length [i2, i1, i0]) = None"
    using e by (simp_all add: next_table_def table_ref_def)
  show "pt_inv (write_entry m1 t i3 ?e) root" by (rule pt_inv_write [OF inv t old new])
  have "walk (write_entry m1 t i3 ?e) 0 root is =
      (if take 4 is = [i0, i1, i2, i3] then Some (3, ?e) else walk m 0 root is)" for "is"
    using walk_write [OF inv t _ old new, of "[]" root "is"] e page_entry_decode(1) [OF pa, of opts]
    unfolding len by (simp add: same)
  moreover have "1 * PAGE_SIZE = entry_span 3" by (simp add: PAGE_SIZE_def)
  moreover have "va mod entry_span 3 = 0" using va by (simp add: PAGE_SIZE_def)
  ultimately show "unit_mapped opts pa va remaining m root 1 (write_entry m1 t i3 ?e)"
    unfolding unit_mapped_def using page_entry_decode [OF pa, of opts] rem
    by (intro exI [of _ 3] exI [of _ ?e]) (auto simp: idx)
qed

lemma map_page_correct:
  assumes ok: "map_page opts root pa va remaining m = Ok (m', n)" and inv: "pt_inv m root" and pa: "page_addr_ok pa"
    and va: "va mod PAGE_SIZE = 0" and rem: "0 < remaining"
  shows "pt_inv m' root \<and> unit_mapped opts pa va remaining m root n m'"
proof -
  obtain tag i0 i1 i2 i3 where parts: "to_parts va = (tag, i0, i1, i2, i3, va mod PAGE_SIZE)"
    and idx: "indices va = [i0, i1, i2, i3]" and lt: "i0 < 512" "i1 < 512" "i2 < 512" "i3 < 512"
    and z2: "i3 = 0 \<Longrightarrow> va mod entry_span 2 = 0" and z1: "i3 = 0 \<Longrightarrow> i2 = 0 \<Longrightarrow> va mod entry_span 1 = 0"
    using parts_indices [of va] va by metis
  let ?levels = "[(0, i0, False, 0), (1, i1, i2 = 0 \<and> i3 = 0, 512 * 512), (2, i2, i3 = 0, 512)]"
  obtain p where p: "map_levels opts pa remaining ?levels root m = Ok p"
    "(case p of (m1, r) \<Rightarrow> case r of Inl k \<Rightarrow> Ok (m1, k) | Inr t \<Rightarrow> bind_outcome (read_entry m1 t i3)
      (\<lambda>_. Ok (write_entry m1 t i3 (apply_options opts (page_entry pa)), 1))) = Ok (m', n)"
    using ok unfolding map_page_def parts prod.case bind_outcome_Ok_iff by blast
  obtain m1 r where pr: "p = (m1, r)" by (cases p)
  note r = p(1) [unfolded pr] and rest = p(2) [unfolded pr prod.case]
  have lm: "levels_mapped opts pa remaining ?levels [] m root m1 r"
    by (rule map_levels_correct [OF r inv]) (simp_all add: pa lt)
  show ?thesis
  proof (cases r)
    case (Inl k)
    then obtain pre lvl i post where b: "?levels = pre @ (lvl, i, True, k) # post" "k \<le> remaining" "pt_inv m1 root"
      "block_mapped opts pa m root (map level_index pre @ [i]) lvl m1"
      using lm by (auto simp: levels_mapped_def)
    have eq: "m' = m1" "n = k" using rest Inl by simp_all
    consider (one) "lvl = 1" "k = 512 * 512" "i2 = 0" "i3 = 0" "map level_index pre @ [i] = take (Suc 1) (indices va)"
      | (two) "lvl = 2" "k = 512" "i3 = 0" "map level_index pre @ [i] = take (Suc 2) (indices va)"
      using b(1) unfolding idx by (auto simp: Cons_eq_append_conv)
    then show ?thesis
    proof cases
      case one
      then show ?thesis
        using block_unit_mapped [OF b(4) pa, of va n remaining] z1 eq b(2, 3) by (simp add: PAGE_SIZE_def)
    next
      case two
      then show ?thesis
        using block_unit_mapped [OF b(4) pa, of va n remaining] z2 eq b(2, 3) by (simp add: PAGE_SIZE_def)
    qed
  next
    case (Inr t)
    have t: "table_at m1 root [i2, i1, i0] = Some t" "\<And>is. walk m1 0 root is = walk m 0 root is" "pt_inv m1 root"
      using lm Inr by (simp_all add: levels_mapped_def)
    obtain e where e: "entry_of m1 t i3 = Some e" using table_entry [OF t(3, 1) lt(4)] by blast
    have "m' = write_entry m1 t i3 (apply_options opts (page_entry pa))" "n = 1"
      using rest Inr by (auto simp: outcome_simps)
    then show ?thesis using page_unit_mapped [OF t(3, 1) idx e pa va rem t(2)] by simp
  qed
qed

lemma aligned_range_iff:
  fixes va vb sp :: nat
  assumes "va mod sp = 0" "0 < sp"
  shows "vb div sp = va div sp \<longleftrightarrow> va \<le> vb \<and> vb < va + sp"
proof
  have va: "va = va div sp * sp" using assms(1) by (simp add: mod_eq_0_iff_dvd)
  show "va \<le> vb \<and> vb < va + sp" if "vb div sp = va div sp"
    using div_mult_mod_eq [of vb sp] mod_less_divisor [OF assms(2), of vb] va unfolding that by linarith
  show "vb div sp = va div sp" if "va \<le> vb \<and> vb < va + sp"
    by (rule div_nat_eqI) (use that va in \<open>simp_all add: mult.commute\<close>)
qed

lemma aligned_offset:
  fixes va vb pa sp :: nat
  assumes "va mod sp = 0" "pa mod sp = 0" "va \<le> vb" "vb < va + sp"
  shows "pa div sp * sp + vb mod sp = pa + (vb - va)"
proof -
  obtain d where d: "vb = va + d" using le_Suc_ex [OF assms(3)] by blast
  obtain k where k: "va = sp * k" using assms(1) by (auto simp: dvd_def mod_eq_0_iff_dvd)
  have "vb mod sp = d" using assms(4) d k by simp
  moreover have "pa div sp * sp = pa" using assms(2) by (simp add: mod_eq_0_iff_dvd)
  ultimately show ?thesis using d by simp
qed

lemma unit_translate:
  assumes u: "unit_mapped opts pa va remaining m root n m'" and tag: "vb div 2 ^ 48 = va div 2 ^ 48"
    and pa: "PAGE_SIZE dvd pa" and al: "remaining < 512 \<or> pa mod 2 ^ 30 = va mod 2 ^ 30"
  shows "mmu_translate m' root vb =
    (if va \<le> vb \<and> vb < va + n * PAGE_SIZE then Some (pa + (vb - va), read_only opts, el0_access opts)
     else mmu_translate m root vb)"
proof -
  obtain lvl e where l: "lvl \<in> {1, 2, 3}" and n: "n * PAGE_SIZE = entry_span lvl" and z: "va mod entry_span lvl = 0"
    and big: "lvl \<noteq> 3 \<longrightarrow> 512 \<le> remaining"
    and e: "base_address e lvl = Some pa" "pte_read_only e = read_only opts" "pte_el0_access e = el0_access opts"
    and w: "\<forall>is. length is = 4 \<longrightarrow> walk m' 0 root is =
      (if take (Suc lvl) is = take (Suc lvl) (indices va) then Some (lvl, e) else walk m 0 root is)"
    using u unfolding unit_mapped_def by (elim exE conjE) (rule that; assumption)
  have pos: "0 < entry_span lvl" by (simp add: entry_span_def)
  have range: "take (Suc lvl) (indices vb) = take (Suc lvl) (indices va) \<longleftrightarrow> va \<le> vb \<and> vb < va + n * PAGE_SIZE"
    unfolding n indices_prefix_iff [OF tag l] by (rule aligned_range_iff [OF z pos])
  have pz: "pa mod entry_span lvl = 0"
  proof (cases "lvl = 3")
    case True
    then show ?thesis using pa by (simp add: PAGE_SIZE_def mod_eq_0_iff_dvd)
  next
    case False
    then have "pa mod 2 ^ 30 = va mod 2 ^ 30" using al big by auto
    moreover have "entry_span lvl dvd 2 ^ 30" unfolding entry_span_def using l False by (intro le_imp_power_dvd) auto
    ultimately show ?thesis using z mod_mod_cancel [of "entry_span lvl" "2 ^ 30"] by metis
  qed
  have sum: "pa div entry_span lvl * entry_span lvl + vb mod entry_span lvl = pa + (vb - va)"
    if "va \<le> vb \<and> vb < va + n * PAGE_SIZE"
    using that unfolding n by (intro aligned_offset [OF z pz]) simp_all
  have len: "length (indices vb) = 4" unfolding indices_def by simp
  show ?thesis
  proof (cases "va \<le> vb \<and> vb < va + n * PAGE_SIZE")
    case True
    then have "walk m' 0 root (indices vb) = Some (lvl, e)" using mp [OF spec [OF w] len] range by simp
    then show ?thesis using True sum [OF True] e by (simp add: mmu_translate_def)
  next
    case False
    have "walk m' 0 root (indices vb) = walk m 0 root (indices vb)"
      using mp [OF spec [OF w] len] unfolding range if_not_P [OF False] .
    then show ?thesis unfolding if_not_P [OF False] by (simp add: mmu_translate_def)
  qed
qed

text \<open>The hypotheses of the range mapping.\<close>

definition mappable :: "physical_address \<Rightarrow> virtual_address \<Rightarrow> nat \<Rightarrow> bool" where
  "mappable phy_start virt_start page_count \<longleftrightarrow>
     PAGE_SIZE dvd phy_start \<and> phy_start + page_count * PAGE_SIZE \<le> 2 ^ 48 \<and>
     virt_start div 2 ^ 48 = (virt_start + page_count * PAGE_SIZE - 1) div 2 ^ 48 \<and>
     (page_count < 512 \<or> phy_start mod 2 ^ 30 = virt_start mod 2 ^ 30)"

lemma div_between:
  fixes a b x d :: nat
  assumes "a div d = b div d" "a \<le> x" "x \<le> b"
  shows "x div d = a div d"
  using div_le_mono [OF assms(2), of d] div_le_mono [OF assms(3), of d] assms(1) by linarith

lemma mappable_page:
  assumes "mappable phy virt count" "i < count" "virt mod PAGE_SIZE = 0"
  shows "page_addr_ok (phy + i * PAGE_SIZE)" "(virt + i * PAGE_SIZE) mod PAGE_SIZE = 0"
    "(virt + i * PAGE_SIZE) div 2 ^ 48 = virt div 2 ^ 48"
    "count - i < 512 \<or> (phy + i * PAGE_SIZE) mod 2 ^ 30 = (virt + i * PAGE_SIZE) mod 2 ^ 30"
proof -
  have lt: "i * PAGE_SIZE < count * PAGE_SIZE" using assms(2) by simp
  have m: "PAGE_SIZE dvd phy" "phy + count * PAGE_SIZE \<le> 2 ^ 48"
    "virt div 2 ^ 48 = (virt + count * PAGE_SIZE - 1) div 2 ^ 48"
    "count < 512 \<or> phy mod 2 ^ 30 = virt mod 2 ^ 30"
    using assms(1) unfolding mappable_def by blast+
  have "phy + i * PAGE_SIZE < 2 ^ 48" using m(2) lt by linarith
  then show "page_addr_ok (phy + i * PAGE_SIZE)" using m(1) by (simp add: page_addr_ok_def)
  show "(virt + i * PAGE_SIZE) mod PAGE_SIZE = 0" using assms(3) by simp
  show "(virt + i * PAGE_SIZE) div 2 ^ 48 = virt div 2 ^ 48"
    by (rule div_between [OF m(3)]) (use lt in linarith)+
  show "count - i < 512 \<or> (phy + i * PAGE_SIZE) mod 2 ^ 30 = (virt + i * PAGE_SIZE) mod 2 ^ 30"
  proof (cases "count < 512")
    case False
    then have "phy mod 2 ^ 30 = virt mod 2 ^ 30" using m(4) by blast
    then have "(phy + i * PAGE_SIZE) mod 2 ^ 30 = (virt + i * PAGE_SIZE) mod 2 ^ 30" by (rule mod_add_cong) (rule refl)
    then show ?thesis by blast
  next
    case True
    then have "count - i < 512" by linarith
    then show ?thesis by blast
  qed
qed

lemma map_loop_correct:
  assumes "map_loop opts root phy virt count i m = Ok m'" "pt_inv m root" "mappable phy virt count"
    "virt mod PAGE_SIZE = 0"
  shows "pt_inv m' root \<and> (\<forall>va. va div 2 ^ 48 = virt div 2 ^ 48 \<longrightarrow> mmu_translate m' root va =
    (if virt + i * PAGE_SIZE \<le> va \<and> va < virt + count * PAGE_SIZE
     then Some (phy + (va - virt), read_only opts, el0_access opts) else mmu_translate m root va))"
  using assms(1, 2)
proof (induction "count - i" arbitrary: i m rule: less_induct)
  case less
  show ?case
  proof (cases "i < count")
    case False
    then have "count * PAGE_SIZE \<le> i * PAGE_SIZE" by simp
    then have "\<not> (virt + i * PAGE_SIZE \<le> va \<and> va < virt + count * PAGE_SIZE)" for va by linarith
    moreover have "m' = m" using less.prems(1) False by (subst (asm) map_loop.simps) simp
    ultimately show ?thesis using less.prems(2) by auto
  next
    case True
    let ?va = "virt + i * PAGE_SIZE" and ?pa = "phy + i * PAGE_SIZE"
    obtain m1 n where p: "map_page opts root ?pa ?va (count - i) m = Ok (m1, n)"
      and rest: "map_loop opts root phy virt count (i + n) m1 = Ok m'"
      using less.prems(1) True by (subst (asm) map_loop.simps) (auto simp: outcome_simps)
    note pg = mappable_page [OF assms(3) True assms(4)]
    have one: "pt_inv m1 root" "unit_mapped opts ?pa ?va (count - i) m root n m1"
      using map_page_correct [OF p less.prems(2) pg(1, 2)] True by simp_all
    have "n \<le> count - i" using one(2) unfolding unit_mapped_def by blast
    then have n: "0 < n" "i + n \<le> count" using map_page_advance [OF p] True by linarith+
    have ih: "pt_inv m' root" "\<And>va. va div 2 ^ 48 = virt div 2 ^ 48 \<Longrightarrow> mmu_translate m' root va =
      (if virt + (i + n) * PAGE_SIZE \<le> va \<and> va < virt + count * PAGE_SIZE
       then Some (phy + (va - virt), read_only opts, el0_access opts) else mmu_translate m1 root va)"
      using less.hyps [OF _ rest one(1)] n(1) True by (simp_all only: diff_less_mono2 less_add_same_cancel1)
    have le: "(i + n) * PAGE_SIZE \<le> count * PAGE_SIZE" using n(2) by simp
    have split: "(i + n) * PAGE_SIZE = i * PAGE_SIZE + n * PAGE_SIZE" by (rule distrib_right)
    have "mmu_translate m' root va =
        (if ?va \<le> va \<and> va < virt + count * PAGE_SIZE then Some (phy + (va - virt), read_only opts, el0_access opts)
         else mmu_translate m root va)" if va: "va div 2 ^ 48 = virt div 2 ^ 48" for va
    proof -
      have t: "mmu_translate m1 root va = (if ?va \<le> va \<and> va < ?va + n * PAGE_SIZE
          then Some (?pa + (va - ?va), read_only opts, el0_access opts) else mmu_translate m root va)"
        by (rule unit_translate [OF one(2) trans [OF va pg(3) [symmetric]] _ pg(4)])
          (use pg(1) in \<open>simp only: page_addr_ok_def\<close>)
      consider "va < ?va" | "?va \<le> va" "va < ?va + n * PAGE_SIZE" | "virt + (i + n) * PAGE_SIZE \<le> va"
        using split by linarith
      then show ?thesis
      proof cases
        case 2
        then have "\<not> virt + (i + n) * PAGE_SIZE \<le> va" "va < virt + count * PAGE_SIZE" using le split by linarith+
        moreover have "?pa + (va - ?va) = phy + (va - virt)" using 2 by linarith
        ultimately show ?thesis using ih(2) [OF va] t 2 by simp
      next
        case 1
        then have "\<not> virt + (i + n) * PAGE_SIZE \<le> va" using split by linarith
        then show ?thesis using ih(2) [OF va] t 1 by simp
      next
        case 3
        then have "?va \<le> va" "\<not> va < ?va + n * PAGE_SIZE" using split by linarith+
        then show ?thesis using ih(2) [OF va] t 3 by simp
      qed
    qed
    then show ?thesis using ih(1) by blast
  qed
qed

lemma map_range_correct:
  assumes "map_range pt phy virt count overwrite opts m = Ok (m', pt')" "pt_inv m (level0_phy_addr pt)"
    "mappable phy virt count"
  shows "overwrite" "pt' = pt\<lparr>pt_modified := True\<rparr>" "pt_inv m' (level0_phy_addr pt)"
    "va div 2 ^ 48 = virt div 2 ^ 48 \<Longrightarrow> mmu_translate m' (level0_phy_addr pt) va =
      (if virt \<le> va \<and> va < virt + count * PAGE_SIZE
       then Some (phy + (va - virt), read_only opts, el0_access opts)
       else mmu_translate m (level0_phy_addr pt) va)"
proof -
  obtain tag i0 i1 i2 i3 where parts: "to_parts virt = (tag, i0, i1, i2, i3, virt mod PAGE_SIZE)"
    using parts_indices [of virt] by metis
  have "virt mod PAGE_SIZE = 0" "overwrite" and
    ok: "bind_outcome (map_loop opts (level0_phy_addr pt) phy virt count 0 m) (\<lambda>m'. Ok (m', pt\<lparr>pt_modified := True\<rparr>)) =
      Ok (m', pt')"
    using assms(1) unfolding map_range_def parts prod.case by (auto split: if_split_asm)
  then show "overwrite" "pt' = pt\<lparr>pt_modified := True\<rparr>" by (auto simp: outcome_simps)
  have "map_loop opts (level0_phy_addr pt) phy virt count 0 m = Ok m'" using ok by (auto simp: outcome_simps)
  from map_loop_correct [OF this assms(2, 3) \<open>virt mod PAGE_SIZE = 0\<close>]
  show "pt_inv m' (level0_phy_addr pt)"
    "va div 2 ^ 48 = virt div 2 ^ 48 \<Longrightarrow> mmu_translate m' (level0_phy_addr pt) va =
      (if virt \<le> va \<and> va < virt + count * PAGE_SIZE
       then Some (phy + (va - virt), read_only opts, el0_access opts)
       else mmu_translate m (level0_phy_addr pt) va)"
    by (simp_all only: mult_0 add_0_right)
qed

section \<open>Lookup\<close>

lemma table_at_length:
  assumes "table_at m root rp = Some t"
  shows "length rp \<le> 3"
proof (cases rp)
  case (Cons i rq)
  then obtain u e where "table_at m root rq = Some u" "table_ref e (length rq) = Some t"
    using assms by (auto simp: bind_eq_Some_conv next_table_def)
  then show ?thesis using Cons by (simp add: table_ref_def split: if_splits)
qed simp

lemma walk_end:
  "walk m lvl t is = Some (l, e) \<Longrightarrow> base_address e l \<noteq> None"
  by (induction m lvl t "is" rule: walk.induct) (auto split: option.splits if_splits)

lemma lookup_levels_walk:
  assumes "pt_inv m root" "table_at m root rp = Some t" "length rp + length is = 4" "\<forall>i\<in>set is. i < 512"
    "levels = zip [length rp..<4] is"
  shows "lookup_levels po levels t m =
    (case walk m (length rp) t is of
       None \<Rightarrow> Ok None
     | Some (l, e) \<Rightarrow> bind_outcome (add_checked (the (base_address e l)) po) (\<lambda>a. Ok (Some a)))"
  using assms(2-5)
proof (induction "is" arbitrary: rp t levels)
  case Nil
  then show ?case using table_at_length [OF Nil.prems(1)] by simp
next
  case (Cons i "is")
  have lt: "length rp < 4" using Cons.prems(2) by simp
  then have lv: "levels = (length rp, i) # zip [length (i # rp)..<4] is"
    using Cons.prems(4) by (simp add: upt_conv_Cons)
  obtain e where e: "entry_of m t i = Some e" using table_entry [OF assms(1) Cons.prems(1)] Cons.prems(3) by auto
  then have r: "read_entry m t i = Ok e" by (simp add: read_entry_iff)
  show ?case
  proof (cases "table_ref e (length rp)")
    case (Some u)
    then have "table_at m root (i # rp) = Some u" using Cons.prems(1) e by (simp add: next_table_def)
    then show ?thesis
      using Cons.IH [of "i # rp" u] Cons.prems(2, 3) Some e r by (simp add: lv)
  next
    case None
    then show ?thesis using e r by (auto simp: lv split: option.splits)
  qed
qed

lemma physical_address_of_walk:
  assumes "pt_inv m (level0_phy_addr pt)" "tag_matches pt (va div 2 ^ 48 mod 2 ^ 16)"
  shows "physical_address_of pt va m =
    (case walk m 0 (level0_phy_addr pt) (indices va) of
       None \<Rightarrow> Ok None
     | Some (l, e) \<Rightarrow>
         bind_outcome (add_checked (the (base_address e l)) (va mod PAGE_SIZE)) (\<lambda>a. Ok (Some a)))"
proof -
  obtain tag i0 i1 i2 i3 where parts: "to_parts va = (tag, i0, i1, i2, i3, va mod PAGE_SIZE)"
    and tag: "tag = va div 2 ^ 48 mod 2 ^ 16"
    and idx: "indices va = [i0, i1, i2, i3]" "i0 < 512" "i1 < 512" "i2 < 512" "i3 < 512"
    using parts_indices [of va] by metis
  have "lookup_levels (va mod PAGE_SIZE) [(0, i0), (1, i1), (2, i2), (3, i3)] (level0_phy_addr pt) m =
      (case walk m (length ([] :: nat list)) (level0_phy_addr pt) (indices va) of None \<Rightarrow> Ok None
       | Some (l, e) \<Rightarrow>
           bind_outcome (add_checked (the (base_address e l)) (va mod PAGE_SIZE)) (\<lambda>a. Ok (Some a)))"
    by (rule lookup_levels_walk [OF assms(1)]) (simp_all add: idx upt_rec)
  then show ?thesis using assms(2) unfolding physical_address_of_def parts prod.case tag by simp
qed

end
