(* ===== verification/Page_Space.thy ===== *)
theory Page_Space
  imports Page_Map
begin

text \<open>
  Address ranges built from single pages: where no walk meets a block descriptor, \<open>map_range\<close> of
  fewer than 512 pages either succeeds or reports that physical memory is exhausted, and
  \<open>unmap_range\<close> of a mapped range removes exactly that range. The theory also holds the teardown
  of a table tree (\<open>Drop for PageTable\<close> of \<open>memory/paging.rs\<close>) and the properties of the page-table
  component as a whole.
\<close>

section \<open>Tables without blocks\<close>

text \<open>No walk for an address of \<open>V\<close> meets a block; elsewhere, as in the identity map of the kernel, there may be blocks.\<close>

definition small_pages :: "virtual_address set \<Rightarrow> pt_mem \<Rightarrow> physical_address \<Rightarrow> bool" where
  "small_pages V m root \<longleftrightarrow>
     (\<forall>va rp t i e. va \<in> V \<longrightarrow> table_at m root rp = Some t \<longrightarrow> length rp < 3 \<longrightarrow>
        rev rp @ [i] = take (Suc (length rp)) (indices va) \<longrightarrow> entry_of m t i = Some e \<longrightarrow>
        table_ref e (length rp) = None \<longrightarrow> \<not> pte_valid e)"

lemma small_pagesD:
  "small_pages V m root \<Longrightarrow> va \<in> V \<Longrightarrow> table_at m root rp = Some t \<Longrightarrow> length rp < 3 \<Longrightarrow>
     rev rp @ [i] = take (Suc (length rp)) (indices va) \<Longrightarrow> entry_of m t i = Some e \<Longrightarrow>
     table_ref e (length rp) = None \<Longrightarrow> \<not> pte_valid e"
  unfolding small_pages_def by blast

lemma small_pages_walk:
  assumes "small_pages V m root" "va \<in> V"
  shows "table_at m root rp = Some t \<Longrightarrow> rev rp @ is = indices va \<Longrightarrow> walk m (length rp) t is = Some (l, e) \<Longrightarrow> l = 3"
proof (induction "is" arbitrary: rp t)
  case (Cons i "is")
  obtain e' where e': "entry_of m t i = Some e'" using Cons.prems(3) by (auto split: option.splits)
  show ?case
  proof (cases "table_ref e' (length rp)")
    case (Some u)
    then have "table_at m root (i # rp) = Some u" using Cons.prems(1) e' by (simp add: next_table_def)
    then show ?thesis using Cons.IH [of "i # rp" u] Cons.prems(2, 3) e' Some by simp
  next
    case None
    then have l: "l = length rp" "base_address e' (length rp) \<noteq> None"
      using Cons.prems(3) e' by (auto split: if_splits)
    then have "pte_valid e'" by (auto simp: base_address_def split: if_splits)
    moreover have "rev rp @ [i] = take (Suc (length rp)) (indices va)" by (simp flip: Cons.prems(2))
    ultimately show ?thesis
      using small_pagesD [OF assms Cons.prems(1) _ _ e' None] table_at_length [OF Cons.prems(1)] l(1) by linarith
  qed
qed simp

lemma small_pages_with_table:
  assumes f: "adds_table m root rp t i e m1 a" and "small_pages V m root"
  shows "small_pages V (with_table m1 t i a) root"
  unfolding small_pages_def
proof (intro allI impI)
  fix va rq u j d
  assume va: "va \<in> V" "rev rq @ [j] = take (Suc (length rq)) (indices va)"
    and a: "table_at (with_table m1 t i a) root rq = Some u" "length rq < 3"
    "entry_of (with_table m1 t i a) u j = Some d" "table_ref d (length rq) = None"
  show "\<not> pte_valid d"
  proof (cases "u = a")
    case True
    then show ?thesis using entry_of_zero [OF a(3)] with_table_new [OF f] by simp
  next
    case False
    then have u: "table_at m root rq = Some u" using a(1) with_table_at [OF f, of rq] by (auto split: if_splits)
    show ?thesis
    proof (cases "u = t \<and> j = i")
      case True
      then have "rq = rp" "d = table_desc a"
        using u a(3) with_table_entry [OF f False] pt_invD(4) [OF adds_tableD(1, 2) [OF f]] by auto
      then show ?thesis using adds_table_ref [OF f] a(4) by simp
    next
      case other: False
      then have "entry_of m u j = Some d" using with_table_entry [OF f False, of j] a(3) by auto
      then show ?thesis using small_pagesD [OF assms(2) va(1) u a(2) va(2) _ a(4)] by blast
    qed
  qed
qed

lemma small_pages_write_page:
  assumes inv: "pt_inv m root" and t: "table_at m root rp = Some t" "length rp = 3" and "small_pages V m root"
  shows "small_pages V (write_entry m t i e) root"
proof -
  have none: "next_table m (length rp) t i = None" "table_ref e (length rp) = None"
    using t(2) by (auto simp: next_table_def split: bind_splits)
  have "\<not> pte_valid d" if "table_at (write_entry m t i e) root rq = Some u" "length rq < 3"
    "entry_of (write_entry m t i e) u j = Some d" "table_ref d (length rq) = None" "va \<in> V"
    "rev rq @ [j] = take (Suc (length rq)) (indices va)" for va rq u j d
  proof -
    have u: "table_at m root rq = Some u" using that(1) table_at_write [OF inv t(1) none] by simp
    then have "u \<noteq> t" using pt_invD(4) [OF inv t(1)] t(2) that(2) by auto
    then have "entry_of m u j = Some d" using that(3) by (simp add: entry_of_write)
    then show ?thesis using small_pagesD [OF assms(4) that(5) u that(2, 6) _ that(4)] by blast
  qed
  then show ?thesis unfolding small_pages_def by blast
qed

section \<open>Progress of mapping\<close>

definition pages_left :: "phys_alloc \<Rightarrow> nat" where
  "pages_left p = length (filter Not (allocated_pages p))"

lemma pages_left_mark:
  assumes "s < length (allocated_pages p)" "\<not> allocated_pages p ! s"
  shows "pages_left p = Suc (pages_left (mark_pages p s 1 True))"
  using arg_cong [OF id_take_nth_drop [OF assms(1)], of "\<lambda>xs. length (filter Not xs)"] assms
  by (simp add: pages_left_def mark_pages_def)

lemma pages_left_0: "(\<And>i. i < length (allocated_pages p) \<Longrightarrow> allocated_pages p ! i) \<Longrightarrow> pages_left p = 0"
  by (auto simp: pages_left_def filter_empty_conv in_set_conv_nth)

lemma alloc_page_cases:
  assumes "pma_inv p"
  obtains p' a where "alloc_page p = Ok (p', a)" "pages_left p = Suc (pages_left p')"
  | "alloc_page p = Err OutOfMemory" "pages_left p = 0"
proof (cases "skip_allocated 0 (allocated_pages p)")
  case None
  have "pages_left p = 0" by (rule pages_left_0) (rule skip_allocated_None [OF None])
  moreover have "alloc_page p = Err OutOfMemory"
    unfolding alloc_page_def alloc_contig_def by (subst alloc_scan.simps) (simp add: None)
  ultimately show ?thesis using that(2) by blast
next
  case (Some q)
  obtain s rest where q: "q = (s, rest)" by (cases q)
  have "alloc_page p = take_pages p s 1"
    unfolding alloc_page_def alloc_contig_def by (subst alloc_scan.simps) (simp add: Some q)
  moreover have "s < length (allocated_pages p)" "\<not> allocated_pages p ! s"
    using skip_allocated_Some [of 0 "allocated_pages p" s rest] Some q by auto
  ultimately show ?thesis using that(1) take_pages_eq [OF assms, of s 1] pages_left_mark by simp
qed

lemma allocate_table_cases:
  assumes inv: "pma_inv (pm_alloc m)"
    and top: "memory_start (pm_alloc m) + length (allocated_pages (pm_alloc m)) * PAGE_SIZE \<le> 2 ^ 48"
  obtains m1 a where "allocate_table m = Ok (m1, a)" "pages_left (pm_alloc m) = Suc (pages_left (pm_alloc m1))"
  | "allocate_table m = Err (OutOfMemory, m)" "pages_left (pm_alloc m) = 0"
proof -
  show ?thesis
  proof (rule alloc_page_cases [OF inv])
    fix p' a
    assume a: "alloc_page (pm_alloc m) = Ok (p', a)" "pages_left (pm_alloc m) = Suc (pages_left p')"
    obtain s where s: "a = memory_start (pm_alloc m) + s * PAGE_SIZE" "s < length (allocated_pages (pm_alloc m))"
      using alloc_contig_Ok [OF a(1) [unfolded alloc_page_def] inv] by (auto simp: free_run_def)
    have "s * PAGE_SIZE < length (allocated_pages (pm_alloc m)) * PAGE_SIZE"
      using s(2) by simp
    then have "a < 2 ^ 48" using s(1) top by linarith
    then have "\<exists>v. to_virtual_canonical a = (Ok v :: (memory_error \<times> pt_mem, virtual_address) outcome)"
      by (simp add: to_virtual_canonical_def add_checked_def canonical_base_def)
    then show ?thesis using that(1) a by (auto simp: allocate_table_def)
  next
    assume "alloc_page (pm_alloc m) = Err OutOfMemory" "pages_left (pm_alloc m) = 0"
    then show ?thesis using that(2) by (simp add: allocate_table_def)
  qed
qed

text \<open>Physical memory ran out while tables were being added; the tables already added stay.\<close>

definition out_of_pages :: "virtual_address set \<Rightarrow> physical_address \<Rightarrow> 'a pt_outcome \<Rightarrow> bool" where
  "out_of_pages V root r \<longleftrightarrow>
     (\<exists>m. r = Err (OutOfMemory, m) \<and> pt_inv m root \<and> small_pages V m root \<and> pages_left (pm_alloc m) = 0)"

lemma out_of_pages_bind: "out_of_pages V root r \<Longrightarrow> out_of_pages V root (bind_outcome r f)"
  by (auto simp: out_of_pages_def)

text \<open>A step that adds at most \<open>k\<close> tables either ends at a level 3 table or runs out of pages.\<close>

definition descends :: "virtual_address set \<Rightarrow> nat \<Rightarrow> physical_address \<Rightarrow> pt_mem \<Rightarrow> (pt_mem \<times> (nat + physical_address)) pt_outcome \<Rightarrow> bool" where
  "descends V k root m r \<longleftrightarrow>
     (\<exists>m' t. r = Ok (m', Inr t) \<and> small_pages V m' root \<and> pages_left (pm_alloc m) \<le> pages_left (pm_alloc m') + k) \<or>
     out_of_pages V root r \<and> pages_left (pm_alloc m) < k"

lemma descends_Suc:
  "descends V k root m r \<Longrightarrow> descends V (Suc k) root m r"
  "descends V k root m1 r \<Longrightarrow> pages_left (pm_alloc m) = Suc (pages_left (pm_alloc m1)) \<Longrightarrow> descends V (Suc k) root m r"
  unfolding descends_def by auto

lemma map_levels_progress:
  assumes "pt_inv m root" "small_pages V m root" "table_at m root rp = Some table"
    "levels_from (length rp) levels" "\<forall>(lvl, i, large, sz)\<in>set levels. large \<longrightarrow> remaining < sz"
    "va \<in> V" "rev rp @ map level_index levels = take 3 (indices va)"
  shows "descends V (length levels) root m (map_levels opts pa remaining levels table m)"
  using assms
proof (induction levels arbitrary: table m rp)
  case (Cons l levels)
  obtain lvl i large sz where l: "l = (lvl, i, large, sz)" by (metis prod.collapse)
  have lv: "lvl = length rp" "length rp < 3" "i < 512" "levels_from (length (i # rp)) levels"
    "\<not> (large \<and> sz \<le> remaining)" "\<forall>(lvl, i, large, sz)\<in>set levels. large \<longrightarrow> remaining < sz"
    "rev (i # rp) @ map level_index levels = take 3 (indices va)"
    using Cons.prems(4, 5, 7) by (auto simp: l)
  obtain e where e: "entry_of m table i = Some e" using table_entry [OF Cons.prems(1, 3) lv(3)] by blast
  then have re: "read_entry m table i = Ok e" by (simp add: read_entry_iff)
  show ?case
  proof (cases "table_ref e lvl")
    case (Some t')
    then have "table_at m root (i # rp) = Some t'" using Cons.prems(3) e lv(1) by (simp add: next_table_def)
    note ih = Cons.IH [OF Cons.prems(1, 2) this lv(4, 6) Cons.prems(6) lv(7)]
    have eq: "map_levels opts pa remaining (l # levels) table m = map_levels opts pa remaining levels t' m"
      using Some re by (simp add: l)
    show ?thesis unfolding eq list.size by (simp add: descends_Suc(1) [OF ih])
  next
    case None
    have "rev rp @ [i] = take (Suc (length rp)) (rev (i # rp) @ map level_index levels)" by simp
    also have "\<dots> = take (Suc (length rp)) (indices va)" using lv(2) unfolding lv(7) by (simp add: min_def)
    finally have inval: "\<not> pte_valid e"
      using small_pagesD [OF Cons.prems(2, 6, 3) lv(2) _ e] None lv(1) by simp
    show ?thesis
    proof (rule allocate_table_cases [of m])
      show "pma_inv (pm_alloc m)" "memory_start (pm_alloc m) + length (allocated_pages (pm_alloc m)) * PAGE_SIZE \<le> 2 ^ 48"
        using Cons.prems(1) unfolding pt_inv_def by blast+
    next
      assume "allocate_table m = Err (OutOfMemory, m)" "pages_left (pm_alloc m) = 0"
      then show ?thesis using None re inval lv(5) Cons.prems(1, 2) by (auto simp: l out_of_pages_def descends_def)
    next
      fix m1 a
      assume a: "allocate_table m = Ok (m1, a)" "pages_left (pm_alloc m) = Suc (pages_left (pm_alloc m1))"
      have f: "adds_table m root rp table i e m1 a"
        using Cons.prems(1, 3) lv e None inval a(1) by (simp add: adds_table_def)
      have left: "pages_left (pm_alloc m) = Suc (pages_left (pm_alloc (with_table m1 table i a)))"
        using a(2) by (simp add: with_table_def)
      have "table_at (with_table m1 table i a) root (i # rp) = Some a" unfolding with_table_at [OF f] by simp
      note ih = Cons.IH [OF with_table_inv [OF f] small_pages_with_table [OF f Cons.prems(2)] this lv(4, 6) Cons.prems(6) lv(7)]
      have eq: "map_levels opts pa remaining (l # levels) table m =
          map_levels opts pa remaining levels a (with_table m1 table i a)"
        using None re inval lv(1, 5) a(1) adds_table_ref [OF f] by (auto simp: l with_table_def)
      show ?thesis unfolding eq list.size by (simp add: descends_Suc(2) [OF ih left])
    qed
  qed
qed (simp add: descends_def)

lemma map_page_progress:
  assumes "pt_inv m root" "small_pages V m root" "remaining < 512" "page_addr_ok pa" "va \<in> V"
  shows "(\<exists>m'. map_page opts root pa va remaining m = Ok (m', 1) \<and> small_pages V m' root \<and>
      pages_left (pm_alloc m) \<le> pages_left (pm_alloc m') + 3) \<or>
    out_of_pages V root (map_page opts root pa va remaining m) \<and> pages_left (pm_alloc m) < 3"
proof -
  obtain tag i0 i1 i2 i3 where parts: "to_parts va = (tag, i0, i1, i2, i3, va mod PAGE_SIZE)"
    and idx: "indices va = [i0, i1, i2, i3]" and lt: "i0 < 512" "i1 < 512" "i2 < 512" "i3 < 512"
    using parts_indices [of va] by metis
  let ?levels = "[(0 :: nat, i0, False, 0 :: nat), (1, i1, i2 = 0 \<and> i3 = 0, 512 * 512), (2, i2, i3 = 0, 512)]"
  have lf: "levels_from (length ([] :: nat list)) ?levels" using lt by simp
  have "descends V (length ?levels) root m (map_levels opts pa remaining ?levels root m)"
    by (rule map_levels_progress [where rp = "[]", OF assms(1, 2) _ lf _ assms(5)]) (use assms(3) in \<open>simp_all add: idx\<close>)
  then consider (none) "out_of_pages V root (map_levels opts pa remaining ?levels root m)" "pages_left (pm_alloc m) < 3"
    | (some) m1 t where "map_levels opts pa remaining ?levels root m = Ok (m1, Inr t)" "small_pages V m1 root"
      "pages_left (pm_alloc m) \<le> pages_left (pm_alloc m1) + 3"
    unfolding descends_def list.size by fastforce
  then show ?thesis
  proof cases
    case none
    then show ?thesis unfolding map_page_def parts prod.case by (intro disjI2 conjI out_of_pages_bind)
  next
    case ok: some
    have "levels_mapped opts pa remaining ?levels [] m root m1 (Inr t)"
      by (rule map_levels_correct [OF ok(1) assms(1) _ lf assms(4)]) simp
    then have t: "pt_inv m1 root" "table_at m1 root [i2, i1, i0] = Some t" by (simp_all add: levels_mapped_def)
    then obtain e where e: "read_entry m1 t i3 = Ok e" using table_entry [OF t lt(4)] by (auto simp: read_entry_iff)
    have "small_pages V (write_entry m1 t i3 (apply_options opts (page_entry pa))) root"
      by (rule small_pages_write_page [OF t _ ok(2)]) simp
    then show ?thesis using ok(3) unfolding map_page_def parts prod.case ok(1) by (simp add: e)
  qed
qed

lemma div_less_bound: "(x :: nat) div 2 ^ k = y div 2 ^ k \<Longrightarrow> y < 2 ^ n \<Longrightarrow> k \<le> n \<Longrightarrow> x < 2 ^ n"
proof -
  assume a: "x div 2 ^ k = y div 2 ^ k" "y < 2 ^ n" "k \<le> n"
  have n: "(2 :: nat) ^ n = 2 ^ (n - k) * 2 ^ k" using a(3) by (simp flip: power_add)
  have "y div 2 ^ k < 2 ^ (n - k)" using a(2) by (simp add: n div_less_iff_less_mult)
  then have "x div 2 ^ k < 2 ^ (n - k)" unfolding a(1) .
  then show "x < 2 ^ n" by (simp add: n div_less_iff_less_mult)
qed

lemma mappable_address:
  assumes "mappable phy virt count" "i < count" "virt mod PAGE_SIZE = 0" "virt < usize_bound"
  shows "i * PAGE_SIZE < usize_bound" "virt + i * PAGE_SIZE < usize_bound" "phy + i * PAGE_SIZE < usize_bound"
proof -
  note pg = mappable_page [OF assms(1-3)]
  show v: "virt + i * PAGE_SIZE < usize_bound" by (rule div_less_bound [OF pg(3) assms(4)]) simp
  then show "i * PAGE_SIZE < usize_bound" by linarith
  have "phy + i * PAGE_SIZE < 2 ^ 48" using pg(1) unfolding page_addr_ok_def by blast
  moreover have "(2 :: nat) ^ 48 < usize_bound" by simp
  ultimately show "phy + i * PAGE_SIZE < usize_bound" by linarith
qed

lemma map_loop_progress:
  assumes "mappable phy virt count" "virt mod PAGE_SIZE = 0" "virt < usize_bound" "count - i < 512"
    "pt_inv m root" "small_pages V m root" "{virt ..< virt + count * PAGE_SIZE} \<subseteq> V"
  shows "(\<exists>m'. map_loop opts root phy virt count i m = Ok m' \<and> small_pages V m' root) \<or>
    out_of_pages V root (map_loop opts root phy virt count i m) \<and> pages_left (pm_alloc m) < 3 * (count - i)"
  using assms(4-6)
proof (induction "count - i" arbitrary: i m)
  case 0
  then show ?case by (subst (1 2) map_loop.simps) simp
next
  case (Suc k)
  then have i: "i < count" "k = count - Suc i" "count - Suc i < 512" by linarith+
  let ?va = "virt + i * PAGE_SIZE" and ?pa = "phy + i * PAGE_SIZE"
  note pg = mappable_page [OF assms(1) i(1) assms(2)]
  have step: "map_loop opts root phy virt count i m =
      bind_outcome (map_page opts root ?pa ?va (count - i) m) (\<lambda>(m', n). map_loop opts root phy virt count (i + n) m')"
    using mappable_address [OF assms(1) i(1) assms(2, 3)] i(1) by (subst map_loop.simps) simp
  have "i * PAGE_SIZE < count * PAGE_SIZE" using i(1) by simp
  then have "?va \<in> V" using assms(7) by auto
  from map_page_progress [OF Suc.prems(2, 3, 1) pg(1) this, of opts]
  show ?case
  proof
    assume "\<exists>m'. map_page opts root ?pa ?va (count - i) m = Ok (m', 1) \<and> small_pages V m' root \<and>
        pages_left (pm_alloc m) \<le> pages_left (pm_alloc m') + 3"
    then obtain m' where m': "map_page opts root ?pa ?va (count - i) m = Ok (m', 1)" "small_pages V m' root"
      "pages_left (pm_alloc m) \<le> pages_left (pm_alloc m') + 3" by blast
    then have "pt_inv m' root" using map_page_correct [OF m'(1) Suc.prems(2) pg(1, 2)] i(1) by simp
    moreover have "3 * (count - i) = 3 * (count - Suc i) + 3" using i(1) by linarith
    ultimately show ?thesis using Suc.hyps(1) [OF i(2, 3) _ m'(2)] step m'(1, 3) by auto
  next
    assume "out_of_pages V root (map_page opts root ?pa ?va (count - i) m) \<and> pages_left (pm_alloc m) < 3"
    then show ?thesis using i(1) unfolding step by (intro disjI2 conjI out_of_pages_bind) auto
  qed
qed

lemma map_range_progress:
  assumes "mappable phy virt count" "virt mod PAGE_SIZE = 0" "virt < usize_bound" "count < 512"
    "tag_matches pt (virt div 2 ^ 48)" "pt_inv m (level0_phy_addr pt)" "small_pages V m (level0_phy_addr pt)"
    "{virt ..< virt + count * PAGE_SIZE} \<subseteq> V"
  shows "(\<exists>m'. map_range pt phy virt count True opts m = Ok (m', pt\<lparr>pt_modified := True\<rparr>) \<and>
      small_pages V m' (level0_phy_addr pt)) \<or>
    out_of_pages V (level0_phy_addr pt) (map_range pt phy virt count True opts m) \<and>
      pages_left (pm_alloc m) < 3 * count"
proof -
  obtain tag i0 i1 i2 i3 where parts: "to_parts virt = (tag, i0, i1, i2, i3, virt mod PAGE_SIZE)"
    and tag: "tag = virt div 2 ^ 48 mod 2 ^ 16"
    using parts_indices [of virt] by metis
  have "virt div 2 ^ 48 < 2 ^ 16" using assms(3) by (simp add: div_less_iff_less_mult)
  then have ok: "tag_matches pt tag" using assms(5) tag by simp
  have eq: "map_range pt phy virt count True opts m =
      bind_outcome (map_loop opts (level0_phy_addr pt) phy virt count 0 m) (\<lambda>m'. Ok (m', pt\<lparr>pt_modified := True\<rparr>))"
    using assms(2) ok unfolding map_range_def parts prod.case by simp
  have "count - 0 < 512" using assms(4) by simp
  from map_loop_progress [OF assms(1-3) this assms(6-8), of opts]
  show ?thesis unfolding eq by (auto intro: out_of_pages_bind)
qed

section \<open>Unmapping of single pages\<close>

lemma unmap_levels_page:
  assumes "pt_inv m root" "table_at m root rp = Some t" "length rp + length is = 4" "\<forall>i\<in>set is. i < 512"
    "walk m (length rp) t is = Some (3, e)" "levels = map (\<lambda>(l, i). (l, i, sz l)) (zip [length rp..<4] is)"
    "sz 3 = 1"
  shows "\<exists>rq u. table_at m root rq = Some u \<and> length rq = 3 \<and> rev rq @ [last is] = rev rp @ is \<and>
    entry_of m u (last is) = Some e \<and>
    unmap_levels va levels t m = Ok (write_entry m u (last is) invalid_entry, 1,
      Some \<lparr>base_phys_addr = the (base_address e 3), base_virt_addr = va, region_page_count = 1\<rparr>)"
  using assms(2-6)
proof (induction "is" arbitrary: rp t levels)
  case (Cons i "is")
  have lt: "length rp < 4" using Cons.prems(2) by simp
  then have lv: "levels = (length rp, i, sz (length rp)) # map (\<lambda>(l, i). (l, i, sz l)) (zip [length (i # rp)..<4] is)"
    using Cons.prems(5) by (simp add: upt_conv_Cons)
  obtain d where d: "entry_of m t i = Some d" using table_entry [OF assms(1) Cons.prems(1)] Cons.prems(3) by auto
  then have r: "read_entry m t i = Ok d" by (simp add: read_entry_iff)
  show ?case
  proof (cases "table_ref d (length rp)")
    case (Some u)
    then have u: "table_at m root (i # rp) = Some u" using Cons.prems(1) d by (simp add: next_table_def)
    then have "is \<noteq> []" using table_at_length [OF u] Cons.prems(2) by auto
    then show ?thesis
      using Cons.IH [of "i # rp" u] Cons.prems(2-4) Some d r u by (simp add: lv)
  next
    case None
    then have e: "length rp = 3" "d = e" "base_address e 3 \<noteq> None"
      using Cons.prems(4) d by (auto split: if_splits)
    then have "is = []" using Cons.prems(2) by simp
    then show ?thesis using e None r d Cons.prems(1) assms(7) by (auto simp: lv intro!: exI [of _ rp])
  qed
qed simp

text \<open>A page is mapped by a level 3 descriptor with these contents.\<close>

definition page_at :: "pt_mem \<Rightarrow> physical_address \<Rightarrow> virtual_address \<Rightarrow> pte option" where
  "page_at m root va = (case walk m 0 root (indices va) of Some (l, e) \<Rightarrow> if l = 3 then Some e else None | None \<Rightarrow> None)"

lemma page_at_Some: "page_at m root va = Some e \<longleftrightarrow> walk m 0 root (indices va) = Some (3, e)"
  by (auto simp: page_at_def split: option.splits)

lemma unmap_page_single:
  assumes "pt_inv m root" "page_at m root va = Some e"
  shows "\<exists>m'. unmap_page root va m = Ok (m', 1,
      Some \<lparr>base_phys_addr = the (base_address e 3), base_virt_addr = va, region_page_count = 1\<rparr>) \<and>
    pt_inv m' root \<and> pm_alloc m' = pm_alloc m \<and> (small_pages V m root \<longrightarrow> small_pages V m' root) \<and>
    (\<forall>rp. table_at m' root rp = table_at m root rp) \<and>
    (\<forall>is. length is = 4 \<longrightarrow> walk m' 0 root is = (if is = indices va then None else walk m 0 root is))"
proof -
  obtain tag i0 i1 i2 i3 where parts: "to_parts va = (tag, i0, i1, i2, i3, va mod PAGE_SIZE)"
    and idx: "indices va = [i0, i1, i2, i3]" and lt: "i0 < 512" "i1 < 512" "i2 < 512" "i3 < 512"
    using parts_indices [of va] by metis
  have w: "walk m (length ([] :: nat list)) root (indices va) = Some (3, e)" using assms(2) by (simp add: page_at_Some)
  let ?sz = "\<lambda>l :: nat. if l = 0 then 0 else if l = 1 then 512 * 512 else if l = 2 then 512 else 1"
  let ?levels = "[(0, i0, 0), (1, i1, 512 * 512), (2, i2, 512), (3, i3, 1)]"
  have levels: "?levels = map (\<lambda>(l, i). (l, i, ?sz l)) (zip [length ([] :: nat list)..<4] (indices va))"
    by (simp add: idx upt_rec)
  have sz3: "?sz 3 = 1" by simp
  have lt4: "length ([] :: nat list) + length (indices va) = 4" "\<forall>i\<in>set (indices va). i < 512"
    by (simp_all add: idx lt)
  have root: "table_at m root [] = Some root" by simp
  have la: "last (indices va) = i3" by (simp add: idx)
  obtain rq u where u: "table_at m root rq = Some u" "length rq = 3" "rev rq @ [i3] = indices va"
    "entry_of m u i3 = Some e" "unmap_levels va ?levels root m = Ok (write_entry m u i3 invalid_entry, 1,
      Some \<lparr>base_phys_addr = the (base_address e 3), base_virt_addr = va, region_page_count = 1\<rparr>)"
    using unmap_levels_page [where sz = ?sz, OF assms(1) root lt4 w levels sz3, of va] unfolding la by auto
  have none: "next_table m (length rq) u i3 = None" "table_ref invalid_entry (length rq) = None"
    using u(2, 4) by (simp_all add: next_table_def)
  have "walk (write_entry m u i3 invalid_entry) 0 root is = (if is = indices va then None else walk m 0 root is)"
    if "length is = 4" for "is"
    using walk_write [OF assms(1) u(1) _ none root, of "is"] that u(2-4) by (simp add: invalid_entry_def)
  moreover have "unmap_page root va m = unmap_levels va ?levels root m" unfolding unmap_page_def parts prod.case ..
  ultimately show ?thesis
    using u(5) pt_inv_write [OF assms(1) u(1) none] small_pages_write_page [OF assms(1) u(1, 2)]
      table_at_write [OF assms(1) u(1) none] by simp
qed

lemma indices_eq_iff:
  assumes "va div 2 ^ 48 = vb div 2 ^ 48"
  shows "indices va = indices vb \<longleftrightarrow> va div PAGE_SIZE = vb div PAGE_SIZE"
proof -
  have "take (Suc 3) (indices va) = indices va" "take (Suc 3) (indices vb) = indices vb" "entry_span 3 = PAGE_SIZE"
    by (simp_all add: indices_def PAGE_SIZE_def)
  then show ?thesis using indices_prefix_iff [OF assms, of 3] by simp
qed

text \<open>A page-aligned range that stays in one half of the address space.\<close>

definition page_range :: "virtual_address \<Rightarrow> nat \<Rightarrow> bool" where
  "page_range virt count \<longleftrightarrow> virt mod PAGE_SIZE = 0 \<and> virt < usize_bound \<and>
     virt div 2 ^ 48 = (virt + count * PAGE_SIZE - 1) div 2 ^ 48"

lemma page_rangeD:
  assumes "page_range virt count" "i < count"
  shows "(virt + i * PAGE_SIZE) div 2 ^ 48 = virt div 2 ^ 48" "virt + i * PAGE_SIZE < usize_bound"
    "i * PAGE_SIZE < usize_bound" "(virt + i * PAGE_SIZE) div PAGE_SIZE = virt div PAGE_SIZE + i"
    "va div PAGE_SIZE = virt div PAGE_SIZE + i \<longleftrightarrow> virt + i * PAGE_SIZE \<le> va \<and> va < virt + Suc i * PAGE_SIZE"
proof -
  have r: "virt mod PAGE_SIZE = 0" "virt < usize_bound" "virt div 2 ^ 48 = (virt + count * PAGE_SIZE - 1) div 2 ^ 48"
    using assms(1) unfolding page_range_def by blast+
  have lt: "i * PAGE_SIZE < count * PAGE_SIZE" using assms(2) by simp
  show d: "(virt + i * PAGE_SIZE) div 2 ^ 48 = virt div 2 ^ 48"
    by (rule div_between [OF r(3)]) (use lt in linarith)+
  show "virt + i * PAGE_SIZE < usize_bound" by (rule div_less_bound [OF d r(2)]) simp
  then show "i * PAGE_SIZE < usize_bound" by linarith
  show e: "(virt + i * PAGE_SIZE) div PAGE_SIZE = virt div PAGE_SIZE + i" by simp
  show "va div PAGE_SIZE = virt div PAGE_SIZE + i \<longleftrightarrow> virt + i * PAGE_SIZE \<le> va \<and> va < virt + Suc i * PAGE_SIZE"
    using aligned_range_iff [of "virt + i * PAGE_SIZE" PAGE_SIZE va] r(1) unfolding e by (simp add: ac_simps)
qed

definition page_region :: "virtual_address \<Rightarrow> pte \<Rightarrow> mapped_region" where
  "page_region va e = \<lparr>base_phys_addr = the (base_address e 3), base_virt_addr = va, region_page_count = 1\<rparr>"

lemma unmap_loop_pages:
  assumes "page_range virt count" "pt_inv m root"
    "\<forall>k. i \<le> k \<and> k < count \<longrightarrow> page_at m root (virt + k * PAGE_SIZE) = Some (e k)"
  shows "\<exists>m'. unmap_loop root virt count i m =
      Ok (m', map (\<lambda>k. page_region (virt + k * PAGE_SIZE) (e k)) [i..<count]) \<and>
    pt_inv m' root \<and> pm_alloc m' = pm_alloc m \<and> (small_pages V m root \<longrightarrow> small_pages V m' root) \<and>
    (\<forall>rp. table_at m' root rp = table_at m root rp) \<and>
    (\<forall>va. va div 2 ^ 48 = virt div 2 ^ 48 \<longrightarrow> walk m' 0 root (indices va) =
      (if virt + i * PAGE_SIZE \<le> va \<and> va < virt + count * PAGE_SIZE then None else walk m 0 root (indices va)))"
  using assms(2, 3)
proof (induction "count - i" arbitrary: i m)
  case 0
  then have "count * PAGE_SIZE \<le> i * PAGE_SIZE" by simp
  then have "\<not> (virt + i * PAGE_SIZE \<le> va \<and> va < virt + count * PAGE_SIZE)" for va by linarith
  then show ?case using 0 by (subst unmap_loop.simps) auto
next
  case (Suc j)
  then have i: "i < count" "j = count - Suc i" by linarith+
  let ?va = "virt + i * PAGE_SIZE"
  note pr = page_rangeD [OF assms(1) i(1)]
  obtain m1 where m1: "unmap_page root ?va m = Ok (m1, 1, Some (page_region ?va (e i)))" "pt_inv m1 root"
    "pm_alloc m1 = pm_alloc m" "small_pages V m root \<longrightarrow> small_pages V m1 root"
    "\<forall>rp. table_at m1 root rp = table_at m root rp" "\<And>is. length is = 4 \<Longrightarrow> walk m1 0 root is = (if is = indices ?va then None else walk m 0 root is)"
    using unmap_page_single [where V = V, OF Suc.prems(1), of ?va "e i"] Suc.prems(2) i(1) by (auto simp: page_region_def)
  have len: "length (indices va) = 4" for va by (simp add: indices_def)
  have w1: "walk m1 0 root (indices va) =
      (if ?va \<le> va \<and> va < virt + Suc i * PAGE_SIZE then None else walk m 0 root (indices va))"
    if "va div 2 ^ 48 = virt div 2 ^ 48" for va
    using indices_eq_iff [of va ?va] that pr(1) unfolding m1(6) [OF len] pr(4) pr(5) by simp
  have "page_at m1 root (virt + k * PAGE_SIZE) = Some (e k)" if "Suc i \<le> k" "k < count" for k
  proof -
    have "Suc i * PAGE_SIZE \<le> k * PAGE_SIZE" using that(1) by (rule mult_le_mono1)
    then have "\<not> virt + k * PAGE_SIZE < virt + Suc i * PAGE_SIZE" by linarith
    then show ?thesis
      using w1 [OF page_rangeD(1) [OF assms(1) that(2)]] Suc.prems(2) that by (simp add: page_at_Some)
  qed
  then obtain m2 where m2: "unmap_loop root virt count (Suc i) m1 =
      Ok (m2, map (\<lambda>k. page_region (virt + k * PAGE_SIZE) (e k)) [Suc i..<count])" "pt_inv m2 root"
    "pm_alloc m2 = pm_alloc m1" "small_pages V m1 root \<longrightarrow> small_pages V m2 root"
    "\<forall>rp. table_at m2 root rp = table_at m1 root rp" "\<And>va. va div 2 ^ 48 = virt div 2 ^ 48 \<Longrightarrow> walk m2 0 root (indices va) =
      (if virt + Suc i * PAGE_SIZE \<le> va \<and> va < virt + count * PAGE_SIZE then None else walk m1 0 root (indices va))"
    using Suc.hyps(1) [OF i(2) m1(2)] by blast
  have "Suc i * PAGE_SIZE \<le> count * PAGE_SIZE" using i(1) by (intro mult_le_mono1) simp
  then have "walk m2 0 root (indices va) =
      (if ?va \<le> va \<and> va < virt + count * PAGE_SIZE then None else walk m 0 root (indices va))"
    if "va div 2 ^ 48 = virt div 2 ^ 48" for va
    using m2(6) [OF that] w1 [OF that] by auto
  moreover have "unmap_loop root virt count i m =
      Ok (m2, map (\<lambda>k. page_region (virt + k * PAGE_SIZE) (e k)) [i..<count])"
    using i(1) pr(2, 3) m1(1) m2(1) by (subst unmap_loop.simps) (simp add: upt_conv_Cons)
  ultimately show ?case using m2(2-5) m1(3-5) by simp
qed

lemma mmu_translate_cong:
  "walk m' 0 root (indices va) = walk m 0 root (indices va) \<Longrightarrow> mmu_translate m' root va = mmu_translate m root va"
  by (simp add: mmu_translate_def)

lemma unmap_range_custom_pages:
  assumes "page_range virt count" "pt_inv m (level0_phy_addr pt)"
    "\<forall>k<count. page_at m (level0_phy_addr pt) (virt + k * PAGE_SIZE) = Some (e k)"
  shows "\<exists>m'. unmap_range_custom pt virt count m =
      Ok (m', pt\<lparr>pt_modified := True\<rparr>, map (\<lambda>k. page_region (virt + k * PAGE_SIZE) (e k)) [0..<count]) \<and>
    pt_inv m' (level0_phy_addr pt) \<and> pm_alloc m' = pm_alloc m \<and>
    (small_pages V m (level0_phy_addr pt) \<longrightarrow> small_pages V m' (level0_phy_addr pt)) \<and>
    (\<forall>rp. table_at m' (level0_phy_addr pt) rp = table_at m (level0_phy_addr pt) rp) \<and>
    (\<forall>va. va div 2 ^ 48 = virt div 2 ^ 48 \<longrightarrow> mmu_translate m' (level0_phy_addr pt) va =
      (if virt \<le> va \<and> va < virt + count * PAGE_SIZE then None else mmu_translate m (level0_phy_addr pt) va))"
proof -
  obtain m' where m': "unmap_loop (level0_phy_addr pt) virt count 0 m =
      Ok (m', map (\<lambda>k. page_region (virt + k * PAGE_SIZE) (e k)) [0..<count])" "pt_inv m' (level0_phy_addr pt)"
    "pm_alloc m' = pm_alloc m" "small_pages V m (level0_phy_addr pt) \<longrightarrow> small_pages V m' (level0_phy_addr pt)"
    "\<forall>rp. table_at m' (level0_phy_addr pt) rp = table_at m (level0_phy_addr pt) rp" "\<And>va. va div 2 ^ 48 = virt div 2 ^ 48 \<Longrightarrow> walk m' 0 (level0_phy_addr pt) (indices va) =
      (if virt \<le> va \<and> va < virt + count * PAGE_SIZE then None else walk m 0 (level0_phy_addr pt) (indices va))"
    using unmap_loop_pages [where V = V, OF assms(1, 2), of 0 e] assms(3) by auto
  have "mmu_translate m' (level0_phy_addr pt) va =
      (if virt \<le> va \<and> va < virt + count * PAGE_SIZE then None else mmu_translate m (level0_phy_addr pt) va)"
    if "va div 2 ^ 48 = virt div 2 ^ 48" for va
    using m'(6) [OF that] by (simp add: mmu_translate_def)
  then show ?thesis using m'(1-5) by (simp add: unmap_range_custom_def)
qed

section \<open>Teardown\<close>

text \<open>
  \<open>drop_table\<close> with the number of levels below the table, \<open>3 - lvl\<close>, as the recursion argument. The
  entries are read while tables below are already freed; freeing does not touch their contents.
\<close>

fun drop_entries :: "(pte \<Rightarrow> pt_mem \<Rightarrow> pt_mem pt_outcome) \<Rightarrow> pte list \<Rightarrow> pt_mem \<Rightarrow> pt_mem pt_outcome" where
  "drop_entries f [] m = Ok m"
| "drop_entries f (e # es) m = bind_outcome (f e m) (drop_entries f es)"

definition free_table :: "physical_address \<Rightarrow> pt_mem \<Rightarrow> pt_mem pt_outcome" where
  "free_table t m =
     bind_outcome (map_outcome_err (\<lambda>e. (e, m)) (free_page t (pm_alloc m))) (\<lambda>p. Ok (m\<lparr>pm_alloc := p\<rparr>))"

fun drop_table :: "nat \<Rightarrow> physical_address \<Rightarrow> pt_mem \<Rightarrow> pt_mem pt_outcome" where
  "drop_table 0 t m = (case pm_tables m t of None \<Rightarrow> Panic | Some _ \<Rightarrow> free_table t m)"
| "drop_table (Suc n) t m =
     (case pm_tables m t of
        None \<Rightarrow> Panic
      | Some entries \<Rightarrow>
          bind_outcome (drop_entries (\<lambda>e m. case table_ref e (2 - n) of
                          Some _ \<Rightarrow> (case table_phy_addr e of Some u \<Rightarrow> drop_table n u m | None \<Rightarrow> Panic)
                        | None \<Rightarrow> Ok m) entries m)
            (free_table t))"

definition pt_drop :: "page_table \<Rightarrow> pt_mem \<Rightarrow> pt_mem pt_outcome" where
  "pt_drop pt m = drop_table 3 (level0_phy_addr pt) m"

definition tables_in_ram :: "pt_mem \<Rightarrow> physical_address \<Rightarrow> bool" where
  "tables_in_ram m root \<longleftrightarrow> (\<forall>rp t. table_at m root rp = Some t \<longrightarrow> pma_region (pm_alloc m) t 1)"

definition frees :: "physical_address set \<Rightarrow> pt_mem \<Rightarrow> pt_mem pt_outcome \<Rightarrow> bool" where
  "frees ts m r \<longleftrightarrow> (\<exists>m'. r = Ok m' \<and> pm_tables m' = pm_tables m \<and> pma_inv (pm_alloc m') \<and>
     (\<forall>b k. pma_region (pm_alloc m') b k = pma_region (pm_alloc m) b k) \<and>
     pma_free_set (pm_alloc m') = pma_free_set (pm_alloc m) \<union> (\<Union>t\<in>ts. region t 1))"

lemma frees_none: "pma_inv (pm_alloc m) \<Longrightarrow> frees {} m (Ok m)"
  by (simp add: frees_def)

lemma frees_bind:
  assumes "frees ts m r" "\<And>m'. pm_tables m' = pm_tables m \<Longrightarrow> pma_inv (pm_alloc m') \<Longrightarrow>
    \<forall>b k. pma_region (pm_alloc m') b k = pma_region (pm_alloc m) b k \<Longrightarrow> frees us m' (f m')"
  shows "frees (ts \<union> us) m (bind_outcome r f)"
proof -
  obtain m' where m': "r = Ok m'" "pm_tables m' = pm_tables m" "pma_inv (pm_alloc m')"
    "\<forall>b k. pma_region (pm_alloc m') b k = pma_region (pm_alloc m) b k"
    "pma_free_set (pm_alloc m') = pma_free_set (pm_alloc m) \<union> (\<Union>t\<in>ts. region t 1)"
    using assms(1) unfolding frees_def by blast
  from assms(2) [OF m'(2-4)] show ?thesis using m' by (auto simp: frees_def)
qed

lemma frees_table:
  assumes "pma_inv (pm_alloc m)" "pma_region (pm_alloc m) t 1"
  shows "frees {t} m (free_table t m)"
proof -
  obtain i where i: "t = memory_start (pm_alloc m) + i * PAGE_SIZE" "i + 1 \<le> length (allocated_pages (pm_alloc m))"
    using assms(2) by (auto simp: pma_region_def)
  then have "free_table t m = Ok (m\<lparr>pm_alloc := mark_pages (pm_alloc m) i 1 False\<rparr>)"
    using free_pages_eq [OF assms(1) i(2)] by (simp add: free_table_def free_page_def)
  then show ?thesis
    using i mark_pages_inv [OF assms(1)] free_set_mark_False [OF i(2)] by (auto simp: frees_def pma_region_def)
qed

lemma drop_entries_frees:
  assumes "pma_inv (pm_alloc m)"
    "\<And>e m'. e \<in> set es \<Longrightarrow> pm_tables m' = pm_tables m \<Longrightarrow> pma_inv (pm_alloc m') \<Longrightarrow>
      \<forall>b k. pma_region (pm_alloc m') b k = pma_region (pm_alloc m) b k \<Longrightarrow> frees (us e) m' (f e m')"
  shows "frees (\<Union>e\<in>set es. us e) m (drop_entries f es m)"
  using assms
proof (induction es arbitrary: m)
  case Nil
  then show ?case by (simp add: frees_none)
next
  case (Cons e es)
  have "frees (us e) m (f e m)" using Cons.prems by simp
  moreover have "frees (\<Union>e\<in>set es. us e) m' (drop_entries f es m')"
    if "pm_tables m' = pm_tables m" "pma_inv (pm_alloc m')"
      "\<forall>b k. pma_region (pm_alloc m') b k = pma_region (pm_alloc m) b k" for m'
    by (rule Cons.IH) (use that Cons.prems in auto)
  ultimately show ?case using frees_bind by simp
qed

text \<open>The tables at and below the one at a path.\<close>

definition tables_below :: "pt_mem \<Rightarrow> physical_address \<Rightarrow> nat list \<Rightarrow> physical_address set" where
  "tables_below m root rp = {u. \<exists>rq. table_at m root (rq @ rp) = Some u}"

lemma tables_below_leaf: "table_at m root rp = Some t \<Longrightarrow> length rp = 3 \<Longrightarrow> tables_below m root rp = {t}"
proof -
  assume t: "table_at m root rp = Some t" "length rp = 3"
  have "u = t" if "table_at m root (rq @ rp) = Some u" for rq u
  proof -
    have "rq = []" using table_at_length [OF that] t(2) by simp
    then show ?thesis using that t(1) by simp
  qed
  moreover have "table_at m root ([] @ rp) = Some t" using t(1) by simp
  ultimately show "tables_below m root rp = {t}" unfolding tables_below_def by blast
qed

lemma tables_below_unfold:
  assumes "table_at m root rp = Some t" "pm_tables m t = Some entries"
  shows "tables_below m root rp = insert t (\<Union>i\<in>{i. i < length entries \<and> table_ref (entries ! i) (length rp) \<noteq> None}.
    tables_below m root (i # rp))"
proof (intro equalityI subsetI)
  fix u
  assume "u \<in> tables_below m root rp"
  then obtain rq where rq: "table_at m root (rq @ rp) = Some u" by (auto simp: tables_below_def)
  show "u \<in> insert t (\<Union>i\<in>{i. i < length entries \<and> table_ref (entries ! i) (length rp) \<noteq> None}. tables_below m root (i # rp))"
  proof (cases rq rule: rev_cases)
    case Nil
    then show ?thesis using rq assms(1) by simp
  next
    case (snoc rq' i)
    then obtain v where "table_at m root (i # rp) = Some v" using table_at_suffix [of m root rq' "i # rp"] rq by auto
    then have "i < length entries \<and> table_ref (entries ! i) (length rp) \<noteq> None"
      using assms by (auto simp: next_table_def entry_of_def split: if_splits)
    then show ?thesis using rq snoc by (auto simp: tables_below_def)
  qed
next
  fix u
  assume "u \<in> insert t (\<Union>i\<in>{i. i < length entries \<and> table_ref (entries ! i) (length rp) \<noteq> None}. tables_below m root (i # rp))"
  then consider "u = t" | i rq where "table_at m root (rq @ i # rp) = Some u" by (auto simp: tables_below_def)
  then show "u \<in> tables_below m root rp"
  proof cases
    case 1
    then have "table_at m root ([] @ rp) = Some u" using assms(1) by simp
    then show ?thesis unfolding tables_below_def by blast
  next
    case 2
    then have "table_at m root ((rq @ [i]) @ rp) = Some u" by simp
    then show ?thesis unfolding tables_below_def by blast
  qed
qed

lemma drop_table_frees:
  assumes "pt_inv m root" "tables_in_ram m root" "table_at m root rp = Some t" "length rp + n = 3"
    "pm_tables m' = pm_tables m" "pma_inv (pm_alloc m')" "\<forall>b k. pma_region (pm_alloc m') b k = pma_region (pm_alloc m) b k"
  shows "frees (tables_below m root rp) m' (drop_table n t m')"
  using assms(3-7)
proof (induction n arbitrary: rp t m')
  case 0
  have "pma_region (pm_alloc m') t 1"
    using 0(5) assms(2) [unfolded tables_in_ram_def, rule_format, OF 0(1)] by simp
  moreover obtain es where "pm_tables m t = Some es" using pt_invD(2) [OF assms(1) 0(1)] by blast
  moreover have "tables_below m root rp = {t}" by (rule tables_below_leaf [OF 0(1)]) (use 0(2) in simp)
  ultimately show ?case using frees_table [OF 0(4)] 0(3) by simp
next
  case (Suc n)
  obtain es where es: "pm_tables m t = Some es" using pt_invD(2) [OF assms(1) Suc.prems(1)] by blast
  have lvl: "2 - n = length rp" using Suc.prems(2) by simp
  define f where "f = (\<lambda>e m. case table_ref e (2 - n) of
      Some _ \<Rightarrow> (case table_phy_addr e of Some u \<Rightarrow> drop_table n u m | None \<Rightarrow> Panic) | None \<Rightarrow> Ok m)"
  define us where "us = (\<lambda>e. \<Union>i\<in>{i. i < length es \<and> es ! i = e \<and> table_ref e (length rp) \<noteq> None}. tables_below m root (i # rp))"
  have "frees (us e) m'' (f e m'')" if e: "e \<in> set es" and m'': "pm_tables m'' = pm_tables m'" "pma_inv (pm_alloc m'')"
    "\<forall>b k. pma_region (pm_alloc m'') b k = pma_region (pm_alloc m') b k" for e m''
  proof (cases "table_ref e (length rp)")
    case None
    then show ?thesis using frees_none [OF m''(2)] by (simp add: f_def us_def lvl)
  next
    case (Some u)
    then have u: "table_phy_addr e = Some u" by (simp add: table_ref_def split: if_splits)
    have at: "table_at m root (j # rp) = Some u" if "j < length es" "es ! j = e" for j
      using that Some Suc.prems(1) es by (simp add: next_table_def entry_of_def)
    obtain i where i: "i < length es" "es ! i = e" using e by (auto simp: in_set_conv_nth)
    have uniq: "j = i" if "j < length es" "es ! j = e" for j
      using pt_invD(4) [OF assms(1) at [OF i] at [OF that]] by simp
    have "table_ref e (length rp) \<noteq> None" using Some by simp
    then have "{j. j < length es \<and> es ! j = e \<and> table_ref e (length rp) \<noteq> None} = {i}" using i uniq by blast
    then have "us e = tables_below m root (i # rp)" by (simp add: us_def)
    moreover have "frees (tables_below m root (i # rp)) m'' (drop_table n u m'')"
      by (rule Suc.IH [OF at [OF i]]) (use Suc.prems m'' in simp_all)
    ultimately show ?thesis using Some u by (simp add: f_def lvl)
  qed
  then have "frees (\<Union>e\<in>set es. us e) m' (drop_entries f es m')"
    by (rule drop_entries_frees [OF Suc.prems(4)])
  moreover have "frees {t} m'' (free_table t m'')" if "pma_inv (pm_alloc m'')"
    "\<forall>b k. pma_region (pm_alloc m'') b k = pma_region (pm_alloc m') b k" for m''
  proof (rule frees_table [OF that(1)])
    show "pma_region (pm_alloc m'') t 1"
      using that(2) Suc.prems(5) assms(2) [unfolded tables_in_ram_def, rule_format, OF Suc.prems(1)] by simp
  qed
  ultimately have "frees ((\<Union>e\<in>set es. us e) \<union> {t}) m' (bind_outcome (drop_entries f es m') (free_table t))"
    by (rule frees_bind)
  moreover have "(\<Union>e\<in>set es. us e) \<union> {t} = tables_below m root rp"
  proof -
    have "(\<Union>e\<in>set es. us e) =
        (\<Union>i\<in>{i. i < length es \<and> table_ref (es ! i) (length rp) \<noteq> None}. tables_below m root (i # rp))"
      unfolding us_def by (blast intro: nth_mem)
    then show ?thesis using tables_below_unfold [OF Suc.prems(1) es] by simp
  qed
  ultimately show ?case unfolding drop_table.simps(2) Suc.prems(3) es f_def option.case by simp
qed

section \<open>A fresh table\<close>

lemma zero_root:
  assumes "pm_tables m root = Some (replicate 512 0)"
  shows "table_at m root rp = (if rp = [] then Some root else None)" "walk m 0 root is = None"
proof -
  show "table_at m root rp = (if rp = [] then Some root else None)"
  proof (induction rp)
    case (Cons i rp)
    then show ?case using assms by (auto simp: next_table_def entry_of_def)
  qed simp
  show "walk m 0 root is = None" by (rule walk_zero_table [OF assms])
qed

lemma pt_inv_zero_root:
  assumes "pm_tables m root = Some (replicate 512 0)" "pma_inv (pm_alloc m)" "PAGE_SIZE dvd memory_start (pm_alloc m)"
    "memory_start (pm_alloc m) + length (allocated_pages (pm_alloc m)) * PAGE_SIZE \<le> 2 ^ 48"
    "root \<notin> pma_free_set (pm_alloc m)" "pma_region (pm_alloc m) root 1"
  shows "pt_inv m root" "small_pages V m root" "tables_in_ram m root" "mmu_translate m root va = None"
proof -
  note z = zero_root [OF assms(1)]
  show "pt_inv m root" unfolding pt_inv_def z using assms by simp
  show "small_pages V m root" unfolding small_pages_def z using assms(1) by (auto simp: entry_of_def)
  show "tables_in_ram m root" unfolding tables_in_ram_def z using assms(6) by simp
  show "mmu_translate m root va = None" by (simp add: mmu_translate_def z)
qed

lemma pt_empty_fresh:
  assumes "pma_inv (pm_alloc m)" "PAGE_SIZE dvd memory_start (pm_alloc m)"
    "memory_start (pm_alloc m) + length (allocated_pages (pm_alloc m)) * PAGE_SIZE \<le> 2 ^ 48"
    "pt_empty high asid_no m = Ok (m', pt)"
  shows "pt = \<lparr>high_addresses = high, pt_modified = False, asid = asid_no, level0_phy_addr = level0_phy_addr pt\<rparr>"
    "pt_inv m' (level0_phy_addr pt)" "small_pages V m' (level0_phy_addr pt)" "tables_in_ram m' (level0_phy_addr pt)"
    "mmu_translate m' (level0_phy_addr pt) va = None" "pages_left (pm_alloc m) = Suc (pages_left (pm_alloc m'))"
proof -
  obtain p a where a: "alloc_contig 1 (pm_alloc m) = Ok (p, a)"
    and pt: "pt = \<lparr>high_addresses = high, pt_modified = False, asid = asid_no, level0_phy_addr = a\<rparr>"
    and m': "m' = m\<lparr>pm_alloc := p, pm_tables := (pm_tables m)(a \<mapsto> replicate 512 0)\<rparr>"
    using assms(4) by (auto simp: pt_empty_def allocate_table_def alloc_page_def outcome_simps map_outcome_err_iff)
  note law = pma.alloc_law [OF assms(1) _ a] and c = alloc_contig_Ok [OF a assms(1)]
  obtain s where s: "free_run (allocated_pages (pm_alloc m)) s 1" "p = mark_pages (pm_alloc m) s 1 True" using c by auto
  have start: "memory_start p = memory_start (pm_alloc m)" "length (allocated_pages p) = length (allocated_pages (pm_alloc m))"
    using s by (simp_all add: free_run_def)
  have "a \<in> region a 1" by (simp add: region_def)
  then have "a \<notin> pma_free_set p" using law by auto
  then show "pt_inv m' (level0_phy_addr pt)" "small_pages V m' (level0_phy_addr pt)" "tables_in_ram m' (level0_phy_addr pt)"
    "mmu_translate m' (level0_phy_addr pt) va = None"
    using pt_inv_zero_root [of m' a] assms(2, 3) law start by (simp_all add: pt m')
  show "pt = \<lparr>high_addresses = high, pt_modified = False, asid = asid_no, level0_phy_addr = level0_phy_addr pt\<rparr>"
    by (simp add: pt)
  show "pages_left (pm_alloc m) = Suc (pages_left (pm_alloc m'))"
    using pages_left_mark [of s "pm_alloc m"] s by (simp add: m' free_run_def)
qed

section \<open>Lookup\<close>

lemma base_address_bounds:
  assumes "base_address e l = Some a"
  shows "a < 2 ^ 48" "a mod PAGE_SIZE = 0"
proof -
  let ?w = "push_bit 12 (get_field 47 12 e)"
  have a: "a = unat ?w" using assms by (simp add: base_address_def pte_address_def split: if_splits)
  have "take_bit 48 ?w = ?w" by (rule bit_eqI) (auto simp: bit_take_bit_iff bit_push_bit_iff bit_get_field)
  then have "take_bit 48 a = a" unfolding a by (metis unsigned_take_bit_eq)
  then show "a < 2 ^ 48" by (metis take_bit_nat_less_exp)
  have "take_bit 12 ?w = 0" by (rule bit_eqI) (auto simp: bit_take_bit_iff bit_push_bit_iff)
  then have "take_bit 12 a = 0" unfolding a by (metis unsigned_take_bit_eq unsigned_0)
  then show "a mod PAGE_SIZE = 0" by (simp add: take_bit_eq_mod PAGE_SIZE_def)
qed

lemma physical_address_of_small:
  assumes "pt_inv m (level0_phy_addr pt)" "small_pages V m (level0_phy_addr pt)" "tag_matches pt (va div 2 ^ 48 mod 2 ^ 16)"
    "va \<in> V"
  shows "physical_address_of pt va m = Ok (map_option fst (mmu_translate m (level0_phy_addr pt) va))"
proof (cases "walk m 0 (level0_phy_addr pt) (indices va)")
  case None
  then show ?thesis using physical_address_of_walk [OF assms(1, 3)] by (simp add: mmu_translate_def)
next
  case (Some q)
  obtain l e where q: "q = (l, e)" by (cases q)
  have l: "l = 3" using small_pages_walk [OF assms(2, 4), of "[]"] Some q by simp
  obtain b where b: "base_address e 3 = Some b" using walk_end [OF Some [unfolded q]] l by auto
  have "va mod PAGE_SIZE < PAGE_SIZE" by simp
  then have "b + va mod PAGE_SIZE < usize_bound" using base_address_bounds(1) [OF b] by (simp add: PAGE_SIZE_def)
  moreover have "b div PAGE_SIZE * PAGE_SIZE = b" using base_address_bounds(2) [OF b] by auto
  moreover have "entry_span 3 = PAGE_SIZE" by (simp add: PAGE_SIZE_def)
  ultimately show ?thesis
    using physical_address_of_walk [OF assms(1, 3)] Some q l b by (simp add: mmu_translate_def)
qed

lemma page_at_translate:
  assumes "small_pages V m root" "mmu_translate m root va = Some (a, ro, el0)" "va mod PAGE_SIZE = 0"
    "va \<in> V"
  shows "\<exists>e. page_at m root va = Some e \<and> the (base_address e 3) = a"
proof -
  obtain l e where w: "walk m 0 root (indices va) = Some (l, e)"
    using assms(2) by (auto simp: mmu_translate_def split: option.splits)
  have l: "l = 3" using small_pages_walk [OF assms(1, 4), of "[]"] w by simp
  obtain b where b: "base_address e 3 = Some b" using walk_end [OF w] l by auto
  have "b div PAGE_SIZE * PAGE_SIZE = b" "entry_span 3 = PAGE_SIZE"
    using base_address_bounds(2) [OF b] by (auto simp: PAGE_SIZE_def)
  then show ?thesis using assms(2, 3) w l b by (auto simp: mmu_translate_def page_at_Some)
qed

lemma unmap_range_translated:
  assumes "pt_inv m (level0_phy_addr pt)" "small_pages V m (level0_phy_addr pt)" "page_range virt count"
    "{virt ..< virt + count * PAGE_SIZE} \<subseteq> V" "\<forall>k<count. mmu_translate m (level0_phy_addr pt) (virt + k * PAGE_SIZE) \<noteq> None"
  shows "\<exists>m'. unmap_range_custom pt virt count m =
      Ok (m', pt\<lparr>pt_modified := True\<rparr>, map (\<lambda>k.
        \<lparr>base_phys_addr = fst (the (mmu_translate m (level0_phy_addr pt) (virt + k * PAGE_SIZE))),
         base_virt_addr = virt + k * PAGE_SIZE, region_page_count = 1\<rparr>) [0..<count]) \<and>
    unmap_range pt virt count m = Ok (m', pt\<lparr>pt_modified := True\<rparr>) \<and>
    pt_inv m' (level0_phy_addr pt) \<and> small_pages V m' (level0_phy_addr pt) \<and> pm_alloc m' = pm_alloc m \<and>
    (\<forall>rp. table_at m' (level0_phy_addr pt) rp = table_at m (level0_phy_addr pt) rp) \<and>
    (\<forall>va. va div 2 ^ 48 = virt div 2 ^ 48 \<longrightarrow> mmu_translate m' (level0_phy_addr pt) va =
      (if virt \<le> va \<and> va < virt + count * PAGE_SIZE then None else mmu_translate m (level0_phy_addr pt) va))"
proof -
  let ?tr = "\<lambda>k. mmu_translate m (level0_phy_addr pt) (virt + k * PAGE_SIZE)"
  have "\<exists>e. page_at m (level0_phy_addr pt) (virt + k * PAGE_SIZE) = Some e \<and> the (base_address e 3) = fst (the (?tr k))"
    if "k < count" for k
  proof -
    have "k * PAGE_SIZE < count * PAGE_SIZE" using that by simp
    then have "virt + k * PAGE_SIZE \<in> V" using assms(4) by auto
    then show ?thesis using page_at_translate [OF assms(2)] assms(3, 5) that by (fastforce simp: page_range_def)
  qed
  then obtain e where e: "\<forall>k<count. page_at m (level0_phy_addr pt) (virt + k * PAGE_SIZE) = Some (e k) \<and>
      the (base_address (e k) 3) = fst (the (?tr k))" by metis
  have regions: "map (\<lambda>k. page_region (virt + k * PAGE_SIZE) (e k)) [0..<count] = map (\<lambda>k.
      \<lparr>base_phys_addr = fst (the (?tr k)), base_virt_addr = virt + k * PAGE_SIZE, region_page_count = 1\<rparr>) [0..<count]"
    using e by (auto simp: page_region_def)
  have "\<forall>k<count. page_at m (level0_phy_addr pt) (virt + k * PAGE_SIZE) = Some (e k)" using e by blast
  from unmap_range_custom_pages [where V = V, OF assms(3, 1) this] show ?thesis
    unfolding regions using assms(2) by (force simp: unmap_range_def)
qed

text \<open>
  \<open>block_entry\<close> accepts base addresses that are not aligned to the block: 16 MiB at level 1, where a block
  spans 1 GiB. The memory management unit ignores the low bits, so such a block maps other memory.
\<close>

lemma block_entry_accepts_misaligned:
  "\<exists>b. block_entry 0x1000000 1 = Some b \<and> base_address (apply_options opts b) 1 = Some 0x1000000 \<and>
     0x1000000 div entry_span 1 * entry_span 1 = 0"
proof -
  have "and (0x1000000 :: nat) 0xffffff = 0" by simp
  then obtain b where b: "block_entry 0x1000000 1 = Some b" by (simp add: block_entry_def)
  have "page_addr_ok 0x1000000" by (simp add: page_addr_ok_def PAGE_SIZE_def dvd_def)
  from block_entry_decode(1) [OF this b] b show ?thesis by simp
qed

section \<open>Properties\<close>

text \<open>
  C9. Mapping fewer than 512 pages of a part \<open>V\<close> of the address space in which no block is mapped: \<open>map_range\<close> returns, and either
  every address of the range translates to the corresponding physical address with the requested
  permissions while every other translation is as before, or it reports \<open>OutOfMemory\<close> with no physical
  page left, which cannot happen while three pages per mapped page are free. The tables stay
  well-formed in both cases.
\<close>

theorem map_range_maps:
  assumes "pt_inv m (level0_phy_addr pt)" "small_pages V m (level0_phy_addr pt)" "mappable phy virt count"
    "virt mod PAGE_SIZE = 0" "virt < usize_bound" "count < 512" "tag_matches pt (virt div 2 ^ 48)"
    "{virt ..< virt + count * PAGE_SIZE} \<subseteq> V"
  shows "(\<exists>m'. map_range pt phy virt count True opts m = Ok (m', pt\<lparr>pt_modified := True\<rparr>) \<and>
       pt_inv m' (level0_phy_addr pt) \<and> small_pages V m' (level0_phy_addr pt) \<and>
       (\<forall>va. va div 2 ^ 48 = virt div 2 ^ 48 \<longrightarrow> mmu_translate m' (level0_phy_addr pt) va =
          (if virt \<le> va \<and> va < virt + count * PAGE_SIZE
           then Some (phy + (va - virt), read_only opts, el0_access opts)
           else mmu_translate m (level0_phy_addr pt) va))) \<or>
    (\<exists>m'. map_range pt phy virt count True opts m = Err (OutOfMemory, m') \<and>
       pt_inv m' (level0_phy_addr pt) \<and> small_pages V m' (level0_phy_addr pt) \<and>
       pages_left (pm_alloc m') = 0 \<and> pages_left (pm_alloc m) < 3 * count)"
  using map_range_progress [OF assms(3-7, 1, 2, 8), of opts]
proof
  assume "\<exists>m'. map_range pt phy virt count True opts m = Ok (m', pt\<lparr>pt_modified := True\<rparr>) \<and>
    small_pages V m' (level0_phy_addr pt)"
  then obtain m' where ok: "map_range pt phy virt count True opts m = Ok (m', pt\<lparr>pt_modified := True\<rparr>)"
    "small_pages V m' (level0_phy_addr pt)" by blast
  from map_range_correct(3, 4) [OF ok(1) assms(1, 3)] ok show ?thesis by blast
next
  assume "out_of_pages V (level0_phy_addr pt) (map_range pt phy virt count True opts m) \<and>
    pages_left (pm_alloc m) < 3 * count"
  then show ?thesis unfolding out_of_pages_def by blast
qed

definition example_mem :: pt_mem where
  "example_mem = \<lparr>pm_tables = Map.empty,
     pm_alloc = \<lparr>allocated_pages = replicate 8 False, memory_start = 0x40000000, memory_length = 8 * 4096\<rparr>\<rparr>"

definition example_opts :: entry_options where
  "example_opts = \<lparr>read_only = False, el0_access = True\<rparr>"

lemma example_empty:
  obtains m pt where "pt_empty False 1 example_mem = Ok (m, pt)" "pt_inv m (level0_phy_addr pt)"
    "small_pages UNIV m (level0_phy_addr pt)" "tables_in_ram m (level0_phy_addr pt)"
    "\<And>va. mmu_translate m (level0_phy_addr pt) va = None" "\<not> high_addresses pt" "pages_left (pm_alloc m) = 7"
proof -
  have inv: "pma_inv (pm_alloc example_mem)" "PAGE_SIZE dvd memory_start (pm_alloc example_mem)"
    "memory_start (pm_alloc example_mem) + length (allocated_pages (pm_alloc example_mem)) * PAGE_SIZE \<le> 2 ^ 48"
    by (simp_all add: example_mem_def pma_inv_def PAGE_SIZE_def)
  have left: "pages_left (pm_alloc example_mem) = 8" by (simp add: example_mem_def pages_left_def)
  obtain m pt where e: "pt_empty False 1 example_mem = Ok (m, pt)"
    by (rule allocate_table_cases [OF inv(1, 3)]) (use left in \<open>simp_all add: pt_empty_def\<close>)
  note f = pt_empty_fresh [OF inv e]
  have "pages_left (pm_alloc m) = 7" using f(6) left by simp
  moreover have "\<not> high_addresses pt" by (subst f(1)) simp
  ultimately show thesis using that [OF e f(2-4) f(5)] by blast
qed

lemma example_mapped:
  obtains m pt m' where "pt_empty False 1 example_mem = Ok (m, pt)"
    "map_range pt 0x40007000 0x1000 1 True example_opts m = Ok (m', pt\<lparr>pt_modified := True\<rparr>)"
    "pt_inv m' (level0_phy_addr pt)" "small_pages UNIV m' (level0_phy_addr pt)" "\<not> high_addresses pt"
    "\<And>va. va div 2 ^ 48 = 0 \<Longrightarrow> mmu_translate m' (level0_phy_addr pt) va =
       (if 0x1000 \<le> va \<and> va < 0x2000 then Some (0x40007000 + (va - 0x1000), False, True) else None)"
proof -
  obtain m pt where e: "pt_empty False 1 example_mem = Ok (m, pt)" "pt_inv m (level0_phy_addr pt)"
    "small_pages UNIV m (level0_phy_addr pt)" "\<And>va. mmu_translate m (level0_phy_addr pt) va = None"
    "\<not> high_addresses pt" "pages_left (pm_alloc m) = 7"
    by (rule example_empty) blast
  have map: "mappable 0x40007000 0x1000 1" by (simp add: mappable_def PAGE_SIZE_def dvd_def)
  have "tag_matches pt (0x1000 div 2 ^ 48)" using e(5) by (simp add: tag_matches_def)
  then obtain m' where ok: "map_range pt 0x40007000 0x1000 1 True example_opts m = Ok (m', pt\<lparr>pt_modified := True\<rparr>)"
    "small_pages UNIV m' (level0_phy_addr pt)"
    using map_range_progress [OF map _ _ _ _ e(2, 3), where opts = example_opts] e(6) by (auto simp: PAGE_SIZE_def)
  show thesis
    using that [OF e(1) ok(1) map_range_correct(3) [OF ok(1) e(2) map] ok(2) e(5)]
      map_range_correct(4) [OF ok(1) e(2) map] e(4) by (simp add: example_opts_def PAGE_SIZE_def)
qed

theorem map_range_maps_witness:
  "\<exists>m pt m'. pt_empty False 1 example_mem = Ok (m, pt) \<and>
     map_range pt 0x40007000 0x1000 1 True example_opts m = Ok (m', pt\<lparr>pt_modified := True\<rparr>) \<and>
     mmu_translate m' (level0_phy_addr pt) 0x1234 = Some (0x40007234, False, True) \<and>
     mmu_translate m' (level0_phy_addr pt) 0x2000 = None"
proof -
  obtain m pt where e: "pt_empty False 1 example_mem = Ok (m, pt)" "pt_inv m (level0_phy_addr pt)"
    "small_pages UNIV m (level0_phy_addr pt)" "\<And>va. mmu_translate m (level0_phy_addr pt) va = None"
    "\<not> high_addresses pt" "pages_left (pm_alloc m) = 7"
    by (rule example_empty) blast
  have map: "mappable 0x40007000 0x1000 1" by (simp add: mappable_def PAGE_SIZE_def dvd_def)
  have "tag_matches pt (0x1000 div 2 ^ 48)" using e(5) by (simp add: tag_matches_def)
  from map_range_maps [OF e(2, 3) map _ _ _ this, where opts = example_opts] e(1, 4, 6)
  show ?thesis by (fastforce simp: example_opts_def PAGE_SIZE_def)
qed

text \<open>
  C10. Unmapping a mapped range of a part \<open>V\<close> of the address space in which no block is mapped: \<open>unmap_range_custom\<close> returns, reports to
  \<open>process_region\<close> one region per page, in order and with the physical address the page translated
  to, and afterwards no address of the range translates while every other translation is unchanged.
  No physical page is allocated or freed and the tree of tables stays as it is.
\<close>

theorem unmap_range_unmaps:
  assumes "pt_inv m (level0_phy_addr pt)" "small_pages V m (level0_phy_addr pt)" "page_range virt count"
    "{virt ..< virt + count * PAGE_SIZE} \<subseteq> V" "\<forall>k<count. mmu_translate m (level0_phy_addr pt) (virt + k * PAGE_SIZE) \<noteq> None"
  shows "\<exists>m'. unmap_range_custom pt virt count m =
      Ok (m', pt\<lparr>pt_modified := True\<rparr>, map (\<lambda>k.
        \<lparr>base_phys_addr = fst (the (mmu_translate m (level0_phy_addr pt) (virt + k * PAGE_SIZE))),
         base_virt_addr = virt + k * PAGE_SIZE, region_page_count = 1\<rparr>) [0..<count]) \<and>
    unmap_range pt virt count m = Ok (m', pt\<lparr>pt_modified := True\<rparr>) \<and>
    pt_inv m' (level0_phy_addr pt) \<and> small_pages V m' (level0_phy_addr pt) \<and> pm_alloc m' = pm_alloc m \<and>
    (\<forall>rp. table_at m' (level0_phy_addr pt) rp = table_at m (level0_phy_addr pt) rp) \<and>
    (\<forall>va. va div 2 ^ 48 = virt div 2 ^ 48 \<longrightarrow> mmu_translate m' (level0_phy_addr pt) va =
      (if virt \<le> va \<and> va < virt + count * PAGE_SIZE then None else mmu_translate m (level0_phy_addr pt) va))"
  by (rule unmap_range_translated [OF assms])

theorem unmap_range_unmaps_witness:
  "\<exists>m pt m' m''. pt_empty False 1 example_mem = Ok (m, pt) \<and>
     map_range pt 0x40007000 0x1000 1 True example_opts m = Ok (m', pt\<lparr>pt_modified := True\<rparr>) \<and>
     unmap_range_custom pt 0x1000 1 m' = Ok (m'', pt\<lparr>pt_modified := True\<rparr>,
       [\<lparr>base_phys_addr = 0x40007000, base_virt_addr = 0x1000, region_page_count = 1\<rparr>]) \<and>
     mmu_translate m'' (level0_phy_addr pt) 0x1234 = None"
proof -
  obtain m pt m' where e: "pt_empty False 1 example_mem = Ok (m, pt)"
    "map_range pt 0x40007000 0x1000 1 True example_opts m = Ok (m', pt\<lparr>pt_modified := True\<rparr>)"
    "pt_inv m' (level0_phy_addr pt)" "small_pages UNIV m' (level0_phy_addr pt)"
    "\<And>va. va div 2 ^ 48 = 0 \<Longrightarrow> mmu_translate m' (level0_phy_addr pt) va =
       (if 0x1000 \<le> va \<and> va < 0x2000 then Some (0x40007000 + (va - 0x1000), False, True) else None)"
    by (rule example_mapped) blast
  have "page_range 0x1000 1" by (simp add: page_range_def PAGE_SIZE_def)
  moreover have "\<forall>k<1. mmu_translate m' (level0_phy_addr pt) (0x1000 + k * PAGE_SIZE) \<noteq> None" using e(5) by simp
  ultimately have "\<exists>m''. unmap_range_custom pt 0x1000 1 m' = Ok (m'', pt\<lparr>pt_modified := True\<rparr>,
       [\<lparr>base_phys_addr = 0x40007000, base_virt_addr = 0x1000, region_page_count = 1\<rparr>]) \<and>
     mmu_translate m'' (level0_phy_addr pt) 0x1234 = None"
    using unmap_range_unmaps [OF e(3, 4), of "0x1000" 1] e(5) by (fastforce simp: PAGE_SIZE_def)
  then show ?thesis using e(1, 2) by blast
qed



text \<open>
  C12. Dropping a page table returns exactly the pages of its tables to the physical memory
  allocator, and no page that a mapping refers to.
\<close>

theorem pt_drop_frees_tables:
  assumes "pt_inv m (level0_phy_addr pt)" "tables_in_ram m (level0_phy_addr pt)"
  shows "\<exists>m'. pt_drop pt m = Ok m' \<and> pma_inv (pm_alloc m') \<and>
    pma_free_set (pm_alloc m') = pma_free_set (pm_alloc m) \<union>
      (\<Union>t\<in>{t. \<exists>rp. table_at m (level0_phy_addr pt) rp = Some t}. region t 1)"
  using drop_table_frees [where rp = "[]" and t = "level0_phy_addr pt" and n = 3 and m' = m, OF assms]
    pt_invD(1) [OF assms(1)]
  by (auto simp: pt_drop_def frees_def tables_below_def simp del: drop_table.simps)

theorem pt_drop_frees_tables_witness:
  "\<exists>m pt m'. pt_empty False 1 example_mem = Ok (m, pt) \<and> pt_drop pt m = Ok m' \<and>
     level0_phy_addr pt \<in> pma_free_set (pm_alloc m')"
proof -
  obtain m pt where e: "pt_empty False 1 example_mem = Ok (m, pt)" "pt_inv m (level0_phy_addr pt)"
    "tables_in_ram m (level0_phy_addr pt)"
    by (rule example_empty) blast
  have "table_at m (level0_phy_addr pt) [] = Some (level0_phy_addr pt)" "level0_phy_addr pt \<in> region (level0_phy_addr pt) 1"
    by (simp_all add: region_def)
  then show ?thesis using pt_drop_frees_tables [OF e(2, 3)] e(1) by blast
qed

end
