(* ===== verification/Phys_Buffer.thy ===== *)
theory Phys_Buffer
  imports Page_Space Virt_Alloc
begin

text \<open>
  Physical buffers (\<open>kernel/src/memory/physical_buffer.rs\<close>): pages from the physical memory allocator,
  addresses from the virtual address allocator, tied together in the kernel's page table. This is
  where the three parts of the memory manager meet; the property at the end says that along any
  history of buffers they never interfere.
\<close>

section \<open>The memory manager of the kernel\<close>

text \<open>
  The global instances: the physical allocator lives in \<open>km_pt\<close> next to the tables, \<open>km_table\<close> is the
  kernel's page table. An error carries the state the failed operation leaves. \<open>km_ram\<close> is the contents
  of physical memory outside the tables.
\<close>

record kmem =
  km_pt :: pt_mem
  km_vaa :: virt_alloc
  km_table :: page_table
  km_ram :: "physical_address \<Rightarrow> 8 word"

record physical_buffer =
  pb_phy_addr :: physical_address
  pb_vir_addr :: virtual_address
  pb_page_count :: nat

type_synonym 'a km_outcome = "(memory_error \<times> kmem, 'a) outcome"

definition km_set_alloc :: "phys_alloc \<Rightarrow> kmem \<Rightarrow> kmem" where
  "km_set_alloc p k = k\<lparr>km_pt := (km_pt k)\<lparr>pm_alloc := p\<rparr>\<rparr>"

definition pb_alloc :: "nat \<Rightarrow> entry_options \<Rightarrow> kmem \<Rightarrow> (kmem \<times> physical_buffer) km_outcome" where
  "pb_alloc page_count opts k =
     bind_outcome (map_outcome_err (\<lambda>e. (e, k)) (alloc_contig page_count (pm_alloc (km_pt k))))
       (\<lambda>(p, base_address_phy).
     let k1 = km_set_alloc p k in
     bind_outcome (map_outcome_err (\<lambda>e. (e, k1)) (va_alloc page_count (km_vaa k1)))
       (\<lambda>(v, base_address_vir).
     bind_outcome (expect_ok
         (map_range (km_table k1) base_address_phy base_address_vir page_count True opts (km_pt k1)))
       (\<lambda>(m, pt).
     Ok (k1\<lparr>km_pt := m, km_vaa := v, km_table := pt\<rparr>,
         \<lparr>pb_phy_addr = base_address_phy, pb_vir_addr = base_address_vir, pb_page_count = page_count\<rparr>))))"

definition pb_len :: "physical_buffer \<Rightarrow> ('e, nat) outcome" where
  "pb_len b = mul_checked (pb_page_count b) PAGE_SIZE"

text \<open>A store through the kernel's page table; an address that does not translate faults.\<close>

fun store_bytes :: "virtual_address \<Rightarrow> 8 word list \<Rightarrow> kmem \<Rightarrow> kmem km_outcome" where
  "store_bytes va [] k = Ok k"
| "store_bytes va (x # xs) k =
     (case mmu_translate (km_pt k) (level0_phy_addr (km_table k)) va of
        Some (pa, False, _) \<Rightarrow> store_bytes (va + 1) xs (k\<lparr>km_ram := (km_ram k)(pa := x)\<rparr>)
      | _ \<Rightarrow> Panic)"

definition pb_alloc_zeroed :: "nat \<Rightarrow> entry_options \<Rightarrow> kmem \<Rightarrow> (kmem \<times> physical_buffer) km_outcome" where
  "pb_alloc_zeroed page_count opts k =
     bind_outcome (pb_alloc page_count opts k) (\<lambda>(k', b).
     bind_outcome (pb_len b) (\<lambda>len.
     bind_outcome (store_bytes (pb_vir_addr b) (replicate len 0) k') (\<lambda>k''.
     Ok (k'', b))))"

definition pb_is_empty :: "physical_buffer \<Rightarrow> bool" where
  "pb_is_empty b \<longleftrightarrow> pb_page_count b = 0"

definition unmap_virtual :: "physical_buffer \<Rightarrow> kmem \<Rightarrow> kmem km_outcome" where
  "unmap_virtual b k =
     bind_outcome (expect_ok (unmap_range (km_table k) (pb_vir_addr b) (pb_page_count b) (km_pt k)))
       (\<lambda>(m, pt).
     bind_outcome (expect_ok (va_free (pb_vir_addr b) (pb_page_count b) (km_vaa k))) (\<lambda>v.
     Ok (k\<lparr>km_pt := m, km_table := pt, km_vaa := v\<rparr>)))"

definition pb_unmap :: "physical_buffer \<Rightarrow> kmem \<Rightarrow> (kmem \<times> physical_address \<times> nat) km_outcome" where
  "pb_unmap b k = bind_outcome (unmap_virtual b k) (\<lambda>k'. Ok (k', pb_phy_addr b, pb_page_count b))"

definition pb_drop :: "physical_buffer \<Rightarrow> kmem \<Rightarrow> kmem km_outcome" where
  "pb_drop b k =
     bind_outcome (unmap_virtual b k) (\<lambda>k'.
     bind_outcome (expect_ok (free_pages (pb_phy_addr b) (pb_page_count b) (pm_alloc (km_pt k')))) (\<lambda>p.
     Ok (km_set_alloc p k')))"

section \<open>Where new tables come from\<close>

definition tables :: "pt_mem \<Rightarrow> physical_address \<Rightarrow> physical_address set" where
  "tables m root = {t. \<exists>rp. table_at m root rp = Some t}"

text \<open>An operation takes the pages of new tables from the free pages and frees none.\<close>

definition grows :: "pt_mem \<Rightarrow> physical_address \<Rightarrow> pt_mem \<Rightarrow> bool" where
  "grows m root m' \<longleftrightarrow> pma_free_set (pm_alloc m') \<subseteq> pma_free_set (pm_alloc m) \<and>
     tables m' root \<subseteq> tables m root \<union> pma_free_set (pm_alloc m) \<and>
     memory_start (pm_alloc m') = memory_start (pm_alloc m) \<and>
     length (allocated_pages (pm_alloc m')) = length (allocated_pages (pm_alloc m))"

lemma grows_refl: "grows m root m"
  by (simp add: grows_def)

lemma grows_trans: "grows m root m1 \<Longrightarrow> grows m1 root m2 \<Longrightarrow> grows m root m2"
  unfolding grows_def by auto

lemma grows_with_table:
  assumes f: "adds_table m root rp t i e m1 a"
  shows "grows m root (with_table m1 t i a)"
proof -
  note fresh = allocate_table_Ok [OF adds_tableD(1, 4) [OF f]]
  have "tables (with_table m1 t i a) root \<subseteq> tables m root \<union> {a}"
    unfolding tables_def with_table_at [OF f] by (auto split: if_splits)
  then show ?thesis using fresh unfolding grows_def by (auto simp: with_table_def)
qed

lemma grows_write:
  assumes "pt_inv m root" "table_at m root rp = Some t" "next_table m (length rp) t i = None"
    "table_ref e (length rp) = None"
  shows "grows m root (write_entry m t i e)"
  by (simp add: grows_def tables_def table_at_write [OF assms])

lemma map_levels_grows:
  assumes "map_levels opts pa remaining levels table m = Ok (m', r)" "pt_inv m root"
    "table_at m root rp = Some table" "levels_from (length rp) levels" "page_addr_ok pa"
  shows "grows m root m'"
  using assms
proof (induction levels arbitrary: table m rp)
  case Nil
  then show ?case by (simp add: grows_refl)
next
  case (Cons l levels)
  obtain lvl i large sz where l: "l = (lvl, i, large, sz)" by (metis prod.collapse)
  have lv: "lvl = length rp" "length rp < 3" "levels_from (length (i # rp)) levels"
    using Cons.prems(4) by (auto simp: l)
  obtain e where e: "read_entry m table i = Ok e" using Cons.prems(1) by (auto simp: l outcome_simps)
  then have e': "entry_of m table i = Some e" by (simp add: read_entry_iff)
  show ?case
  proof (cases "table_ref e lvl")
    case (Some t')
    then have "table_at m root (i # rp) = Some t'" using Cons.prems(3) e' lv(1) by (simp add: next_table_def)
    moreover have "map_levels opts pa remaining levels t' m = Ok (m', r)"
      using Cons.prems(1) Some e by (simp add: l)
    ultimately show ?thesis using Cons.IH [OF _ Cons.prems(2) _ lv(3) Cons.prems(5)] by blast
  next
    case None
    have inval: "\<not> pte_valid e" using Cons.prems(1) None e by (auto simp: l split: if_splits)
    show ?thesis
    proof (cases "if large \<and> sz \<le> remaining then block_entry pa lvl else None")
      case (Some b)
      then have b: "block_entry pa lvl = Some b" by (auto split: if_splits)
      have "m' = write_entry m table i (apply_options opts b)"
        using Cons.prems(1) None e inval Some by (simp add: l)
      moreover have "next_table m (length rp) table i = None" using None e' lv(1) by (simp add: next_table_def)
      ultimately show ?thesis
        using grows_write [OF Cons.prems(2, 3)] block_entry_decode(2) [OF Cons.prems(5) b] by simp
    next
      case no_block: None
      obtain m1 a where a: "allocate_table m = Ok (m1, a)"
        using Cons.prems(1) None e inval no_block by (auto simp: l outcome_simps)
      have f: "adds_table m root rp table i e m1 a"
        using Cons.prems(2, 3) lv e' None inval a by (simp add: adds_table_def)
      have ref: "table_ref (table_desc a) lvl = Some a" using adds_table_ref [OF f] lv(1) by simp
      have "map_levels opts pa remaining levels a (with_table m1 table i a) = Ok (m', r)"
        using Cons.prems(1) None e inval no_block a ref by (simp add: l with_table_def)
      moreover have "table_at (with_table m1 table i a) root (i # rp) = Some a"
        unfolding with_table_at [OF f] by simp
      ultimately show ?thesis
        using Cons.IH [OF _ with_table_inv [OF f] _ lv(3) Cons.prems(5)] grows_trans [OF grows_with_table [OF f]]
        by blast
    qed
  qed
qed

lemma map_page_grows:
  assumes ok: "map_page opts root pa va remaining m = Ok (m', n)" and inv: "pt_inv m root" and pa: "page_addr_ok pa"
  shows "grows m root m'"
proof -
  obtain tag i0 i1 i2 i3 where parts: "to_parts va = (tag, i0, i1, i2, i3, va mod PAGE_SIZE)"
    and lt: "i0 < 512" "i1 < 512" "i2 < 512" "i3 < 512"
    using parts_indices [of va] by metis
  let ?levels = "[(0, i0, False, 0), (1, i1, i2 = 0 \<and> i3 = 0, 512 * 512), (2, i2, i3 = 0, 512)]"
  obtain q where q: "map_levels opts pa remaining ?levels root m = Ok q"
    "(case q of (m1, r) \<Rightarrow> case r of Inl k \<Rightarrow> Ok (m1, k) | Inr t \<Rightarrow> bind_outcome (read_entry m1 t i3)
      (\<lambda>_. Ok (write_entry m1 t i3 (apply_options opts (page_entry pa)), 1))) = Ok (m', n)"
    using ok unfolding map_page_def parts prod.case bind_outcome_Ok_iff by blast
  obtain m1 r where mr: "q = (m1, r)" by (cases q)
  note r = q(1) [unfolded mr] and rest = q(2) [unfolded mr prod.case]
  have g: "grows m root m1" by (rule map_levels_grows [OF r inv, of "[]"]) (simp_all add: pa lt)
  have lm: "levels_mapped opts pa remaining ?levels [] m root m1 r"
    by (rule map_levels_correct [OF r inv]) (simp_all add: pa lt)
  show ?thesis
  proof (cases r)
    case (Inl k)
    then show ?thesis using rest g by simp
  next
    case (Inr t)
    then have t: "table_at m1 root [i2, i1, i0] = Some t" "pt_inv m1 root"
      using lm by (simp_all add: levels_mapped_def)
    have "m' = write_entry m1 t i3 (apply_options opts (page_entry pa))" using rest Inr by (auto simp: outcome_simps)
    moreover have "grows m1 root (write_entry m1 t i3 (apply_options opts (page_entry pa)))"
      by (rule grows_write [OF t(2, 1)]) (auto simp: next_table_def numeral_3_eq_3 [symmetric] split: bind_splits)
    ultimately show ?thesis using grows_trans [OF g] by simp
  qed
qed

lemma map_loop_grows:
  assumes "map_loop opts root phy virt count i m = Ok m'" "pt_inv m root" "mappable phy virt count"
    "virt mod PAGE_SIZE = 0"
  shows "grows m root m'"
  using assms(1, 2)
proof (induction "count - i" arbitrary: i m rule: less_induct)
  case less
  show ?case
  proof (cases "i < count")
    case False
    then show ?thesis using less.prems(1) by (subst (asm) map_loop.simps) (simp add: grows_refl)
  next
    case True
    let ?va = "virt + i * PAGE_SIZE" and ?pa = "phy + i * PAGE_SIZE"
    obtain m1 n where p: "map_page opts root ?pa ?va (count - i) m = Ok (m1, n)"
      and rest: "map_loop opts root phy virt count (i + n) m1 = Ok m'"
      using less.prems(1) True by (subst (asm) map_loop.simps) (auto simp: outcome_simps)
    note pg = mappable_page [OF assms(3) True assms(4)]
    have "pt_inv m1 root" using map_page_correct [OF p less.prems(2) pg(1, 2)] True by simp
    then have "grows m1 root m'"
      using less.hyps [OF _ rest] map_page_advance [OF p] True by simp
    then show ?thesis using grows_trans map_page_grows [OF p less.prems(2) pg(1)] by blast
  qed
qed

lemma map_range_grows:
  assumes "map_range pt phy virt count overwrite opts m = Ok (m', pt')" "pt_inv m (level0_phy_addr pt)"
    "mappable phy virt count"
  shows "grows m (level0_phy_addr pt) m'"
proof -
  obtain tag i0 i1 i2 i3 where parts: "to_parts virt = (tag, i0, i1, i2, i3, virt mod PAGE_SIZE)"
    using parts_indices [of virt] by metis
  have "virt mod PAGE_SIZE = 0" "map_loop opts (level0_phy_addr pt) phy virt count 0 m = Ok m'"
    using assms(1) unfolding map_range_def parts prod.case by (auto simp: outcome_simps split: if_split_asm)
  then show ?thesis using map_loop_grows [OF _ assms(2, 3)] by simp
qed

section \<open>Changing only the allocator\<close>

lemma only_alloc [simp]:
  "entry_of (m\<lparr>pm_alloc := p\<rparr>) t i = entry_of m t i"
  "next_table (m\<lparr>pm_alloc := p\<rparr>) l t i = next_table m l t i"
  "read_entry (m\<lparr>pm_alloc := p\<rparr>) t i = read_entry m t i"
  by (simp_all add: entry_of_def next_table_def read_entry_def)

lemma only_alloc_table_at [simp]: "table_at (m\<lparr>pm_alloc := p\<rparr>) root rp = table_at m root rp"
  by (induction rp) simp_all

lemma only_alloc_walk [simp]: "walk (m\<lparr>pm_alloc := p\<rparr>) l t is = walk m l t is"
  by (induction "is" arbitrary: l t) (simp_all split: option.split)

lemma only_alloc_translate [simp]:
  "mmu_translate (m\<lparr>pm_alloc := p\<rparr>) root va = mmu_translate m root va"
  "small_pages V (m\<lparr>pm_alloc := p\<rparr>) root = small_pages V m root"
  "tables (m\<lparr>pm_alloc := p\<rparr>) root = tables m root"
  by (simp_all add: mmu_translate_def small_pages_def tables_def)

lemma pt_inv_set_alloc:
  assumes "pt_inv m root" "pma_inv p" "memory_start p = memory_start (pm_alloc m)"
    "length (allocated_pages p) = length (allocated_pages (pm_alloc m))" "tables m root \<inter> pma_free_set p = {}"
  shows "pt_inv (m\<lparr>pm_alloc := p\<rparr>) root"
  using assms unfolding pt_inv_def tables_def by auto

section \<open>The invariant\<close>

definition kernel_range :: "nat set" where
  "kernel_range = region START_ADDRESS TOTAL_SIZE"

abbreviation "pb_phys b \<equiv> region (pb_phy_addr b) (pb_page_count b)"
abbreviation "pb_virt b \<equiv> region (pb_vir_addr b) (pb_page_count b)"
abbreviation "km_root k \<equiv> level0_phy_addr (km_table k)"
abbreviation "km_alloc k \<equiv> pm_alloc (km_pt k)"

definition buffer_ok :: "kmem \<Rightarrow> physical_buffer \<Rightarrow> bool" where
  "buffer_ok k b \<longleftrightarrow> 0 < pb_page_count b \<and> pb_page_count b < 512 \<and>
     pma_region (km_alloc k) (pb_phy_addr b) (pb_page_count b) \<and> PAGE_SIZE dvd pb_vir_addr b \<and>
     pb_virt b \<subseteq> kernel_range - vaa_free_set (km_vaa k) \<and>
     pb_phys b \<inter> (pma_free_set (km_alloc k) \<union> tables (km_pt k) (km_root k)) = {} \<and>
     (\<forall>va\<in>pb_virt b. map_option fst (mmu_translate (km_pt k) (km_root k) va) =
        Some (pb_phy_addr b + (va - pb_vir_addr b)))"

definition kmem_ok :: "kmem \<Rightarrow> bool" where
  "kmem_ok k \<longleftrightarrow> pt_inv (km_pt k) (km_root k) \<and> small_pages kernel_range (km_pt k) (km_root k) \<and>
     vaa_inv (km_vaa k) \<and> vaa_free_set (km_vaa k) \<subseteq> kernel_range \<and> high_addresses (km_table k)"

definition apart :: "physical_buffer \<Rightarrow> physical_buffer \<Rightarrow> bool" where
  "apart b c \<longleftrightarrow> pb_phys b \<inter> pb_phys c = {} \<and> pb_virt b \<inter> pb_virt c = {}"

primrec buffers_ok :: "kmem \<Rightarrow> physical_buffer list \<Rightarrow> bool" where
  "buffers_ok k [] = True"
| "buffers_ok k (b # bs) \<longleftrightarrow> buffer_ok k b \<and> (\<forall>c\<in>set bs. apart b c) \<and> buffers_ok k bs"

lemma kernel_range_eq: "kernel_range = {0xffff000100000000 ..< 0xffff010100000000}"
  by (simp add: kernel_range_def region_def START_ADDRESS_def TOTAL_SIZE_def PAGE_SIZE_def)

lemma kernel_range_half: "va \<in> kernel_range \<Longrightarrow> va div 2 ^ 48 = 0xffff" "va \<in> kernel_range \<Longrightarrow> va < usize_bound"
  by (auto simp: kernel_range_eq)

lemma kernel_range_page:
  assumes "region va n \<subseteq> kernel_range" "0 < n"
  shows "va \<in> kernel_range" "va + n * PAGE_SIZE - 1 \<in> kernel_range"
    "va div 2 ^ 48 = (va + n * PAGE_SIZE - 1) div 2 ^ 48" "va div 2 ^ 48 = 0xffff" "va < usize_bound"
proof -
  have pos: "0 < n * PAGE_SIZE" using assms(2) by simp
  have "va \<le> va + n * PAGE_SIZE - 1" "va + n * PAGE_SIZE - 1 < va + n * PAGE_SIZE" using pos by linarith+
  then have "va \<in> region va n" "va + n * PAGE_SIZE - 1 \<in> region va n" using pos unfolding region_def by simp_all
  then show v: "va \<in> kernel_range" "va + n * PAGE_SIZE - 1 \<in> kernel_range" using assms(1) by blast+
  show "va div 2 ^ 48 = (va + n * PAGE_SIZE - 1) div 2 ^ 48" "va div 2 ^ 48 = 0xffff" "va < usize_bound"
    using kernel_range_half [OF v(1)] kernel_range_half(1) [OF v(2)] by simp_all
qed

lemma page_multiple_dvd: "va mod PAGE_SIZE = 0 \<longleftrightarrow> PAGE_SIZE dvd va"
  by (rule mod_eq_0_iff_dvd)

section \<open>Allocation\<close>

lemma phys_step:
  assumes "pt_inv m root" "0 < n" "alloc_contig n (pm_alloc m) = Ok (p, pa)"
  shows "pt_inv (m\<lparr>pm_alloc := p\<rparr>) root" "pma_free_set p = pma_free_set (pm_alloc m) - region pa n"
    "region pa n \<subseteq> pma_free_set (pm_alloc m)" "pma_region p pa n" "pma_region p c j = pma_region (pm_alloc m) c j"
    "PAGE_SIZE dvd pa" "pa + n * PAGE_SIZE \<le> 2 ^ 48"
proof -
  have inv: "pma_inv (pm_alloc m)" by (rule pt_invD(1) [OF assms(1)])
  have dv: "PAGE_SIZE dvd memory_start (pm_alloc m)"
    and top: "memory_start (pm_alloc m) + length (allocated_pages (pm_alloc m)) * PAGE_SIZE \<le> 2 ^ 48"
    using assms(1) unfolding pt_inv_def by blast+
  obtain s where s: "free_run (allocated_pages (pm_alloc m)) s n" "pa = memory_start (pm_alloc m) + s * PAGE_SIZE"
    "p = mark_pages (pm_alloc m) s n True"
    using alloc_contig_Ok [OF assms(3) inv assms(2)] by blast
  then have len: "s + n \<le> length (allocated_pages (pm_alloc m))" by (simp add: free_run_def)
  note law = pma.alloc_law [OF inv assms(2, 3)]
  then show fs: "pma_free_set p = pma_free_set (pm_alloc m) - region pa n" "region pa n \<subseteq> pma_free_set (pm_alloc m)"
    "pma_region p pa n" by auto
  show "pma_region p c j = pma_region (pm_alloc m) c j" by (rule pma.alloc_keeps [OF inv assms(2, 3)])
  show "PAGE_SIZE dvd pa" using dv s(2) by simp
  have "(s + n) * PAGE_SIZE \<le> length (allocated_pages (pm_alloc m)) * PAGE_SIZE" using len by (rule mult_le_mono1)
  then show "pa + n * PAGE_SIZE \<le> 2 ^ 48" using s(2) top distrib_right [of s n PAGE_SIZE] by linarith
  have "tables m root \<inter> pma_free_set (pm_alloc m) = {}"
    using pt_invD(3) [OF assms(1)] by (auto simp: tables_def)
  then show "pt_inv (m\<lparr>pm_alloc := p\<rparr>) root"
    using pt_inv_set_alloc [OF assms(1), of p] law s(3) len fs(1) by auto
qed

lemma virt_step:
  assumes "kmem_ok k" "0 < n" "va_alloc n (km_vaa k) = Ok (v, va)"
  shows "vaa_inv v" "region va n \<subseteq> vaa_free_set (km_vaa k)" "vaa_free_set v = vaa_free_set (km_vaa k) - region va n"
    "PAGE_SIZE dvd va" "region va n \<subseteq> kernel_range"
  using vaa.alloc_law [OF _ assms(2, 3)] assms(1) by (auto simp: kmem_ok_def vaa_region_def)

lemma buffer_mappable:
  assumes "PAGE_SIZE dvd pa" "pa + n * PAGE_SIZE \<le> 2 ^ 48" "region va n \<subseteq> kernel_range" "0 < n" "n < 512"
  shows "mappable pa va n"
  using assms kernel_range_page(3) [OF assms(3, 4)] unfolding mappable_def by blast

lemma expect_Ok_iff: "expect_ok r = Ok x \<longleftrightarrow> r = Ok x"
  by (cases r) (simp_all)

lemma pb_alloc_Ok:
  assumes "kmem_ok k" "0 < n" "n < 512" "pb_alloc n opts k = Ok (k', b)"
  obtains p pa v va m where "alloc_contig n (km_alloc k) = Ok (p, pa)" "va_alloc n (km_vaa k) = Ok (v, va)"
    "map_range (km_table k) pa va n True opts ((km_pt k)\<lparr>pm_alloc := p\<rparr>) = Ok (m, (km_table k)\<lparr>pt_modified := True\<rparr>)"
    "k' = k\<lparr>km_pt := m, km_vaa := v, km_table := (km_table k)\<lparr>pt_modified := True\<rparr>\<rparr>"
    "b = \<lparr>pb_phy_addr = pa, pb_vir_addr = va, pb_page_count = n\<rparr>" "mappable pa va n"
proof -
  have inv: "pt_inv (km_pt k) (km_root k)" using assms(1) unfolding kmem_ok_def by blast
  obtain p pa v va m pt where a: "alloc_contig n (km_alloc k) = Ok (p, pa)" "va_alloc n (km_vaa k) = Ok (v, va)"
    "map_range (km_table k) pa va n True opts ((km_pt k)\<lparr>pm_alloc := p\<rparr>) = Ok (m, pt)"
    "k' = k\<lparr>km_pt := m, km_vaa := v, km_table := pt\<rparr>"
    "b = \<lparr>pb_phy_addr = pa, pb_vir_addr = va, pb_page_count = n\<rparr>"
    using assms(4) by (auto simp: pb_alloc_def outcome_simps map_outcome_err_iff Let_def km_set_alloc_def expect_Ok_iff)
  note ph = phys_step [OF inv assms(2) a(1)] and vi = virt_step [OF assms(1, 2) a(2)]
  have mp: "mappable pa va n" by (rule buffer_mappable [OF ph(6, 7) vi(5) assms(2, 3)])
  have "pt = (km_table k)\<lparr>pt_modified := True\<rparr>" by (rule map_range_correct(2) [OF a(3) ph(1) mp])
  then show thesis using that a mp by blast
qed

lemma buffers_ok_mono: "buffers_ok k bs \<Longrightarrow> (\<And>c. c \<in> set bs \<Longrightarrow> buffer_ok k c \<Longrightarrow> buffer_ok k' c) \<Longrightarrow> buffers_ok k' bs"
  by (induction bs) auto

lemma buffers_ok_mem: "buffers_ok k bs \<Longrightarrow> b \<in> set bs \<Longrightarrow> buffer_ok k b"
  by (induction bs) auto

lemma apart_sym: "apart b c \<Longrightarrow> apart c b"
  by (auto simp: apart_def)

lemma grows_region: "grows m root m' \<Longrightarrow> pma_region (pm_alloc m') c j = pma_region (pm_alloc m) c j"
  by (simp add: grows_def pma_region_def)

lemma kmem_tables_not_free: "kmem_ok k \<Longrightarrow> tables (km_pt k) (km_root k) \<inter> pma_free_set (km_alloc k) = {}"
  using pt_invD(3) by (fastforce simp: kmem_ok_def tables_def)

lemma pb_alloc_keeps:
  assumes k: "kmem_ok k" and n: "0 < n" "n < 512" and ok: "pb_alloc n opts k = Ok (k', b)" and bs: "buffers_ok k bs"
  shows "kmem_ok k'" "buffers_ok k' (b # bs)"
    "\<forall>va\<in>pb_virt b. mmu_translate (km_pt k') (km_root k') va =
       Some (pb_phy_addr b + (va - pb_vir_addr b), read_only opts, el0_access opts)"
proof -
  obtain p pa v va m where a: "alloc_contig n (km_alloc k) = Ok (p, pa)" "va_alloc n (km_vaa k) = Ok (v, va)"
    "map_range (km_table k) pa va n True opts ((km_pt k)\<lparr>pm_alloc := p\<rparr>) = Ok (m, (km_table k)\<lparr>pt_modified := True\<rparr>)"
    and k': "k' = k\<lparr>km_pt := m, km_vaa := v, km_table := (km_table k)\<lparr>pt_modified := True\<rparr>\<rparr>"
    and b: "b = \<lparr>pb_phy_addr = pa, pb_vir_addr = va, pb_page_count = n\<rparr>" and mp: "mappable pa va n"
    by (rule pb_alloc_Ok [OF k n ok])
  have inv: "pt_inv (km_pt k) (km_root k)" "small_pages kernel_range ((km_pt k)\<lparr>pm_alloc := p\<rparr>) (km_root k)"
    "high_addresses (km_table k)" "vaa_free_set (km_vaa k) \<subseteq> kernel_range"
    using k by (simp_all add: kmem_ok_def)
  note ph = phys_step [OF inv(1) n(1) a(1)] and vi = virt_step [OF k n(1) a(2)]
  note kr = kernel_range_page [OF vi(5) n(1)] and mr = map_range_correct [OF a(3) ph(1) mp]
  have gr: "grows ((km_pt k)\<lparr>pm_alloc := p\<rparr>) (km_root k) m" by (rule map_range_grows [OF a(3) ph(1) mp])
  have "tag_matches (km_table k) (va div 2 ^ 48)" using kr(4) inv(3) by (simp add: tag_matches_def)
  then have small: "small_pages kernel_range m (km_root k)"
    using map_range_progress [OF mp _ kr(5) n(2) _ ph(1) inv(2), of opts] vi(4, 5) a(3)
    by (auto simp: region_def page_multiple_dvd out_of_pages_def)
  have tr: "mmu_translate m (km_root k) x = (if x \<in> region va n
      then Some (pa + (x - va), read_only opts, el0_access opts) else mmu_translate (km_pt k) (km_root k) x)"
    if "x \<in> kernel_range" for x
    using mr(4) [of x] kernel_range_half(1) [OF that] kr(4) by (simp add: region_def)
  show "\<forall>va\<in>pb_virt b. mmu_translate (km_pt k') (km_root k') va =
      Some (pb_phy_addr b + (va - pb_vir_addr b), read_only opts, el0_access opts)"
    using tr vi(5) by (auto simp: k' b)
  show "kmem_ok k'" using mr(3) small vi(1, 3) inv(3, 4) by (auto simp: kmem_ok_def k')
  have free: "pma_free_set (pm_alloc m) \<subseteq> pma_free_set (km_alloc k) - region pa n"
    "tables m (km_root k) \<subseteq> tables (km_pt k) (km_root k) \<union> (pma_free_set (km_alloc k) - region pa n)"
    using gr ph(2) by (auto simp: grows_def)
  have keep: "buffer_ok k' c" if "buffer_ok k c" for c
  proof -
    have "pb_virt c \<inter> region va n = {}" "pb_virt c \<subseteq> kernel_range" using that vi(2) by (auto simp: buffer_ok_def)
    then have "mmu_translate m (km_root k) x = mmu_translate (km_pt k) (km_root k) x" if "x \<in> pb_virt c" for x
      using tr [of x] that by (simp add: subset_iff disjoint_iff)
    then show ?thesis using that free vi(3) grows_region [OF gr] ph(5) by (auto simp: buffer_ok_def k')
  qed
  have "apart b c" if "buffer_ok k c" for c
    using that ph(3) vi(2) by (auto simp: apart_def b buffer_ok_def)
  moreover have "buffer_ok k' b"
    using n grows_region [OF gr] ph(3, 4) vi(3-5) free kmem_tables_not_free [OF k] tr
    by (auto simp: buffer_ok_def k' b)
  ultimately show "buffers_ok k' (b # bs)"
    using buffers_ok_mono [OF bs keep] buffers_ok_mem [OF bs] by simp
qed

lemma pages_left_run:
  assumes "free_run (allocated_pages p) s n"
  shows "pages_left p = pages_left (mark_pages p s n True) + n"
proof -
  let ?as = "allocated_pages p"
  have len: "s + n \<le> length ?as" and free: "\<forall>i<n. \<not> ?as ! (s + i)" using assms by (auto simp: free_run_def)
  have split: "?as = take s ?as @ take n (drop s ?as) @ drop (s + n) ?as"
    by (metis append_take_drop_id drop_drop add.commute)
  have "x \<in> set (take n (drop s ?as)) \<Longrightarrow> \<not> x" for x
    using len free by (auto simp: in_set_conv_nth)
  then have "filter Not (take n (drop s ?as)) = take n (drop s ?as)" unfolding filter_id_conv by blast
  then show ?thesis
    using arg_cong [OF split, of "\<lambda>xs. length (filter Not xs)"] len by (simp add: pages_left_def mark_pages_def)
qed

lemma pb_alloc_progress:
  assumes k: "kmem_ok k" and n: "0 < n" "n < 512"
  shows "case pb_alloc n opts k of
      Ok (k', b) \<Rightarrow> pb_page_count b = n \<and> pb_phys b \<subseteq> pma_free_set (km_alloc k) \<and>
        vaa_free_set (km_vaa k') = vaa_free_set (km_vaa k) - pb_virt b \<and> pb_virt b \<subseteq> vaa_free_set (km_vaa k)
    | Err (e, k') \<Rightarrow>
        k' = k \<and> (\<forall>p pa. alloc_contig n (km_alloc k) \<noteq> Ok (p, pa)) \<or>
        e = OutOfMemory \<and> (\<forall>v va. va_alloc n (km_vaa k) \<noteq> Ok (v, va)) \<and>
        (\<exists>p pa. alloc_contig n (km_alloc k) = Ok (p, pa) \<and> k' = km_set_alloc p k)
    | Panic \<Rightarrow> pages_left (km_alloc k) < 4 * n"
proof -
  have inv: "pt_inv (km_pt k) (km_root k)" "small_pages kernel_range (km_pt k) (km_root k)" "vaa_inv (km_vaa k)"
    "high_addresses (km_table k)"
    using k by (simp_all add: kmem_ok_def)
  have bytes: "n * PAGE_SIZE < usize_bound" using n(2) by (simp add: PAGE_SIZE_def)
  have pinv: "pma_inv (km_alloc k)" by (rule pt_invD(1) [OF inv(1)])
  show ?thesis
  proof (cases "alloc_contig n (km_alloc k)")
    case (Err e)
    then show ?thesis by (simp add: pb_alloc_def)
  next
    case Panic
    then show ?thesis using pma.alloc_total [OF pinv n(1) bytes] by simp
  next
    case (Ok q)
    obtain p pa where a: "alloc_contig n (km_alloc k) = Ok (p, pa)" using Ok by (cases q) simp
    note ph = phys_step [OF inv(1) n(1) a]
    obtain s where s: "free_run (allocated_pages (km_alloc k)) s n" "p = mark_pages (km_alloc k) s n True"
      using alloc_contig_Ok [OF a pinv n(1)] by blast
    show ?thesis
    proof (cases "va_alloc n (km_vaa k)")
      case (Err e)
      have "e = OutOfMemory"
        using va_alloc_loop_correct [of "free_list (km_vaa k)" n] Err n(1) inv(3)
        by (cases "va_alloc_loop n (free_list (km_vaa k))") (auto simp: va_alloc_def vaa_inv_def)
      then show ?thesis using a Err by (simp add: pb_alloc_def km_set_alloc_def)
    next
      case Panic
      then show ?thesis using vaa.alloc_total [OF inv(3) n(1) bytes] by simp
    next
      case (Ok q')
      obtain v va where b: "va_alloc n (km_vaa k) = Ok (v, va)" using Ok by (cases q') simp
      note vi = virt_step [OF k n(1) b]
      note kr = kernel_range_page [OF vi(5) n(1)]
      have mp: "mappable pa va n" by (rule buffer_mappable [OF ph(6, 7) vi(5) n])
      have "tag_matches (km_table k) (va div 2 ^ 48)" using kr(4) inv(4) by (simp add: tag_matches_def)
      then have "(\<exists>m. map_range (km_table k) pa va n True opts ((km_pt k)\<lparr>pm_alloc := p\<rparr>) =
            Ok (m, (km_table k)\<lparr>pt_modified := True\<rparr>)) \<or>
          (\<exists>x. map_range (km_table k) pa va n True opts ((km_pt k)\<lparr>pm_alloc := p\<rparr>) = Err x) \<and> pages_left p < 3 * n"
        using map_range_progress [OF mp _ kr(5) n(2) _ ph(1), of kernel_range opts] inv(2) vi(4, 5)
        by (auto simp: region_def page_multiple_dvd out_of_pages_def)
      then show ?thesis
        using a b vi(2, 3) ph(3) pages_left_run [OF s(1)] s(2)
        by (auto simp: pb_alloc_def km_set_alloc_def)
    qed
  qed
qed

section \<open>Release\<close>

lemma unmap_virtual_Ok:
  assumes k: "kmem_ok k" and b: "buffer_ok k b"
  obtains m v where "unmap_virtual b k = Ok (k\<lparr>km_pt := m, km_table := (km_table k)\<lparr>pt_modified := True\<rparr>, km_vaa := v\<rparr>)"
    "kmem_ok (k\<lparr>km_pt := m, km_table := (km_table k)\<lparr>pt_modified := True\<rparr>, km_vaa := v\<rparr>)"
    "pm_alloc m = km_alloc k" "tables m (km_root k) = tables (km_pt k) (km_root k)"
    "vaa_free_set v = vaa_free_set (km_vaa k) \<union> pb_virt b"
    "\<And>va. va \<in> kernel_range \<Longrightarrow> mmu_translate m (km_root k) va =
       (if va \<in> pb_virt b then None else mmu_translate (km_pt k) (km_root k) va)"
    "\<And>c. buffer_ok k c \<Longrightarrow> apart b c \<Longrightarrow>
       buffer_ok (k\<lparr>km_pt := m, km_table := (km_table k)\<lparr>pt_modified := True\<rparr>, km_vaa := v\<rparr>) c"
proof -
  let ?n = "pb_page_count b" and ?va = "pb_vir_addr b"
  have inv: "pt_inv (km_pt k) (km_root k)" "small_pages kernel_range (km_pt k) (km_root k)" "vaa_inv (km_vaa k)"
    "vaa_free_set (km_vaa k) \<subseteq> kernel_range" "high_addresses (km_table k)"
    using k by (simp_all add: kmem_ok_def)
  have bo: "0 < ?n" "PAGE_SIZE dvd ?va" "pb_virt b \<subseteq> kernel_range" "pb_virt b \<inter> vaa_free_set (km_vaa k) = {}"
    "\<And>x. x \<in> pb_virt b \<Longrightarrow> mmu_translate (km_pt k) (km_root k) x \<noteq> None"
    using b by (auto simp: buffer_ok_def)
  note kr = kernel_range_page [OF bo(3, 1)]
  have range: "page_range ?va ?n" using kr(3, 5) bo(2) by (simp add: page_range_def page_multiple_dvd)
  have "\<forall>i<?n. mmu_translate (km_pt k) (km_root k) (?va + i * PAGE_SIZE) \<noteq> None"
    using bo(5) by (simp add: region_def)
  moreover have "{?va ..< ?va + ?n * PAGE_SIZE} \<subseteq> kernel_range" using bo(3) by (simp add: region_def)
  ultimately obtain m where m: "unmap_range (km_table k) ?va ?n (km_pt k) = Ok (m, (km_table k)\<lparr>pt_modified := True\<rparr>)"
    "pt_inv m (km_root k)" "small_pages kernel_range m (km_root k)" "pm_alloc m = km_alloc k"
    "\<And>rp. table_at m (km_root k) rp = table_at (km_pt k) (km_root k) rp"
    "\<And>va. va div 2 ^ 48 = ?va div 2 ^ 48 \<Longrightarrow> mmu_translate m (km_root k) va =
      (if ?va \<le> va \<and> va < ?va + ?n * PAGE_SIZE then None else mmu_translate (km_pt k) (km_root k) va)"
    using unmap_range_translated [OF inv(1, 2) range] by blast
  have "?va + ?n * PAGE_SIZE - 1 < 0xffff010100000000" using kr(2) by (simp add: kernel_range_eq)
  then have "vaa_region (km_vaa k) ?va ?n" using bo(2) by (simp add: vaa_region_def)
  then obtain v where v: "va_free ?va ?n (km_vaa k) = Ok v" "vaa_inv v" "vaa_free_set v = vaa_free_set (km_vaa k) \<union> pb_virt b"
    using vaa.release_law [OF inv(3) bo(1) _ bo(4)] by blast
  have tr: "mmu_translate m (km_root k) va = (if va \<in> pb_virt b then None else mmu_translate (km_pt k) (km_root k) va)"
    if "va \<in> kernel_range" for va
    using m(6) [of va] kernel_range_half(1) [OF that] kr(4) by (simp add: region_def)
  show thesis
  proof (rule that)
    show "unmap_virtual b k = Ok (k\<lparr>km_pt := m, km_table := (km_table k)\<lparr>pt_modified := True\<rparr>, km_vaa := v\<rparr>)"
      using m(1) v(1) by (simp add: unmap_virtual_def)
    show "kmem_ok (k\<lparr>km_pt := m, km_table := (km_table k)\<lparr>pt_modified := True\<rparr>, km_vaa := v\<rparr>)"
      using m(2, 3) v(2, 3) inv(4, 5) bo(3) by (simp add: kmem_ok_def)
    show "buffer_ok (k\<lparr>km_pt := m, km_table := (km_table k)\<lparr>pt_modified := True\<rparr>, km_vaa := v\<rparr>) c"
      if "buffer_ok k c" "apart b c" for c
    proof -
      have "pb_virt c \<subseteq> kernel_range" "pb_virt c \<inter> pb_virt b = {}" using that by (auto simp: buffer_ok_def apart_def)
      then have "mmu_translate m (km_root k) x = mmu_translate (km_pt k) (km_root k) x" if "x \<in> pb_virt c" for x
        using tr [of x] that by (simp add: subset_iff disjoint_iff)
      moreover have "tables m (km_root k) = tables (km_pt k) (km_root k)" using m(5) by (simp add: tables_def)
      ultimately show ?thesis using that m(4) v(3) by (auto simp: buffer_ok_def apart_def)
    qed
  qed (use m(4, 5) v(3) tr in \<open>simp_all add: tables_def\<close>)
qed

lemma pb_drop_Ok:
  assumes k: "kmem_ok k" and b: "buffer_ok k b"
  obtains k' where "pb_drop b k = Ok k'" "kmem_ok k'" "\<And>c. buffer_ok k c \<Longrightarrow> apart b c \<Longrightarrow> buffer_ok k' c"
    "pma_free_set (km_alloc k') = pma_free_set (km_alloc k) \<union> pb_phys b"
    "vaa_free_set (km_vaa k') = vaa_free_set (km_vaa k) \<union> pb_virt b"
proof -
  obtain m v where u: "unmap_virtual b k = Ok (k\<lparr>km_pt := m, km_table := (km_table k)\<lparr>pt_modified := True\<rparr>, km_vaa := v\<rparr>)"
    "kmem_ok (k\<lparr>km_pt := m, km_table := (km_table k)\<lparr>pt_modified := True\<rparr>, km_vaa := v\<rparr>)"
    "pm_alloc m = km_alloc k" "tables m (km_root k) = tables (km_pt k) (km_root k)"
    "vaa_free_set v = vaa_free_set (km_vaa k) \<union> pb_virt b"
    "\<And>c. buffer_ok k c \<Longrightarrow> apart b c \<Longrightarrow>
       buffer_ok (k\<lparr>km_pt := m, km_table := (km_table k)\<lparr>pt_modified := True\<rparr>, km_vaa := v\<rparr>) c"
    by (rule unmap_virtual_Ok [OF k b]) blast
  have inv: "pt_inv m (km_root k)" using u(2) by (simp add: kmem_ok_def)
  have pinv: "pma_inv (km_alloc k)" using pt_invD(1) [OF inv] u(3) by simp
  have bo: "0 < pb_page_count b" "pma_region (km_alloc k) (pb_phy_addr b) (pb_page_count b)"
    "pb_phys b \<inter> pma_free_set (km_alloc k) = {}" "pb_phys b \<inter> tables (km_pt k) (km_root k) = {}"
    using b by (auto simp: buffer_ok_def)
  obtain i where i: "pb_phy_addr b = memory_start (km_alloc k) + i * PAGE_SIZE"
    "i + pb_page_count b \<le> length (allocated_pages (km_alloc k))"
    using bo(2) by (auto simp: pma_region_def)
  let ?p = "mark_pages (km_alloc k) i (pb_page_count b) False"
  have free: "pma_free_set ?p = pma_free_set (km_alloc k) \<union> pb_phys b" using free_set_mark_False [OF i(2)] i(1) by simp
  have reg: "pma_region ?p c j = pma_region (km_alloc k) c j" for c j using i(2) by (simp add: pma_region_def)
  let ?k' = "k\<lparr>km_pt := m\<lparr>pm_alloc := ?p\<rparr>, km_table := (km_table k)\<lparr>pt_modified := True\<rparr>, km_vaa := v\<rparr>"
  have drop: "pb_drop b k = Ok ?k'"
    using u(1, 3) free_pages_eq [OF pinv i(2)] i(1) by (simp add: pb_drop_def km_set_alloc_def)
  have "pt_inv (m\<lparr>pm_alloc := ?p\<rparr>) (km_root k)"
  proof (rule pt_inv_set_alloc [OF inv])
    show "tables m (km_root k) \<inter> pma_free_set ?p = {}"
      using kmem_tables_not_free [OF k] bo(4) unfolding free u(4) by blast
  qed (use mark_pages_inv [OF pinv] i(2) u(3) in simp_all)
  then have ok: "kmem_ok ?k'" using u(2) by (simp add: kmem_ok_def)
  have keep: "buffer_ok ?k' c" if "buffer_ok k c" "apart b c" for c
    using u(6) [OF that] that(2) u(3) free reg by (auto simp: buffer_ok_def apart_def)
  show thesis by (rule that [OF drop ok keep]) (simp_all add: free u(5))
qed

lemma buffers_ok_remove:
  assumes "buffers_ok k bs" "b \<in> set bs" "\<And>c. buffer_ok k c \<Longrightarrow> apart b c \<Longrightarrow> buffer_ok k' c"
  shows "buffers_ok k' (remove1 b bs)"
  using assms(1, 2)
proof (induction bs)
  case (Cons c bs)
  show ?case
  proof (cases "c = b")
    case True
    then show ?thesis using Cons.prems assms(3) buffers_ok_mono [of k bs k'] by auto
  next
    case False
    then have "b \<in> set bs" "apart b c" using Cons.prems apart_sym by auto
    then show ?thesis using Cons assms(3) False set_remove1_subset [of b bs] by auto
  qed
qed simp

section \<open>Histories of buffers\<close>

text \<open>
  Buffers of fewer than 512 pages are allocated, dropped, or unmapped (the caller keeps the pages).
  The list holds the buffers that exist.
\<close>

inductive buffer_history :: "kmem \<Rightarrow> kmem \<Rightarrow> physical_buffer list \<Rightarrow> bool" for k0 where
  buffer_start: "buffer_history k0 k0 []"
| buffer_alloc: "buffer_history k0 k bs \<Longrightarrow> 0 < n \<Longrightarrow> n < 512 \<Longrightarrow> pb_alloc n opts k = Ok (k', b) \<Longrightarrow>
    buffer_history k0 k' (b # bs)"
| buffer_drop: "buffer_history k0 k bs \<Longrightarrow> b \<in> set bs \<Longrightarrow> pb_drop b k = Ok k' \<Longrightarrow>
    buffer_history k0 k' (remove1 b bs)"
| buffer_unmap: "buffer_history k0 k bs \<Longrightarrow> b \<in> set bs \<Longrightarrow> pb_unmap b k = Ok (k', r) \<Longrightarrow>
    buffer_history k0 k' (remove1 b bs)"

lemma buffer_history_ok:
  assumes "kmem_ok k0" "buffer_history k0 k bs"
  shows "kmem_ok k \<and> buffers_ok k bs"
  using assms(2)
proof (induction rule: buffer_history.induct)
  case buffer_start
  then show ?case using assms(1) by simp
next
  case (buffer_alloc k bs n opts k' b)
  then show ?case using pb_alloc_keeps(1, 2) by blast
next
  case (buffer_drop k bs b k')
  then have b: "kmem_ok k" "buffers_ok k bs" "buffer_ok k b" using buffers_ok_mem by blast+
  obtain k1 where "pb_drop b k = Ok k1" "kmem_ok k1" "\<And>c. buffer_ok k c \<Longrightarrow> apart b c \<Longrightarrow> buffer_ok k1 c"
    by (rule pb_drop_Ok [OF b(1, 3)]) blast
  then show ?case using buffers_ok_remove [OF b(2) buffer_drop.hyps(2), of k'] buffer_drop.hyps(3) by simp
next
  case (buffer_unmap k bs b k' r)
  then have b: "kmem_ok k" "buffers_ok k bs" "buffer_ok k b" using buffers_ok_mem by blast+
  obtain m v where u: "unmap_virtual b k = Ok (k\<lparr>km_pt := m, km_table := (km_table k)\<lparr>pt_modified := True\<rparr>, km_vaa := v\<rparr>)"
    "kmem_ok (k\<lparr>km_pt := m, km_table := (km_table k)\<lparr>pt_modified := True\<rparr>, km_vaa := v\<rparr>)"
    "\<And>c. buffer_ok k c \<Longrightarrow> apart b c \<Longrightarrow>
       buffer_ok (k\<lparr>km_pt := m, km_table := (km_table k)\<lparr>pt_modified := True\<rparr>, km_vaa := v\<rparr>) c"
    by (rule unmap_virtual_Ok [OF b(1, 3)]) blast
  have k': "k' = k\<lparr>km_pt := m, km_table := (km_table k)\<lparr>pt_modified := True\<rparr>, km_vaa := v\<rparr>"
    using buffer_unmap.hyps(3) u(1) by (auto simp: pb_unmap_def)
  show ?case using buffers_ok_remove [OF b(2) buffer_unmap.hyps(2) u(3)] u(2) k' by blast
qed

lemma buffers_ok_pairwise:
  "buffers_ok k bs \<Longrightarrow> i < j \<Longrightarrow> j < length bs \<Longrightarrow> apart (bs ! i) (bs ! j)"
proof (induction bs arbitrary: i j)
  case (Cons b bs)
  then show ?case by (cases i; cases j) auto
qed simp

text \<open>
  C17. Isolation of physical buffers. From any well-formed state of the memory manager, after any
  history of allocating, dropping and unmapping buffers of fewer than 512 pages: the buffers that
  exist occupy pairwise disjoint physical memory and pairwise disjoint virtual addresses, none of
  their pages is free or holds a page table, every address of a buffer translates to the
  corresponding byte of its physical memory, and each buffer can be dropped, which returns exactly
  its pages and its addresses to the allocators.
\<close>

theorem physical_buffers_isolated:
  assumes "kmem_ok k0" "buffer_history k0 k bs"
  shows "(\<forall>j<length bs. \<forall>i<j. pb_phys (bs ! i) \<inter> pb_phys (bs ! j) = {} \<and> pb_virt (bs ! i) \<inter> pb_virt (bs ! j) = {}) \<and>
    (\<forall>b\<in>set bs. pb_phys b \<inter> pma_free_set (km_alloc k) = {} \<and> pb_phys b \<inter> tables (km_pt k) (km_root k) = {} \<and>
       (\<forall>va\<in>pb_virt b. map_option fst (mmu_translate (km_pt k) (km_root k) va) =
          Some (pb_phy_addr b + (va - pb_vir_addr b))) \<and>
       (\<exists>k'. pb_drop b k = Ok k' \<and> pma_free_set (km_alloc k') = pma_free_set (km_alloc k) \<union> pb_phys b \<and>
          vaa_free_set (km_vaa k') = vaa_free_set (km_vaa k) \<union> pb_virt b))"
proof -
  have ok: "kmem_ok k" "buffers_ok k bs" using buffer_history_ok [OF assms] by blast+
  have "\<exists>k'. pb_drop b k = Ok k' \<and> pma_free_set (km_alloc k') = pma_free_set (km_alloc k) \<union> pb_phys b \<and>
      vaa_free_set (km_vaa k') = vaa_free_set (km_vaa k) \<union> pb_virt b" if "b \<in> set bs" for b
    by (rule pb_drop_Ok [OF ok(1) buffers_ok_mem [OF ok(2) that]]) blast
  moreover have "pb_phys b \<inter> pma_free_set (km_alloc k) = {} \<and> pb_phys b \<inter> tables (km_pt k) (km_root k) = {} \<and>
      (\<forall>va\<in>pb_virt b. map_option fst (mmu_translate (km_pt k) (km_root k) va) =
        Some (pb_phy_addr b + (va - pb_vir_addr b)))" if "b \<in> set bs" for b
    using buffers_ok_mem [OF ok(2) that] unfolding buffer_ok_def by blast
  ultimately show ?thesis using buffers_ok_pairwise [OF ok(2)] unfolding apart_def by blast
qed

definition example_kmem :: "pt_mem \<Rightarrow> page_table \<Rightarrow> kmem" where
  "example_kmem m pt = \<lparr>km_pt = m, km_vaa = init_virtual_address_allocator, km_table = pt, km_ram = (\<lambda>_. 0)\<rparr>"

lemma example_kmem_ok:
  obtains m pt where "pt_empty True 0 example_mem = Ok (m, pt)" "kmem_ok (example_kmem m pt)"
    "pages_left (pm_alloc m) = 7"
proof -
  have inv: "pma_inv (pm_alloc example_mem)" "PAGE_SIZE dvd memory_start (pm_alloc example_mem)"
    "memory_start (pm_alloc example_mem) + length (allocated_pages (pm_alloc example_mem)) * PAGE_SIZE \<le> 2 ^ 48"
    by (simp_all add: example_mem_def pma_inv_def PAGE_SIZE_def)
  have left: "pages_left (pm_alloc example_mem) = 8" by (simp add: example_mem_def pages_left_def)
  obtain m pt where e: "pt_empty True 0 example_mem = Ok (m, pt)"
    by (rule allocate_table_cases [OF inv(1, 3)]) (use left in \<open>simp_all add: pt_empty_def\<close>)
  note f = pt_empty_fresh [OF inv e]
  have "high_addresses pt" by (subst f(1)) simp
  then have "kmem_ok (example_kmem m pt)"
    using f(2, 3) init_inv init_free_set by (simp add: kmem_ok_def example_kmem_def kernel_range_eq)
  then show thesis using that [OF e] f(6) left by simp
qed

lemma example_buffer:
  obtains m pt k b where "pt_empty True 0 example_mem = Ok (m, pt)" "kmem_ok (example_kmem m pt)"
    "pb_alloc 1 example_opts (example_kmem m pt) = Ok (k, b)"
proof -
  obtain m pt where e: "pt_empty True 0 example_mem = Ok (m, pt)" "kmem_ok (example_kmem m pt)"
    "pages_left (pm_alloc m) = 7"
    by (rule example_kmem_ok)
  let ?k = "example_kmem m pt"
  have va: "\<exists>v va. va_alloc 1 (km_vaa ?k) = Ok (v, va)"
    by (simp add: example_kmem_def init_virtual_address_allocator_def virt_alloc_new_def va_alloc_def
        START_ADDRESS_def TOTAL_SIZE_def PAGE_SIZE_def)
  have "pma_inv (pm_alloc m)" using e(2) pt_invD(1) by (auto simp: kmem_ok_def example_kmem_def)
  then have pa: "\<exists>p pa. alloc_contig 1 (km_alloc ?k) = Ok (p, pa)"
    by (rule alloc_page_cases) (use e(3) in \<open>auto simp: example_kmem_def alloc_page_def\<close>)
  have "\<exists>k b. pb_alloc 1 example_opts ?k = Ok (k, b)"
    using pb_alloc_progress [OF e(2), of 1 example_opts] e(3) va pa
    by (cases "pb_alloc 1 example_opts ?k") (auto simp: example_kmem_def)
  then show thesis using that e(1, 2) by blast
qed

theorem physical_buffers_isolated_witness:
  "\<exists>m pt k b k'. pt_empty True 0 example_mem = Ok (m, pt) \<and>
     buffer_history (example_kmem m pt) k [b] \<and> pb_page_count b = 1 \<and>
     map_option fst (mmu_translate (km_pt k) (km_root k) (pb_vir_addr b)) = Some (pb_phy_addr b) \<and>
     pb_drop b k = Ok k'"
proof -
  obtain m pt k b where e: "pt_empty True 0 example_mem = Ok (m, pt)" "kmem_ok (example_kmem m pt)"
    "pb_alloc 1 example_opts (example_kmem m pt) = Ok (k, b)"
    by (rule example_buffer)
  have n: "pb_page_count b = 1" using pb_alloc_progress [OF e(2), of 1 example_opts] e(3) by simp
  have h: "buffer_history (example_kmem m pt) k [b]"
    using buffer_alloc [OF buffer_start, of 1 example_opts] e(3) by simp
  have "pb_vir_addr b \<in> pb_virt b" using n by (simp add: region_def)
  then show ?thesis using physical_buffers_isolated [OF e(2) h] e(1) h n by fastforce
qed

text \<open>
  C18. \<open>PhysicalBuffer::alloc\<close> of fewer than 512 pages. On success the buffer has the requested size,
  pages and addresses that were free, and translates with the requested permissions. It fails without
  any effect if there is no run of free pages. If the virtual addresses are exhausted it fails with
  \<open>OutOfMemory\<close> and the physical pages it had already taken stay allocated. It panics only when fewer
  than four pages per page of the buffer were free, when the tables for the mapping cannot be
  allocated.
\<close>

theorem pb_alloc_correct:
  assumes "kmem_ok k" "0 < n" "n < 512"
  shows "case pb_alloc n opts k of
      Ok (k', b) \<Rightarrow> kmem_ok k' \<and> pb_page_count b = n \<and> pb_phys b \<subseteq> pma_free_set (km_alloc k) \<and>
        pb_virt b \<subseteq> vaa_free_set (km_vaa k) \<and> vaa_free_set (km_vaa k') = vaa_free_set (km_vaa k) - pb_virt b \<and>
        (\<forall>va\<in>pb_virt b. mmu_translate (km_pt k') (km_root k') va =
           Some (pb_phy_addr b + (va - pb_vir_addr b), read_only opts, el0_access opts))
    | Err (e, k') \<Rightarrow>
        k' = k \<and> (\<forall>p pa. alloc_contig n (km_alloc k) \<noteq> Ok (p, pa)) \<or>
        e = OutOfMemory \<and> (\<forall>v va. va_alloc n (km_vaa k) \<noteq> Ok (v, va)) \<and>
        (\<exists>p pa. alloc_contig n (km_alloc k) = Ok (p, pa) \<and> k' = km_set_alloc p k)
    | Panic \<Rightarrow> pages_left (km_alloc k) < 4 * n"
proof (cases "pb_alloc n opts k")
  case (Ok r)
  obtain k' b where r: "r = (k', b)" by (cases r)
  then show ?thesis
    using pb_alloc_progress [OF assms, of opts] pb_alloc_keeps(1, 3) [OF assms, of opts k' b "[]"] Ok by auto
qed (use pb_alloc_progress [OF assms, of opts] in simp_all)

theorem pb_alloc_correct_witness:
  "\<exists>m pt k b. pt_empty True 0 example_mem = Ok (m, pt) \<and> pb_alloc 1 example_opts (example_kmem m pt) = Ok (k, b) \<and>
     pb_page_count b = 1 \<and> mmu_translate (km_pt k) (km_root k) (pb_vir_addr b) = Some (pb_phy_addr b, False, True)"
proof -
  obtain m pt k b where e: "pt_empty True 0 example_mem = Ok (m, pt)" "kmem_ok (example_kmem m pt)"
    "pb_alloc 1 example_opts (example_kmem m pt) = Ok (k, b)"
    by (rule example_buffer)
  have "pb_page_count b = 1 \<and> (\<forall>va\<in>pb_virt b. mmu_translate (km_pt k) (km_root k) va =
      Some (pb_phy_addr b + (va - pb_vir_addr b), False, True))"
    using pb_alloc_correct [OF e(2), of 1 example_opts] e(3) by (simp add: example_opts_def)
  then show ?thesis using e(1, 3) by (auto simp: region_def)
qed

end
