(* ===== verification/Registry_Path.thy ===== *)
theory Registry_Path
  imports Kernel_Prelude
begin

text \<open>
  Paths of the registry (\<open>kernel/src/registry/path.rs\<close>): the double-ended iterator over the components
  of a path and the operations built on it. A path is a string of bytes. The separator is an ASCII
  character, so all slices the code takes lie on character boundaries.
\<close>

section \<open>Strings\<close>

text \<open>\<open>str::find\<close> and \<open>str::rfind\<close> of one character.\<close>

primrec find_char :: "char \<Rightarrow> string \<Rightarrow> nat option" where
  "find_char c [] = None"
| "find_char c (x # xs) = (if x = c then Some 0 else map_option Suc (find_char c xs))"

definition rfind_char :: "char \<Rightarrow> string \<Rightarrow> nat option" where
  "rfind_char c s = map_option (\<lambda>i. length s - 1 - i) (find_char c (rev s))"

definition PATH_SEP :: char where
  "PATH_SEP = CHR ''/''"

section \<open>The component iterator\<close>

datatype component = Root | CurrentDir | ParentDir | Name string

definition component_from_str :: "string \<Rightarrow> component" where
  "component_from_str s = (if s = ''.'' then CurrentDir else if s = ''..'' then ParentDir else Name s)"

record components =
  c_s :: string
  c_front :: nat
  c_back :: nat

definition components_new :: "string \<Rightarrow> components" where
  "components_new s = \<lparr>c_s = s, c_front = 0, c_back = length s\<rparr>"

definition as_path :: "components \<Rightarrow> ('e, string) outcome" where
  "as_path c = slice_range (c_s c) (c_front c) (c_back c)"

definition comps_next :: "components \<Rightarrow> ('e, component option \<times> components) outcome" where
  "comps_next c =
     (if c_back c \<le> c_front c then Ok (None, c)
      else bind_outcome (slice_range (c_s c) (c_front c) (c_back c)) (\<lambda>cur.
        case find_char PATH_SEP cur of
          Some next_sep \<Rightarrow>
            if next_sep = 0 then Ok (Some Root, c\<lparr>c_front := c_front c + 1\<rparr>)
            else Ok (Some (component_from_str (take next_sep cur)), c\<lparr>c_front := c_front c + (next_sep + 1)\<rparr>)
        | None \<Rightarrow> Ok (Some (component_from_str cur), c\<lparr>c_front := c_back c\<rparr>)))"

text \<open>
  The loop of \<open>next_back\<close> over trailing separators. \<open>Inl\<close>: the code returns \<open>None\<close>; \<open>Inr\<close>: the new
  back and the current slice. The index that \<open>rfind\<close> gives is relative to the slice, the back is not.
\<close>

function strip_back :: "nat \<Rightarrow> nat \<Rightarrow> string \<Rightarrow> ('e, nat + nat \<times> string) outcome" where
  "strip_back front back_pos cur =
     (case rfind_char PATH_SEP cur of
        Some i \<Rightarrow>
          if i + 1 = back_pos then
            if back_pos - 1 \<le> front then Ok (Inl (back_pos - 1))
            else bind_outcome (slice_range cur front (back_pos - 1)) (strip_back front (back_pos - 1))
          else Ok (Inr (back_pos, cur))
      | None \<Rightarrow> Ok (Inr (back_pos, cur)))"
  by pat_completeness auto
termination
  by (relation "measure (\<lambda>(_, back_pos, _). back_pos)") auto

declare strip_back.simps [simp del]

definition comps_next_back :: "components \<Rightarrow> ('e, component option \<times> components) outcome" where
  "comps_next_back c =
     (if c_back c \<le> c_front c then Ok (None, c)
      else bind_outcome (slice_range (c_s c) (c_front c) (c_back c)) (\<lambda>cur.
        if cur = ''/'' then Ok (Some Root, c\<lparr>c_back := c_front c\<rparr>)
        else bind_outcome (strip_back (c_front c) (c_back c) cur) (\<lambda>r.
          case r of
            Inl b \<Rightarrow> Ok (None, c\<lparr>c_back := b\<rparr>)
          | Inr (b, cur) \<Rightarrow>
              (case rfind_char PATH_SEP cur of
                 Some last_sep \<Rightarrow>
                   Ok (Some (component_from_str (drop (last_sep + 1) cur)),
                       c\<lparr>c_back := b - (length cur - last_sep - 1)\<rparr>)
               | None \<Rightarrow> Ok (Some (component_from_str cur), c\<lparr>c_back := c_front c\<rparr>)))))"

section \<open>Paths\<close>

definition path_is_absolute :: "string \<Rightarrow> ('e, bool) outcome" where
  "path_is_absolute p = bind_outcome (comps_next (components_new p)) (\<lambda>(c, _). Ok (c = Some Root))"

definition path_parent :: "string \<Rightarrow> ('e, string option) outcome" where
  "path_parent p =
     bind_outcome (comps_next_back (components_new p)) (\<lambda>(c, comps).
     case c of
       None \<Rightarrow> Ok None
     | Some Root \<Rightarrow> Ok None
     | Some _ \<Rightarrow> bind_outcome (as_path comps) (\<lambda>q. Ok (Some q)))"

definition pathbuf_push :: "string \<Rightarrow> string \<Rightarrow> string" where
  "pathbuf_push s p = (if s \<noteq> [] \<and> last s = PATH_SEP then s @ p else s @ [PATH_SEP] @ p)"

definition pathbuf_pop :: "string \<Rightarrow> ('e, string \<times> bool) outcome" where
  "pathbuf_pop s =
     bind_outcome (path_parent s) (\<lambda>q.
     case q of
       Some p \<Rightarrow> Ok (take (length p) s, True)
     | None \<Rightarrow> Ok (s, False))"

section \<open>The iterator on strings\<close>

lemma find_char_Some: "find_char c s = Some n \<Longrightarrow> n < length s \<and> s ! n = c \<and> c \<notin> set (take n s)"
  by (induction s arbitrary: n) (auto simp: nth_Cons split: if_splits nat.splits)

lemma find_char_None: "find_char c s = None \<longleftrightarrow> c \<notin> set s"
  by (induction s) auto

lemma find_char_append: "c \<notin> set xs \<Longrightarrow> find_char c (xs @ c # ys) = Some (length xs)"
  by (induction xs) auto

lemma rfind_char_None: "rfind_char c s = None \<longleftrightarrow> c \<notin> set s"
  by (simp add: rfind_char_def find_char_None)

lemma rfind_char_append: "c \<notin> set ys \<Longrightarrow> rfind_char c (xs @ c # ys) = Some (length xs)"
  using find_char_append [of c "rev ys" "rev xs"] by (simp add: rfind_char_def)

text \<open>What is left to iterate over, and one step of the forward iteration on it.\<close>

definition remaining :: "components \<Rightarrow> string" where
  "remaining c = take (c_back c - c_front c) (drop (c_front c) (c_s c))"

definition comps_ok :: "components \<Rightarrow> bool" where
  "comps_ok c \<longleftrightarrow> c_front c \<le> c_back c \<and> c_back c \<le> length (c_s c)"

definition next_str :: "string \<Rightarrow> (component \<times> string) option" where
  "next_str s =
     (if s = [] then None
      else case find_char PATH_SEP s of
        Some n \<Rightarrow> Some (if n = 0 then Root else component_from_str (take n s), drop (n + 1) s)
      | None \<Rightarrow> Some (component_from_str s, []))"

lemma comps_next_remaining:
  assumes "comps_ok c"
  obtains c' where "comps_next c = (Ok (map_option fst (next_str (remaining c)), c') :: ('e, component option \<times> components) outcome)"
    "comps_ok c'" "c_s c' = c_s c" "c_back c' = c_back c"
    "remaining c' = (case next_str (remaining c) of None \<Rightarrow> [] | Some (_, r) \<Rightarrow> r)"
proof (cases "c_back c \<le> c_front c")
  case True
  then have "comps_next c = (Ok (map_option fst (next_str (remaining c)), c) :: ('e, component option \<times> components) outcome)"
    "remaining c = []"
    by (simp_all add: comps_next_def remaining_def next_str_def)
  then show ?thesis using that [of c] assms by (simp add: next_str_def)
next
  case False
  let ?cur = "remaining c"
  have cur: "slice_range (c_s c) (c_front c) (c_back c) = (Ok ?cur :: ('e, string) outcome)" "?cur \<noteq> []" "length ?cur = c_back c - c_front c"
    using assms False by (auto simp: slice_range_def comps_ok_def remaining_def)
  show ?thesis
  proof (cases "find_char PATH_SEP ?cur")
    case None
    then show ?thesis
      using that [of "c\<lparr>c_front := c_back c\<rparr>"] False cur assms
      by (simp add: comps_next_def next_str_def comps_ok_def remaining_def [of "c\<lparr>c_front := c_back c\<rparr>"])
  next
    case (Some n)
    then have n: "n < c_back c - c_front c" using find_char_Some [OF Some] cur(3) by simp
    let ?c = "c\<lparr>c_front := c_front c + (n + 1)\<rparr>"
    have "remaining ?c = drop (n + 1) ?cur" using n by (simp add: remaining_def drop_take add.commute)
    moreover have "comps_next c = (Ok (map_option fst (next_str ?cur), ?c) :: ('e, component option \<times> components) outcome)"
      using Some False cur by (simp add: comps_next_def next_str_def)
    ultimately show ?thesis using that [of ?c] Some n cur(2) assms by (simp add: next_str_def comps_ok_def)
  qed
qed

text \<open>
  One step of the backward iteration, on a path of which nothing was consumed at the front, which is
  how \<open>parent\<close>, \<open>file_name\<close> and \<open>Registry::register\<close> use it.
\<close>

definition rstrip :: "string \<Rightarrow> string" where
  "rstrip s = rev (dropWhile (\<lambda>x. x = PATH_SEP) (rev s))"

definition next_back_str :: "string \<Rightarrow> (component \<times> string) option" where
  "next_back_str s =
     (if s = ''/'' then Some (Root, [])
      else if rstrip s = [] then None
      else case rfind_char PATH_SEP (rstrip s) of
        Some i \<Rightarrow> Some (component_from_str (drop (i + 1) (rstrip s)), take (i + 1) (rstrip s))
      | None \<Rightarrow> Some (component_from_str (rstrip s), []))"

lemma rstrip_snoc [simp]: "rstrip (s @ [x]) = (if x = PATH_SEP then rstrip s else s @ [x])"
  by (simp add: rstrip_def)

lemma rstrip_Nil [simp]: "rstrip [] = []"
  by (simp add: rstrip_def)

lemma rfind_char_snoc: "rfind_char c (s @ [x]) = (if x = c then Some (length s) else rfind_char c s)"
  by (cases "find_char c (rev s)") (auto simp: rfind_char_def)

lemma rfind_char_Some: "rfind_char c s = Some i \<Longrightarrow> i < length s"
  using find_char_Some [of c "rev s"] by (auto simp: rfind_char_def)

lemma strip_back_rstrip:
  assumes "s \<noteq> []"
  shows "strip_back 0 (length s) s = Ok (if rstrip s = [] then Inl 0 else Inr (length (rstrip s), rstrip s))"
  using assms
proof (induction s rule: rev_induct)
  case (snoc x s)
  show ?case
  proof (cases "x = PATH_SEP")
    case True
    show ?thesis
    proof (cases "s = []")
      case True
      then show ?thesis using \<open>x = PATH_SEP\<close> by (subst strip_back.simps) (simp add: rfind_char_def rstrip_def)
    next
      case False
      then show ?thesis
        using snoc.IH \<open>x = PATH_SEP\<close> by (subst strip_back.simps) (simp add: rfind_char_snoc slice_range_def)
    qed
  next
    case False
    then show ?thesis
      using rfind_char_Some [of PATH_SEP s] by (subst strip_back.simps) (auto simp: rfind_char_snoc split: option.splits)
  qed
qed simp

lemma length_rstrip: "length (rstrip s) \<le> length s"
  by (induction s rule: rev_induct) auto

lemma rstrip_prefix: "take (length (rstrip s)) s = rstrip s"
proof (induction s rule: rev_induct)
  case (snoc x s)
  then show ?case using length_rstrip [of s] by simp
qed simp

lemma comps_next_back_remaining:
  assumes "comps_ok c" "c_front c = 0"
  obtains c' where "comps_next_back c = (Ok (map_option fst (next_back_str (remaining c)), c') :: ('e, component option \<times> components) outcome)"
    "comps_ok c'" "c_front c' = 0" "c_s c' = c_s c"
    "remaining c' = (case next_back_str (remaining c) of None \<Rightarrow> [] | Some (_, r) \<Rightarrow> r)"
proof (cases "c_back c = 0")
  case True
  then have "remaining c = []" using assms by (simp add: remaining_def)
  then show ?thesis
    using that [of c] True assms by (simp add: comps_next_back_def next_back_str_def)
next
  case False
  let ?cur = "remaining c" and ?t = "rstrip (remaining c)"
  have cur: "slice_range (c_s c) 0 (c_back c) = (Ok ?cur :: ('e, string) outcome)" "?cur \<noteq> []" "length ?cur = c_back c"
    "take (c_back c) (c_s c) = ?cur"
    using assms False by (auto simp: slice_range_def comps_ok_def remaining_def)
  have le: "length ?t \<le> c_back c" using length_rstrip [of ?cur] cur(3) by simp
  have pre: "take n (c_s c) = take n ?t" if "n \<le> length ?t" for n
    using that le cur(4) rstrip_prefix [of ?cur] by (metis min.absorb1 order.trans take_take)
  have strip: "strip_back 0 (c_back c) ?cur = (Ok (if ?t = [] then Inl 0 else Inr (length ?t, ?t)) :: ('e, _) outcome)"
    using strip_back_rstrip [OF cur(2)] cur(3) by simp
  note step = comps_next_back_def [of c] assms(2) cur(1) strip
  consider "?cur = ''/''" | "?cur \<noteq> ''/''" "?t = []"
    | "?cur \<noteq> ''/''" "?t \<noteq> []" "rfind_char PATH_SEP ?t = None"
    | i where "?cur \<noteq> ''/''" "?t \<noteq> []" "rfind_char PATH_SEP ?t = Some i"
    by blast
  then show ?thesis
  proof cases
    case 4
    then have i: "i < length ?t" by (simp add: rfind_char_Some)
    let ?c = "c\<lparr>c_back := i + 1\<rparr>"
    have "remaining ?c = take (i + 1) ?t" using pre [of "i + 1"] i assms(2) by (simp add: remaining_def)
    moreover have "length ?t - (length ?t - i - 1) = i + 1" using i by simp
    ultimately show ?thesis
      using that [of ?c] 4 False i le assms by (simp add: step next_back_str_def comps_ok_def)
  qed (use that [of "c\<lparr>c_back := 0\<rparr>"] False assms in
      \<open>simp_all add: step next_back_str_def comps_ok_def remaining_def [of "c\<lparr>c_back := 0\<rparr>"]\<close>)
qed

section \<open>File names\<close>

lemma next_back_str_dot: "next_back_str s = Some (CurrentDir, r) \<Longrightarrow> length r < length s"
  using length_rstrip [of s]
  by (auto simp: next_back_str_def component_from_str_def dest!: arg_cong [of _ "''.''" length]
      split: if_splits option.splits)

lemma file_name_shorter:
  assumes "comps_next_back (components_new p) = (Ok (Some CurrentDir, c) :: ('e, component option \<times> components) outcome)"
    "as_path c = (Ok q :: ('e, string) outcome)"
  shows "length q < length p"
proof -
  have ok: "comps_ok (components_new p)" "c_front (components_new p) = 0" "remaining (components_new p) = p"
    by (simp_all add: components_new_def comps_ok_def remaining_def)
  obtain c' where c': "comps_next_back (components_new p) =
      (Ok (map_option fst (next_back_str p), c') :: ('e, component option \<times> components) outcome)"
    "remaining c' = (case next_back_str p of None \<Rightarrow> [] | Some (_, r) \<Rightarrow> r)"
    using comps_next_back_remaining [OF ok(1, 2)] unfolding ok(3) by metis
  then have "next_back_str p = Some (CurrentDir, remaining c')" "c' = c"
    using assms(1) by (auto split: option.splits)
  moreover have "q = remaining c" using assms(2) by (simp add: as_path_def slice_range_def remaining_def split: if_splits)
  ultimately show ?thesis using next_back_str_dot by simp
qed

function path_file_name :: "string \<Rightarrow> ('e, string option) outcome" where
  "path_file_name p =
     bind_outcome (comps_next_back (components_new p)) (\<lambda>(c, comps).
     case c of
       None \<Rightarrow> Ok None
     | Some Root \<Rightarrow> Ok None
     | Some CurrentDir \<Rightarrow> bind_outcome (as_path comps) path_file_name
     | Some ParentDir \<Rightarrow> Ok None
     | Some (Name s) \<Rightarrow> Ok (Some s))"
  by pat_completeness auto
termination
  by (relation "measure length") (auto dest: file_name_shorter)

declare path_file_name.simps [simp del]

section \<open>Whole iterations\<close>

lemma comps_next_progress:
  "comps_next c = Ok (Some x, c') \<Longrightarrow> c_back c' - c_front c' < c_back c - c_front c"
  by (auto simp: comps_next_def outcome_simps split: if_splits option.splits)

function comps_forward :: "components \<Rightarrow> ('e, component list) outcome" where
  "comps_forward c =
     bind_outcome (comps_next c) (\<lambda>(x, c').
     case x of None \<Rightarrow> Ok [] | Some y \<Rightarrow> bind_outcome (comps_forward c') (\<lambda>ys. Ok (y # ys)))"
  by pat_completeness auto
termination
  by (relation "measure (\<lambda>c. c_back c - c_front c)") (auto dest: comps_next_progress)

declare comps_forward.simps [simp del]

text \<open>The backward iteration need not end when components were taken from the front, hence the \<open>option\<close>.\<close>

partial_function (option) comps_backward :: "components \<Rightarrow> (unit, component list) outcome option" where
  "comps_backward c =
     (case comps_next_back c of
        Ok (Some y, c') \<Rightarrow>
          Option.bind (comps_backward c') (\<lambda>r. Some (bind_outcome r (\<lambda>ys. Ok (y # ys))))
      | Ok (None, _) \<Rightarrow> Some (Ok [])
      | Err e \<Rightarrow> Some (Err e)
      | Panic \<Rightarrow> Some Panic)"

section \<open>Well-formed paths\<close>

text \<open>Names joined by single separators, with an optional leading and trailing separator.\<close>

primrec join_names :: "string list \<Rightarrow> string" where
  "join_names [] = []"
| "join_names (n # ns) = (if ns = [] then n else n @ PATH_SEP # join_names ns)"

definition path_string :: "bool \<Rightarrow> string list \<Rightarrow> bool \<Rightarrow> string" where
  "path_string absolute ns trailing =
     (if absolute then [PATH_SEP] else []) @ join_names ns @ (if trailing \<and> ns \<noteq> [] then [PATH_SEP] else [])"

definition name_ok :: "string \<Rightarrow> bool" where
  "name_ok n \<longleftrightarrow> n \<noteq> [] \<and> PATH_SEP \<notin> set n"

abbreviation names_ok :: "string list \<Rightarrow> bool" where
  "names_ok ns \<equiv> list_all name_ok ns"

lemma next_str_simps:
  "next_str [] = None"
  "next_str (PATH_SEP # s) = Some (Root, s)"
  "name_ok n \<Longrightarrow> next_str (n @ PATH_SEP # s) = Some (component_from_str n, s)"
  "name_ok n \<Longrightarrow> next_str n = Some (component_from_str n, [])"
  using find_char_append [of PATH_SEP n s] find_char_None [of PATH_SEP n]
  by (auto simp: next_str_def name_ok_def)

lemma next_str_path:
  "name_ok n \<Longrightarrow> next_str (path_string False (n # ns) t) = Some (component_from_str n, path_string False ns t)"
  "next_str (path_string True ns t) = Some (Root, path_string False ns t)"
  using next_str_simps by (auto simp: path_string_def)

lemma join_names_snoc: "join_names (ns @ [n]) = (if ns = [] then n else join_names ns @ PATH_SEP # n)"
  by (induction ns) auto

lemma rstrip_name: "name_ok n \<Longrightarrow> rstrip (s @ n) = s @ n"
  by (cases n rule: rev_cases) (auto simp: name_ok_def simp flip: append_assoc)

lemma rstrip_path: "name_ok n \<Longrightarrow> rstrip (path_string a (ns @ [n]) t) = path_string a (ns @ [n]) False"
proof -
  assume n: "name_ok n"
  have "rstrip (path_string a (ns @ [n]) False) = path_string a (ns @ [n]) False"
    using rstrip_name [OF n, of "(if a then [PATH_SEP] else []) @ (if ns = [] then [] else join_names ns @ [PATH_SEP])"]
    by (auto simp: path_string_def join_names_snoc)
  then show "rstrip (path_string a (ns @ [n]) t) = path_string a (ns @ [n]) False"
    by (cases t) (simp_all add: path_string_def append_assoc [symmetric] del: append_assoc)
qed

lemma next_back_str_path:
  assumes "name_ok n"
  shows "next_back_str (path_string a (ns @ [n]) t) = Some (component_from_str n, path_string a ns True)"
proof -
  let ?pre = "(if a then [PATH_SEP] else []) @ join_names ns"
  have n: "PATH_SEP \<notin> set n" "n \<noteq> []" using assms by (auto simp: name_ok_def)
  have neq: "path_string a (ns @ [n]) t \<noteq> ''/''" "path_string a (ns @ [n]) False \<noteq> []"
    using n by (auto simp: path_string_def join_names_snoc PATH_SEP_def append_eq_Cons_conv split: if_splits)
  show ?thesis
  proof (cases "\<not> a \<and> ns = []")
    case True
    then have "path_string a (ns @ [n]) False = n" "path_string a ns True = []" by (simp_all add: path_string_def)
    then show ?thesis
      using neq n rfind_char_None [of PATH_SEP n] by (simp add: next_back_str_def rstrip_path [OF assms])
  next
    case False
    then obtain q where q: "path_string a (ns @ [n]) False = q @ PATH_SEP # n" "path_string a ns True = q @ [PATH_SEP]"
      by (cases "ns = []") (auto simp: path_string_def join_names_snoc)
    then show ?thesis
      using neq rfind_char_append [OF n(1), of q] by (simp add: next_back_str_def rstrip_path [OF assms])
  qed
qed

lemma next_back_str_root: "next_back_str (path_string True [] t) = Some (Root, [])" "next_back_str [] = None"
  by (simp_all add: next_back_str_def path_string_def PATH_SEP_def)

definition path_components :: "bool \<Rightarrow> string list \<Rightarrow> component list" where
  "path_components absolute ns = (if absolute then [Root] else []) @ map component_from_str ns"

lemma comps_forward_relative:
  "comps_ok c \<Longrightarrow> remaining c = path_string False ns t \<Longrightarrow> names_ok ns \<Longrightarrow>
     comps_forward c = (Ok (map component_from_str ns) :: ('e, component list) outcome)"
proof (induction ns arbitrary: c)
  case Nil
  obtain c' where "comps_next c = (Ok (map_option fst (next_str (remaining c)), c') :: ('e, _) outcome)"
    by (rule comps_next_remaining [OF Nil.prems(1)])
  then show ?case using Nil by (subst comps_forward.simps) (simp add: path_string_def next_str_simps)
next
  case (Cons n ns)
  obtain c' where c': "comps_next c = (Ok (map_option fst (next_str (remaining c)), c') :: ('e, _) outcome)" "comps_ok c'"
    "remaining c' = (case next_str (remaining c) of None \<Rightarrow> [] | Some (_, r) \<Rightarrow> r)"
    by (rule comps_next_remaining [OF Cons.prems(1)])
  have "remaining c' = path_string False ns t" "comps_next c = (Ok (Some (component_from_str n), c') :: ('e, _) outcome)"
    using c' Cons.prems by (simp_all add: next_str_path)
  then show ?case using Cons.IH [of c'] c'(2) Cons.prems(3) by (subst comps_forward.simps) simp
qed

lemma comps_forward_path:
  assumes "names_ok ns"
  shows "comps_forward (components_new (path_string a ns t)) = (Ok (path_components a ns) :: ('e, component list) outcome)"
proof -
  let ?c = "components_new (path_string a ns t)"
  have ok: "comps_ok ?c" "remaining ?c = path_string a ns t"
    by (simp_all add: components_new_def comps_ok_def remaining_def)
  show ?thesis
  proof (cases a)
    case True
    obtain c' where c': "comps_next ?c = (Ok (map_option fst (next_str (remaining ?c)), c') :: ('e, _) outcome)" "comps_ok c'"
      "remaining c' = (case next_str (remaining ?c) of None \<Rightarrow> [] | Some (_, r) \<Rightarrow> r)"
      by (rule comps_next_remaining [OF ok(1)])
    have rem: "remaining c' = path_string False ns t" and "comps_next ?c = (Ok (Some Root, c') :: ('e, _) outcome)"
      using c'(1, 3) True unfolding ok(2) by (simp_all add: next_str_path)
    then show ?thesis
      using True by (subst comps_forward.simps) (simp add: comps_forward_relative [OF c'(2) rem assms] path_components_def)
  next
    case False
    then have rem: "remaining ?c = path_string False ns t" using ok(2) by simp
    have "comps_forward ?c = (Ok (map component_from_str ns) :: ('e, _) outcome)"
      by (rule comps_forward_relative [OF ok(1) rem assms])
    then show ?thesis using False by (simp add: path_components_def)
  qed
qed

lemma comps_backward_path_from:
  "comps_ok c \<Longrightarrow> c_front c = 0 \<Longrightarrow> remaining c = path_string a ns t \<Longrightarrow> names_ok ns \<Longrightarrow>
     comps_backward c = Some (Ok (rev (path_components a ns)))"
proof (induction ns arbitrary: c t rule: rev_induct)
  case Nil
  obtain c' where c': "comps_next_back c = (Ok (map_option fst (next_back_str (remaining c)), c') :: (unit, _) outcome)"
    "comps_ok c'" "c_front c' = 0" "remaining c' = (case next_back_str (remaining c) of None \<Rightarrow> [] | Some (_, r) \<Rightarrow> r)"
    by (rule comps_next_back_remaining [OF Nil.prems(1, 2)])
  have empty: "comps_backward d = Some (Ok [])" if "comps_ok d" "c_front d = 0" "remaining d = []" for d
    using that by (subst comps_backward.simps) (auto simp: comps_next_back_def comps_ok_def remaining_def)
  show ?case
  proof (cases a)
    case True
    then have "comps_next_back c = (Ok (Some Root, c') :: (unit, _) outcome)" "remaining c' = []"
      using c'(1, 4) Nil.prems(3) by (simp_all add: next_back_str_root)
    then show ?thesis
      using empty [OF c'(2, 3)] True by (subst comps_backward.simps) (simp add: path_components_def)
  next
    case False
    then show ?thesis using empty [OF Nil.prems(1, 2)] Nil.prems(3) by (simp add: path_string_def path_components_def)
  qed
next
  case (snoc n ns)
  obtain c' where c': "comps_next_back c = (Ok (map_option fst (next_back_str (remaining c)), c') :: (unit, _) outcome)"
    "comps_ok c'" "c_front c' = 0" "remaining c' = (case next_back_str (remaining c) of None \<Rightarrow> [] | Some (_, r) \<Rightarrow> r)"
    by (rule comps_next_back_remaining [OF snoc.prems(1, 2)])
  have "remaining c' = path_string a ns True" "comps_next_back c = (Ok (Some (component_from_str n), c') :: (unit, _) outcome)"
    using c'(1, 4) snoc.prems(3, 4) by (simp_all add: next_back_str_path)
  then show ?case
    using snoc.IH [OF c'(2, 3)] snoc.prems(4) by (subst comps_backward.simps) (simp add: path_components_def)
qed

text \<open>
  C19. Iterating over the components of a well-formed path (names without separators joined by single
  separators, absolute or relative, with or without a trailing separator) yields its names in order,
  after \<open>Root\<close> for an absolute path; iterating from the back yields the same components in reverse order.
  Neither iteration panics.
\<close>

theorem path_components_both_ways:
  assumes "names_ok ns"
  shows "comps_forward (components_new (path_string absolute ns trailing)) =
      (Ok (path_components absolute ns) :: (unit, component list) outcome) \<and>
    comps_backward (components_new (path_string absolute ns trailing)) = Some (Ok (rev (path_components absolute ns)))"
proof
  show "comps_forward (components_new (path_string absolute ns trailing)) =
      (Ok (path_components absolute ns) :: (unit, component list) outcome)"
    by (rule comps_forward_path [OF assms])
  show "comps_backward (components_new (path_string absolute ns trailing)) = Some (Ok (rev (path_components absolute ns)))"
    by (rule comps_backward_path_from [OF _ _ _ assms])
      (simp_all add: components_new_def comps_ok_def remaining_def)
qed

theorem path_components_both_ways_witness:
  "comps_forward (components_new ''/abc/../ghi/.'') =
     (Ok [Root, Name ''abc'', ParentDir, Name ''ghi'', CurrentDir] :: (unit, component list) outcome) \<and>
   comps_backward (components_new ''/abc/../ghi/.'') =
     Some (Ok [CurrentDir, Name ''ghi'', ParentDir, Name ''abc'', Root])"
  using path_components_both_ways [of "[''abc'', ''..'', ''ghi'', ''.'']" True False]
  by (simp add: name_ok_def path_string_def PATH_SEP_def path_components_def component_from_str_def)

text \<open>
  Once a component was taken from the front, a trailing separator is no longer skipped by \<open>next_back\<close>,
  which compares an index into the slice with one into the whole path: it returns an empty name and
  makes no progress.
\<close>

lemma next_back_stuck:
  "comps_next (components_new ''/a/'') = Ok (Some Root, \<lparr>c_s = ''/a/'', c_front = 1, c_back = 3\<rparr>)"
  "comps_next_back \<lparr>c_s = ''/a/'', c_front = 1, c_back = 3\<rparr> =
     Ok (Some (Name []), \<lparr>c_s = ''/a/'', c_front = 1, c_back = 3\<rparr>)"
  by (simp_all add: comps_next_def components_new_def slice_range_def PATH_SEP_def comps_next_back_def
      strip_back.simps rfind_char_def component_from_str_def numeral_3_eq_3)

text \<open>A doubled separator appears as another \<open>Root\<close> when iterating forward, and is skipped when iterating backward.\<close>

lemma double_separator:
  "comps_forward (components_new ''a//b'') = (Ok [Name ''a'', Root, Name ''b''] :: (unit, component list) outcome)"
  by (simp add: comps_forward.simps comps_next_def components_new_def slice_range_def PATH_SEP_def component_from_str_def)

section \<open>Parent directories\<close>

lemma component_from_str_not_Root: "component_from_str n \<noteq> Root"
  by (simp add: component_from_str_def)

lemma as_path_remaining: "comps_ok c \<Longrightarrow> as_path c = Ok (remaining c)"
  by (simp add: as_path_def slice_range_def comps_ok_def remaining_def)

lemma path_parent_path:
  "name_ok n \<Longrightarrow> path_parent (path_string a (ns @ [n]) t) = (Ok (Some (path_string a ns True)) :: ('e, _) outcome)"
  "path_parent (path_string True [] t) = (Ok None :: ('e, _) outcome)"
proof -
  fix p
  have ok: "comps_ok (components_new p)" "c_front (components_new p) = 0" "remaining (components_new p) = p" for p
    by (simp_all add: components_new_def comps_ok_def remaining_def)
  show "path_parent (path_string a (ns @ [n]) t) = (Ok (Some (path_string a ns True)) :: ('e, _) outcome)" if "name_ok n"
  proof -
    let ?c = "components_new (path_string a (ns @ [n]) t)"
    obtain c' where c': "comps_next_back ?c = (Ok (map_option fst (next_back_str (remaining ?c)), c') :: ('e, _) outcome)"
      "comps_ok c'" "remaining c' = (case next_back_str (remaining ?c) of None \<Rightarrow> [] | Some (_, r) \<Rightarrow> r)"
      by (rule comps_next_back_remaining [OF ok(1, 2)])
    have "remaining c' = path_string a ns True" "comps_next_back ?c = (Ok (Some (component_from_str n), c') :: ('e, _) outcome)"
      using c'(1, 3) unfolding ok(3) by (simp_all add: next_back_str_path [OF that])
    then show ?thesis
      using component_from_str_not_Root [of n]
      by (cases "component_from_str n") (simp_all add: path_parent_def as_path_remaining [OF c'(2)])
  qed
  let ?c = "components_new (path_string True [] t)"
  obtain c' where "comps_next_back ?c = (Ok (map_option fst (next_back_str (remaining ?c)), c') :: ('e, _) outcome)"
    by (rule comps_next_back_remaining [OF ok(1, 2)])
  then show "path_parent (path_string True [] t) = (Ok None :: ('e, _) outcome)"
    unfolding ok(3) by (simp add: path_parent_def next_back_str_root)
qed

lemma path_prefix: "take (length (path_string a ns True)) (path_string a (ns @ [n]) t) = path_string a ns True"
  by (cases "ns = []") (auto simp: path_string_def join_names_snoc)

lemma last_join_names: "names_ok ns \<Longrightarrow> ns \<noteq> [] \<Longrightarrow> join_names ns \<noteq> [] \<and> last (join_names ns) \<noteq> PATH_SEP"
  by (induction ns) (auto simp: name_ok_def in_set_conv_decomp dest: last_in_set)

lemma pathbuf_push_path:
  assumes "names_ok ns" "absolute \<or> ns \<noteq> []"
  shows "pathbuf_push (path_string absolute ns trailing) n = path_string absolute (ns @ [n]) False"
  using last_join_names [OF assms(1)] assms(2)
  by (cases "ns = []") (auto simp: pathbuf_push_def path_string_def join_names_snoc)

text \<open>
  C20. \<open>PathBuf::pop\<close> undoes \<open>PathBuf::push\<close> of a name on a well-formed directory path, except that the
  separator in front of the name stays; \<open>pop\<close> of the root leaves it and returns false.
\<close>

theorem pathbuf_push_pop:
  assumes "names_ok ns" "name_ok n" "absolute \<or> ns \<noteq> []"
  shows "pathbuf_push (path_string absolute ns trailing) n = path_string absolute (ns @ [n]) False \<and>
    pathbuf_pop (pathbuf_push (path_string absolute ns trailing) n) =
      (Ok (path_string absolute ns True, True) :: (unit, string \<times> bool) outcome) \<and>
    pathbuf_pop (path_string True [] trailing) = (Ok (path_string True [] trailing, False) :: (unit, string \<times> bool) outcome)"
  unfolding pathbuf_push_path [OF assms(1, 3)]
  by (simp add: pathbuf_pop_def path_parent_path(1) [OF assms(2)] path_parent_path(2) path_prefix)

theorem pathbuf_push_pop_witness:
  "pathbuf_push ''/dev'' ''nvme'' = ''/dev/nvme'' \<and>
   pathbuf_pop ''/dev/nvme'' = (Ok (''/dev/'', True) :: (unit, string \<times> bool) outcome)"
  using pathbuf_push_pop [of "[''dev'']" "''nvme''" True False]
  by (auto simp: name_ok_def path_string_def PATH_SEP_def)

end
