(* ===== verification/Registry.thy ===== *)
theory Registry
  imports Registry_Path
begin

text \<open>
  The resource registry (\<open>kernel/src/registry/mod.rs\<close>): a tree of directories with handlers at the
  leaves. Handlers are opaque. The abstraction is the partial function from lists of names to
  handlers; \<open>register\<close> extends it at one point and \<open>find_handler\<close> looks up the handler whose path is a
  prefix.
\<close>

section \<open>The tree\<close>

datatype registry_error =
    NotFound string
  | Unsupported
  | HandlerAlreadyRegistered string
  | InvalidPath

datatype 'h node = Directory "string \<Rightarrow> 'h node option" | Handler 'h

type_synonym 'a reg_outcome = "(registry_error, 'a) outcome"

text \<open>
  \<open>Node::add\<close> changes the node in place; the new node comes with the result. \<open>entry().or_insert()\<close>
  adds an empty directory where there is no child, whatever the recursive call returns.
\<close>

function node_add :: "'h node \<Rightarrow> components \<Rightarrow> string \<Rightarrow> 'h \<Rightarrow> (registry_error, 'h node \<times> unit reg_outcome) outcome" where
  "node_add node prefix name handler =
     bind_outcome (comps_next prefix) (\<lambda>(c, prefix').
     case (c, node) of
       (Some (Name s), Directory children) \<Rightarrow>
         bind_outcome (node_add (case children s of Some d \<Rightarrow> d | None \<Rightarrow> Directory (\<lambda>_. None)) prefix' name handler)
           (\<lambda>(d, r). Ok (Directory (children(s \<mapsto> d)), r))
     | (None, Directory children) \<Rightarrow>
         if children name \<noteq> None then Ok (node, Err (HandlerAlreadyRegistered name))
         else Ok (Directory (children(name \<mapsto> Handler handler)), Ok ())
     | (Some Root, _) \<Rightarrow> Panic
     | (Some ParentDir, _) \<Rightarrow> Panic
     | (Some CurrentDir, _) \<Rightarrow> Panic
     | _ \<Rightarrow> Ok (node, Err (HandlerAlreadyRegistered name)))"
  by pat_completeness auto
termination
  by (relation "measure (\<lambda>(_, c, _, _). c_back c - c_front c)") (auto dest: comps_next_progress)

declare node_add.simps [simp del]

function node_find :: "'h node \<Rightarrow> components \<Rightarrow> (string \<times> 'h) reg_outcome" where
  "node_find node path =
     bind_outcome (comps_next path) (\<lambda>(c, path').
     case (c, node) of
       (Some (Name n), Directory children) \<Rightarrow>
         (case children n of
            Some (Handler h) \<Rightarrow> bind_outcome (as_path path') (\<lambda>sub. Ok (sub, h))
          | Some d \<Rightarrow> node_find d path'
          | None \<Rightarrow> bind_outcome (as_path path') (\<lambda>sub. Err (NotFound sub)))
     | _ \<Rightarrow> Panic)"
  by pat_completeness auto
termination
  by (relation "measure (\<lambda>(_, c). c_back c - c_front c)") (auto dest: comps_next_progress)

declare node_find.simps [simp del]

record 'h registry =
  reg_root :: "'h node"

definition registry_new :: "'h registry" where
  "registry_new = \<lparr>reg_root = Directory (\<lambda>_. None)\<rparr>"

definition register :: "string \<Rightarrow> 'h \<Rightarrow> 'h registry \<Rightarrow> (registry_error, 'h registry \<times> unit reg_outcome) outcome" where
  "register path handler reg =
     bind_outcome (comps_next_back (components_new path)) (\<lambda>(c, pc).
     case c of
       Some (Name name) \<Rightarrow>
         bind_outcome (comps_next pc) (\<lambda>(c', pc').
         case c' of
           Some Root \<Rightarrow>
             bind_outcome (node_add (reg_root reg) pc' name handler) (\<lambda>(node, r).
             Ok (reg\<lparr>reg_root := node\<rparr>, r))
         | _ \<Rightarrow> Ok (reg, Err InvalidPath))
     | _ \<Rightarrow> Ok (reg, Err InvalidPath))"

definition find_handler :: "string \<Rightarrow> 'h registry \<Rightarrow> (string \<times> 'h) reg_outcome" where
  "find_handler p reg =
     bind_outcome (comps_next (components_new p)) (\<lambda>(c, pc).
     case c of
       Some Root \<Rightarrow> node_find (reg_root reg) pc
     | _ \<Rightarrow> Err InvalidPath)"

text \<open>
  \<open>open_block_store\<close> and \<open>open_file\<close> hand the rest of the path to the handler; what the handler does with it is the parameter \<open>open_in\<close>.
\<close>

definition open_resource :: "('h \<Rightarrow> string \<Rightarrow> ('e, 'r) outcome) \<Rightarrow> (registry_error \<Rightarrow> 'e) \<Rightarrow> string \<Rightarrow> 'h registry \<Rightarrow> ('e, 'r) outcome" where
  "open_resource open_in wrap p reg =
     bind_outcome (map_outcome_err wrap (find_handler p reg)) (\<lambda>(subpath, h). open_in h subpath)"

section \<open>The abstraction\<close>

fun handler_at :: "'h node \<Rightarrow> string list \<Rightarrow> 'h option" where
  "handler_at (Handler h) [] = Some h"
| "handler_at (Handler h) (n # ns) = None"
| "handler_at (Directory children) [] = None"
| "handler_at (Directory children) (n # ns) = (case children n of None \<Rightarrow> None | Some d \<Rightarrow> handler_at d ns)"

fun node_at :: "'h node \<Rightarrow> string list \<Rightarrow> 'h node option" where
  "node_at node [] = Some node"
| "node_at (Handler h) (n # ns) = None"
| "node_at (Directory children) (n # ns) = (case children n of None \<Rightarrow> None | Some d \<Rightarrow> node_at d ns)"

text \<open>A name that \<open>from_str\<close> does not turn into a special component.\<close>

definition plain_name :: "string \<Rightarrow> bool" where
  "plain_name n \<longleftrightarrow> name_ok n \<and> n \<noteq> ''.'' \<and> n \<noteq> ''..''"

abbreviation plain_names :: "string list \<Rightarrow> bool" where
  "plain_names ns \<equiv> list_all plain_name ns"

lemma plain_names_ok: "plain_names ns \<Longrightarrow> names_ok ns"
  by (induction ns) (auto simp: plain_name_def)

lemma component_plain: "plain_name n \<Longrightarrow> component_from_str n = Name n"
  by (simp add: plain_name_def component_from_str_def)

text \<open>The steps of the iterator on a relative path, as the tree walks take them.\<close>

lemma comps_next_plain:
  assumes "comps_ok c" "remaining c = path_string False (n # ns) t" "plain_name n"
  obtains c' where "comps_next c = (Ok (Some (Name n), c') :: ('e, component option \<times> components) outcome)" "comps_ok c'"
    "remaining c' = path_string False ns t"
proof -
  obtain c' where c': "comps_next c = (Ok (map_option fst (next_str (remaining c)), c') :: ('e, _) outcome)" "comps_ok c'"
    "remaining c' = (case next_str (remaining c) of None \<Rightarrow> [] | Some (_, r) \<Rightarrow> r)"
    by (rule comps_next_remaining [OF assms(1)])
  have n: "name_ok n" using assms(3) by (simp add: plain_name_def)
  then show thesis
    using that [of c'] c' by (simp add: assms(2) next_str_path(1) [OF n] component_plain [OF assms(3)])
qed

lemma comps_next_end:
  assumes "comps_ok c" "remaining c = []"
  shows "comps_next c = (Ok (None, c) :: ('e, component option \<times> components) outcome)"
  using assms by (auto simp: comps_next_def comps_ok_def remaining_def)

section \<open>Registration\<close>

fun add_names :: "'h node \<Rightarrow> string list \<Rightarrow> string \<Rightarrow> 'h \<Rightarrow> 'h node \<times> unit reg_outcome" where
  "add_names (Directory children) [] name h =
     (if children name \<noteq> None then (Directory children, Err (HandlerAlreadyRegistered name))
      else (Directory (children(name \<mapsto> Handler h)), Ok ()))"
| "add_names (Directory children) (n # ns) name h =
     (let (d, r) = add_names (case children n of Some d \<Rightarrow> d | None \<Rightarrow> Directory (\<lambda>_. None)) ns name h
      in (Directory (children(n \<mapsto> d)), r))"
| "add_names (Handler x) ns name h = (Handler x, Err (HandlerAlreadyRegistered name))"

lemma node_add_names:
  "comps_ok c \<Longrightarrow> remaining c = path_string False ns t \<Longrightarrow> plain_names ns \<Longrightarrow>
     node_add node c name h = Ok (add_names node ns name h)"
proof (induction ns arbitrary: c node)
  case Nil
  then have "comps_next c = (Ok (None, c) :: (registry_error, _) outcome)"
    by (intro comps_next_end) (simp_all add: path_string_def)
  then show ?case by (subst node_add.simps) (cases node, simp_all)
next
  case (Cons n ns)
  have n: "plain_name n" using Cons.prems(3) by simp
  obtain c' where c': "comps_next c = (Ok (Some (Name n), c') :: (registry_error, _) outcome)" "comps_ok c'"
    "remaining c' = path_string False ns t"
    by (rule comps_next_plain [OF Cons.prems(1, 2) n])
  then show ?case
    using Cons.IH [OF c'(2, 3)] Cons.prems(3)
    by (subst node_add.simps) (cases node, auto simp: Let_def split: prod.split)
qed

text \<open>Nothing at or above the new handler's place.\<close>

definition place_free :: "'h node \<Rightarrow> string list \<Rightarrow> bool" where
  "place_free node ns \<longleftrightarrow> node_at node ns = None \<and> (\<forall>k < length ns. handler_at node (take k ns) = None)"

lemma place_free_Handler: "\<not> place_free (Handler x) ns"
  by (cases ns) (auto simp: place_free_def)

lemma place_free_Cons:
  "place_free (Directory children) (n # ns) \<longleftrightarrow> (case children n of None \<Rightarrow> True | Some d \<Rightarrow> place_free d ns)"
proof (cases "children n")
  case None
  have "handler_at (Directory children) (take k (n # ns)) = None" for k using None by (cases k) simp_all
  then show ?thesis using None by (simp add: place_free_def)
next
  case (Some d)
  have "(\<forall>k < length (n # ns). handler_at (Directory children) (take k (n # ns)) = None) \<longleftrightarrow>
      (\<forall>k < length ns. handler_at d (take k ns) = None)"
    using Some by (simp add: All_less_Suc2)
  then show ?thesis using Some by (simp add: place_free_def)
qed

lemma empty_directory: "handler_at (Directory (\<lambda>_. None)) ns = None" "ns \<noteq> [] \<Longrightarrow> place_free (Directory (\<lambda>_. None)) ns"
  by (cases ns; simp add: place_free_Cons)+

lemma add_names_correct:
  "(if place_free node (ns @ [name])
    then snd (add_names node ns name h) = Ok () \<and>
      handler_at (fst (add_names node ns name h)) = (handler_at node)(ns @ [name] \<mapsto> h)
    else snd (add_names node ns name h) = Err (HandlerAlreadyRegistered name) \<and>
      handler_at (fst (add_names node ns name h)) = handler_at node)"
proof (induction ns arbitrary: node)
  case Nil
  show ?case
  proof (cases node)
    case (Directory children)
    have "handler_at (Directory (children(name \<mapsto> Handler h))) qs =
        (if qs = [name] then Some h else handler_at (Directory children) qs)" if "children name = None" for qs
    proof (cases qs)
      case (Cons q qs')
      then show ?thesis using that by (cases qs') auto
    qed simp
    then show ?thesis
      by (cases "children name") (auto simp: Directory place_free_Cons place_free_def [of _ "[]"] fun_eq_iff)
  qed (simp add: place_free_Handler)
next
  case (Cons n ns)
  show ?case
  proof (cases node)
    case (Directory children)
    let ?d = "case children n of Some d \<Rightarrow> d | None \<Rightarrow> Directory (\<lambda>_. None)"
    obtain d r where dr: "add_names ?d ns name h = (d, r)" by (cases "add_names ?d ns name h")
    have at: "handler_at (Directory (children(n \<mapsto> d))) qs =
        (case qs of q # qs' \<Rightarrow> if q = n then handler_at d qs' else handler_at node qs | [] \<Rightarrow> None)" for qs
      by (cases qs) (simp_all add: Directory)
    have old: "handler_at node (n # qs) = handler_at ?d qs" for qs
      by (cases "children n") (simp_all add: Directory empty_directory(1))
    have pf: "place_free node (n # ns @ [name]) = place_free ?d (ns @ [name])"
      by (cases "children n") (simp_all add: Directory place_free_Cons empty_directory(2))
    note ih = Cons.IH [of ?d, unfolded dr]
    have res: "add_names node (n # ns) name h = (Directory (children(n \<mapsto> d)), r)" using dr by (simp add: Directory)
    show ?thesis
    proof (cases "place_free ?d (ns @ [name])")
      case True
      then have d: "r = Ok ()" "handler_at d = (handler_at ?d)(ns @ [name] \<mapsto> h)" using ih by simp_all
      have "handler_at (Directory (children(n \<mapsto> d))) qs = ((handler_at node)(n # ns @ [name] \<mapsto> h)) qs" for qs
      proof (cases qs)
        case (Cons q qs')
        then show ?thesis unfolding at d(2) using old by simp
      qed (simp add: Directory)
      then show ?thesis using True pf d(1) by (simp add: res fun_eq_iff)
    next
      case False
      then have d: "r = Err (HandlerAlreadyRegistered name)" "handler_at d = handler_at ?d" using ih by simp_all
      have "handler_at (Directory (children(n \<mapsto> d))) qs = handler_at node qs" for qs
      proof (cases qs)
        case (Cons q qs')
        then show ?thesis unfolding at d(2) using old by simp
      qed (simp add: Directory)
      then show ?thesis using False pf d(1) by (simp add: res fun_eq_iff)
    qed
  qed (simp add: place_free_Handler)
qed

lemma register_path:
  assumes "plain_names ns" "plain_name name"
  shows "register (path_string True (ns @ [name]) trailing) h reg =
    Ok (let (node, r) = add_names (reg_root reg) ns name h in (reg\<lparr>reg_root := node\<rparr>, r))"
proof -
  let ?p = "path_string True (ns @ [name]) trailing" and ?c = "components_new (path_string True (ns @ [name]) trailing)"
  have ok: "comps_ok ?c" "c_front ?c = 0" "remaining ?c = ?p"
    by (simp_all add: components_new_def comps_ok_def remaining_def)
  have n: "name_ok name" using assms(2) by (simp add: plain_name_def)
  obtain c' where c': "comps_next_back ?c = (Ok (map_option fst (next_back_str (remaining ?c)), c') :: (registry_error, _) outcome)"
    "comps_ok c'" "remaining c' = (case next_back_str (remaining ?c) of None \<Rightarrow> [] | Some (_, r) \<Rightarrow> r)"
    by (rule comps_next_back_remaining [OF ok(1, 2)])
  have r1: "remaining c' = path_string True ns True" and e1: "comps_next_back ?c = (Ok (Some (Name name), c') :: (registry_error, _) outcome)"
    using c'(1, 3) unfolding ok(3) by (simp_all add: next_back_str_path [OF n] component_plain [OF assms(2)])
  obtain d where d: "comps_next c' = (Ok (map_option fst (next_str (remaining c')), d) :: (registry_error, _) outcome)"
    "comps_ok d" "remaining d = (case next_str (remaining c') of None \<Rightarrow> [] | Some (_, r) \<Rightarrow> r)"
    by (rule comps_next_remaining [OF c'(2)])
  have r2: "remaining d = path_string False ns True" and e2: "comps_next c' = (Ok (Some Root, d) :: (registry_error, _) outcome)"
    using d(1, 3) unfolding r1 by (simp_all add: next_str_path)
  show ?thesis
    using e1 e2 by (simp add: register_def node_add_names [OF d(2) r2 assms(1)] split: prod.split)
qed



text \<open>A path with a doubled separator makes \<open>register\<close> panic instead of reporting \<open>InvalidPath\<close>.\<close>

lemma register_double_separator: "register ''/a//b'' h registry_new = Panic"
  by (simp add: register_def registry_new_def comps_next_back_def comps_next_def components_new_def slice_range_def
      strip_back.simps rfind_char_def PATH_SEP_def component_from_str_def node_add.simps)

section \<open>Lookup\<close>

fun find_names :: "'h node \<Rightarrow> string list \<Rightarrow> (string list \<times> 'h) option option" where
  "find_names (Directory children) (n # ns) =
     (case children n of
        Some (Handler h) \<Rightarrow> Some (Some (ns, h))
      | Some d \<Rightarrow> find_names d ns
      | None \<Rightarrow> Some None)"
| "find_names _ _ = None"

lemma node_find_names:
  "comps_ok c \<Longrightarrow> remaining c = path_string False ns t \<Longrightarrow> plain_names ns \<Longrightarrow>
     (case find_names node ns of
        None \<Rightarrow> node_find node c = Panic
      | Some None \<Rightarrow> (\<exists>sub. node_find node c = Err (NotFound sub))
      | Some (Some (rest, h)) \<Rightarrow> node_find node c = Ok (path_string False rest t, h))"
proof (induction ns arbitrary: c node)
  case Nil
  then have "comps_next c = (Ok (None, c) :: (registry_error, _) outcome)"
    by (intro comps_next_end) (simp_all add: path_string_def)
  then show ?case by (subst node_find.simps) (cases node, simp_all)
next
  case (Cons n ns)
  have n: "plain_name n" using Cons.prems(3) by simp
  obtain c' where c': "comps_next c = (Ok (Some (Name n), c') :: (registry_error, _) outcome)" "comps_ok c'"
    "remaining c' = path_string False ns t"
    by (rule comps_next_plain [OF Cons.prems(1, 2) n])
  have path: "as_path c' = (Ok (path_string False ns t) :: (registry_error, _) outcome)"
    using as_path_remaining [OF c'(2)] c'(3) by simp
  have eq: "node_find node c = (case node of
      Directory children \<Rightarrow> (case children n of
          Some (Handler h) \<Rightarrow> Ok (path_string False ns t, h)
        | Some d \<Rightarrow> node_find d c'
        | None \<Rightarrow> Err (NotFound (path_string False ns t)))
    | Handler h \<Rightarrow> Panic)"
    using c'(1) by (subst node_find.simps) (auto simp: path split: node.split option.split)
  show ?case
  proof (cases "\<exists>children d. node = Directory children \<and> children n = Some (Directory d)")
    case True
    then obtain children d where d: "node = Directory children" "children n = Some (Directory d)" by blast
    then have same: "node_find node c = node_find (Directory d) c'" "find_names node (n # ns) = find_names (Directory d) ns"
      unfolding eq by simp_all
    show ?thesis unfolding same by (rule Cons.IH [OF c'(2, 3)]) (use Cons.prems(3) in simp)
  next
    case False
    then show ?thesis unfolding eq by (auto split: node.split option.split)
  qed
qed

text \<open>What the lookup finds is the handler registered at a prefix.\<close>

lemma no_handler_Cons:
  "children n = Some (Directory ch) \<Longrightarrow>
     (\<forall>k. handler_at (Directory children) (take k (n # ns)) = None) \<longleftrightarrow> (\<forall>k. handler_at (Directory ch) (take k ns) = None)"
  "children n = None \<Longrightarrow> handler_at (Directory children) (take k (n # ns)) = None"
proof -
  assume d: "children n = Some (Directory ch)"
  have "handler_at (Directory children) (take (Suc k) (n # ns)) = handler_at (Directory ch) (take k ns)" for k
    by (simp add: d)
  moreover have "handler_at (Directory children) (take 0 (n # ns)) = None" by simp
  ultimately show "(\<forall>k. handler_at (Directory children) (take k (n # ns)) = None) \<longleftrightarrow>
      (\<forall>k. handler_at (Directory ch) (take k ns) = None)"
    by (metis not0_implies_Suc)
next
  assume "children n = None"
  then show "handler_at (Directory children) (take k (n # ns)) = None" by (cases k) simp_all
qed

lemma find_names_None:
  "find_names (Directory children) ns = None \<Longrightarrow>
     (\<forall>k. handler_at (Directory children) (take k ns) = None) \<and> (\<exists>ch. node_at (Directory children) ns = Some (Directory ch))"
proof (induction ns arbitrary: children)
  case (Cons n ns)
  then obtain ch where d: "children n = Some (Directory ch)" "find_names (Directory ch) ns = None"
    by (auto split: option.splits node.splits)
  then show ?case using Cons.IH [OF d(2)] no_handler_Cons(1) [of children n ch ns] d(1) by simp
qed simp

lemma find_names_NotFound:
  "find_names (Directory children) ns = Some None \<Longrightarrow>
     (\<forall>k. handler_at (Directory children) (take k ns) = None) \<and> node_at (Directory children) ns = None"
proof (induction ns arbitrary: children)
  case (Cons n ns)
  then consider "children n = None" | ch where "children n = Some (Directory ch)" "find_names (Directory ch) ns = Some None"
    by (auto split: option.splits node.splits)
  then show ?case
  proof cases
    case 1
    then show ?thesis using no_handler_Cons(2) [of children n] by (auto simp del: take_Suc_Cons)
  next
    case (2 ch)
    then show ?thesis using Cons.IH [OF 2(2)] no_handler_Cons(1) [of children n ch ns] 2(1) by simp
  qed
qed simp

lemma find_names_Found:
  "find_names (Directory children) ns = Some (Some (rest, h)) \<longleftrightarrow>
     (\<exists>qs. ns = qs @ rest \<and> handler_at (Directory children) qs = Some h)"
proof (induction ns arbitrary: children)
  case Nil
  then show ?case by simp
next
  case (Cons n ns)
  have cons: "(\<exists>qs. n # ns = qs @ rest \<and> handler_at (Directory children) qs = Some h) \<longleftrightarrow>
      (\<exists>qs. ns = qs @ rest \<and> handler_at (Directory children) (n # qs) = Some h)"
  proof
    assume "\<exists>qs. n # ns = qs @ rest \<and> handler_at (Directory children) qs = Some h"
    then obtain qs where qs: "n # ns = qs @ rest" "handler_at (Directory children) qs = Some h" by blast
    then obtain qs' where "qs = n # qs'" by (cases qs) auto
    then show "\<exists>qs. ns = qs @ rest \<and> handler_at (Directory children) (n # qs) = Some h" using qs by auto
  next
    assume "\<exists>qs. ns = qs @ rest \<and> handler_at (Directory children) (n # qs) = Some h"
    then obtain qs where "ns = qs @ rest" "handler_at (Directory children) (n # qs) = Some h" by blast
    then show "\<exists>qs. n # ns = qs @ rest \<and> handler_at (Directory children) qs = Some h"
      by (intro exI [of _ "n # qs"]) simp
  qed
  consider "children n = None" | x where "children n = Some (Handler x)" | ch where "children n = Some (Directory ch)"
    by (metis node.exhaust option.exhaust)
  then show ?case
  proof cases
    case (2 x)
    have "handler_at (Handler x) qs = Some h \<longleftrightarrow> qs = [] \<and> x = h" for qs by (cases qs) auto
    then show ?thesis unfolding cons using 2 by auto
  next
    case (3 ch)
    then show ?thesis unfolding cons using Cons.IH [of ch] by simp
  qed (unfold cons, simp)
qed

lemma find_handler_path:
  assumes "plain_names ns"
  shows "(case find_names (reg_root reg) ns of
        None \<Rightarrow> find_handler (path_string True ns trailing) reg = Panic
      | Some None \<Rightarrow> (\<exists>sub. find_handler (path_string True ns trailing) reg = Err (NotFound sub))
      | Some (Some (rest, h)) \<Rightarrow> find_handler (path_string True ns trailing) reg = Ok (path_string False rest trailing, h))"
proof -
  let ?c = "components_new (path_string True ns trailing)"
  have ok: "comps_ok ?c" "remaining ?c = path_string True ns trailing"
    by (simp_all add: components_new_def comps_ok_def remaining_def)
  obtain d where d: "comps_next ?c = (Ok (map_option fst (next_str (remaining ?c)), d) :: (registry_error, _) outcome)"
    "comps_ok d" "remaining d = (case next_str (remaining ?c) of None \<Rightarrow> [] | Some (_, r) \<Rightarrow> r)"
    by (rule comps_next_remaining [OF ok(1)])
  have r: "remaining d = path_string False ns trailing" and e: "comps_next ?c = (Ok (Some Root, d) :: (registry_error, _) outcome)"
    using d(1, 3) unfolding ok(2) by (simp_all add: next_str_path)
  have same: "find_handler (path_string True ns trailing) reg = node_find (reg_root reg) d"
    using e by (simp add: find_handler_def)
  show ?thesis unfolding same by (rule node_find_names [OF d(2) r assms])
qed

text \<open>
  C22. Lookup of an absolute path of plain names. \<open>find_handler\<close> returns a handler and a subpath exactly
  when the handler is registered at a prefix of the path, and the subpath is the rest of the path. If
  there is no handler at any prefix it reports \<open>NotFound\<close> when the path leaves the tree, and otherwise,
  when the path names a directory, it runs into \<open>todo!\<close> and panics.
\<close>

theorem find_handler_correct:
  assumes "plain_names ns" "reg_root reg = Directory children"
  shows "(find_handler (path_string True ns trailing) reg = Ok (sub, h) \<longleftrightarrow>
      (\<exists>qs rest. ns = qs @ rest \<and> handler_at (reg_root reg) qs = Some h \<and> sub = path_string False rest trailing)) \<and>
    ((\<forall>k. handler_at (reg_root reg) (take k ns) = None) \<longrightarrow>
      (case node_at (reg_root reg) ns of
         None \<Rightarrow> (\<exists>sub. find_handler (path_string True ns trailing) reg = Err (NotFound sub))
       | Some _ \<Rightarrow> find_handler (path_string True ns trailing) reg = Panic))"
proof -
  have no: "\<not> (\<exists>qs rest. ns = qs @ rest \<and> handler_at (reg_root reg) qs = Some h')"
    if "\<forall>k. handler_at (reg_root reg) (take k ns) = None" for h'
    using that by (metis append_eq_conv_conj option.distinct(1))
  note found = find_names_Found [of children ns, folded assms(2)]
  show ?thesis
  proof (cases "find_names (reg_root reg) ns")
    case None
    then show ?thesis
      using find_names_None [of children ns] find_handler_path [OF assms(1), where reg = reg and trailing = trailing] no assms(2) by auto
  next
    case (Some q)
    show ?thesis
    proof (cases q)
      case None
      then show ?thesis
        using Some find_names_NotFound [of children ns] find_handler_path [OF assms(1), where reg = reg and trailing = trailing] no assms(2)
        by auto
    next
      case (Some q')
      obtain rest x where q': "q' = (rest, x)" by (cases q')
      have ok: "find_handler (path_string True ns trailing) reg = Ok (path_string False rest trailing, x)"
        using \<open>find_names (reg_root reg) ns = Some q\<close> Some q' find_handler_path [OF assms(1), where reg = reg and trailing = trailing] by simp
      have "find_names (reg_root reg) ns = Some (Some (rest', h)) \<longleftrightarrow> rest' = rest \<and> h = x" for rest'
        using \<open>find_names (reg_root reg) ns = Some q\<close> Some q' by auto
      then have "(\<exists>qs rest'. ns = qs @ rest' \<and> handler_at (reg_root reg) qs = Some h \<and> sub = path_string False rest' trailing) \<longleftrightarrow>
          h = x \<and> sub = path_string False rest trailing"
        using found by metis
      moreover have "\<not> (\<forall>k. handler_at (reg_root reg) (take k ns) = None)"
        using found [of rest x] \<open>find_names (reg_root reg) ns = Some q\<close> Some q' no by blast
      ultimately show ?thesis using ok by auto
    qed
  qed
qed

theorem find_handler_correct_witness:
  "find_handler ''/dev/nvme/0'' \<lparr>reg_root = Directory [''dev'' \<mapsto> Directory [''nvme'' \<mapsto> Handler (1 :: nat)]]\<rparr> = Ok (''0'', 1)"
proof -
  let ?reg = "\<lparr>reg_root = Directory [''dev'' \<mapsto> Directory [''nvme'' \<mapsto> Handler (1 :: nat)]]\<rparr>"
  have "\<exists>qs rest. [''dev'', ''nvme'', ''0''] = qs @ rest \<and> handler_at (reg_root ?reg) qs = Some 1 \<and>
      ''0'' = path_string False rest False"
    by (intro exI [of _ "[''dev'', ''nvme'']"] exI [of _ "[''0'']"]) (simp add: path_string_def)
  then show ?thesis
    using find_handler_correct [of "[''dev'', ''nvme'', ''0'']" ?reg _ False "''0''" 1]
    by (simp add: plain_name_def name_ok_def PATH_SEP_def path_string_def)
qed

end
