(* ===== verification/Semaphores.thy ===== *)
theory Semaphores
  imports Kernel_Prelude
begin

text \<open>
  Semaphores and mutexes for tasks (\<open>kernel/src/tasks/locks.rs\<close>). Every atomic access of the code is one
  step, and the steps of any number of tasks and threads interleave. The wait queue is the concurrent
  queue of a third-party crate: its operations are the parameters \<open>qpush\<close> and \<open>qpop\<close>, and the safety
  property holds whatever they do.
\<close>

section \<open>Counting\<close>

definition count_pc :: "('p \<Rightarrow> bool) \<Rightarrow> 'p list \<Rightarrow> nat" where
  "count_pc P pcs = length (filter P pcs)"

lemma count_pc_update:
  assumes "i < length pcs"
  shows "count_pc P (pcs[i := x]) + (if P (pcs ! i) then 1 else 0) = count_pc P pcs + (if P x then 1 else 0)"
proof -
  have "pcs = take i pcs @ pcs ! i # drop (Suc i) pcs" by (rule id_take_nth_drop [OF assms])
  then have "count_pc P pcs = count_pc P (take i pcs @ pcs ! i # drop (Suc i) pcs)" by (rule arg_cong)
  moreover have "count_pc P (pcs[i := x]) = count_pc P (take i pcs @ x # drop (Suc i) pcs)"
    by (simp only: upd_conv_take_nth_drop [OF assms])
  ultimately show ?thesis by (simp add: count_pc_def)
qed

lemma count_pc_pos: "i < length pcs \<Longrightarrow> P (pcs ! i) \<Longrightarrow> 0 < count_pc P pcs"
  by (auto simp: count_pc_def filter_empty_conv intro!: bexI [of _ "pcs ! i"])

lemma count_pc_replicate: "count_pc P (replicate n x) = (if P x then n else 0)"
  by (simp add: count_pc_def)

lemma count_pc_two:
  assumes "i < length pcs" "j < length pcs" "i \<noteq> j" "P (pcs ! i)" "P (pcs ! j)"
  shows "2 \<le> count_pc P pcs"
proof -
  have "{i, j} \<subseteq> {k. k < length pcs \<and> P (pcs ! k)}" using assms by auto
  then have "card {i, j} \<le> card {k. k < length pcs \<and> P (pcs ! k)}" by (rule card_mono [rotated]) simp
  then show ?thesis using assms(3) by (simp add: count_pc_def length_filter_conv_card)
qed

section \<open>The semaphore\<close>

datatype semaphore_waker = Task_waker nat | Thread_waker nat

text \<open>
  The shared memory of a semaphore and its users: \<open>sem_signal i\<close> is the \<open>AtomicBool\<close> on the stack of
  thread \<open>i\<close>, \<open>sem_woken i\<close> records that the waker of task \<open>i\<close> was woken, after which the executor polls
  the task again.
\<close>

record 'q sem =
  sem_count :: nat
  sem_queue :: 'q
  sem_signal :: "nat \<Rightarrow> bool"
  sem_woken :: "nat \<Rightarrow> bool"

definition sem_new :: "nat \<Rightarrow> 'q \<Rightarrow> 'q sem" where
  "sem_new count q = \<lparr>sem_count = count, sem_queue = q, sem_signal = (\<lambda>_. True), sem_woken = (\<lambda>_. False)\<rparr>"

fun waker_wake :: "semaphore_waker \<Rightarrow> 'q sem \<Rightarrow> 'q sem" where
  "waker_wake (Task_waker t) s = s\<lparr>sem_woken := (sem_woken s)(t := True)\<rparr>"
| "waker_wake (Thread_waker t) s = s\<lparr>sem_signal := (sem_signal s)(t := False)\<rparr>"

text \<open>
  Program points. \<open>Poll\<close>: \<open>WaitFuture::poll\<close>; \<open>Poll_pending\<close>: the task waits to be polled again. \<open>Block\<close>:
  \<open>wait_blocking\<close>. \<open>Try\<close>: \<open>try_wait\<close>. \<open>Acquired\<close>: the caller has decremented the count, for a mutex it
  holds the guard. \<open>Signal\<close>: \<open>signal\<close>. The argument is the local variable \<open>count\<close>.
\<close>

datatype sem_pc =
    Outside
  | Poll_load | Poll_loop nat | Poll_pending
  | Block_load | Block_loop nat | Block_push | Block_spin
  | Try_load | Try_cas nat | Try_failed
  | Acquired
  | Signal_add | Signal_pop

text \<open>What a caller may do next when no operation is running.\<close>

datatype sem_op = Op_wait | Op_wait_blocking | Op_try_wait | Op_signal

fun sem_start :: "sem_op \<Rightarrow> sem_pc \<Rightarrow> sem_pc" where
  "sem_start Op_wait Outside = Poll_load"
| "sem_start Op_wait_blocking Outside = Block_load"
| "sem_start Op_try_wait Outside = Try_load"
| "sem_start Op_signal Acquired = Signal_add"
| "sem_start _ pc = pc"

text \<open>
  A mutex is a semaphore with one unit. The four operations of \<open>Mutex\<close> are those of its semaphore; the
  data is behind the guard, which exists from \<open>Acquired\<close> on.
\<close>

datatype mutex_op = Mutex_lock | Mutex_lock_blocking | Mutex_try_lock | Mutex_guard_drop

definition mutex_new :: "'q \<Rightarrow> 'q sem" where
  "mutex_new q = sem_new 1 q"

fun mutex_sem_op :: "mutex_op \<Rightarrow> sem_op" where
  "mutex_sem_op Mutex_lock = Op_wait"
| "mutex_sem_op Mutex_lock_blocking = Op_wait_blocking"
| "mutex_sem_op Mutex_try_lock = Op_try_wait"
| "mutex_sem_op Mutex_guard_drop = Op_signal"

text \<open>\<open>compare_exchange(count, count - 1)\<close>: the new state if it succeeds, otherwise the value found.\<close>

definition sem_cas :: "nat \<Rightarrow> 'q sem \<Rightarrow> 'q sem + nat" where
  "sem_cas c s = (if sem_count s = c then Inl (s\<lparr>sem_count := c - 1\<rparr>) else Inr (sem_count s))"

fun sem_step ::
  "(semaphore_waker \<Rightarrow> 'q \<Rightarrow> 'q) \<Rightarrow> ('q \<Rightarrow> semaphore_waker option \<times> 'q) \<Rightarrow> nat \<Rightarrow> 'q sem \<Rightarrow> sem_pc \<Rightarrow> 'q sem \<times> sem_pc" where
  "sem_step qpush qpop i s Outside = (s, Outside)"
| "sem_step qpush qpop i s Poll_load = (s, Poll_loop (sem_count s))"
| "sem_step qpush qpop i s (Poll_loop c) =
     (if c = 0 then (s\<lparr>sem_queue := qpush (Task_waker i) (sem_queue s)\<rparr>, Poll_pending)
      else (case sem_cas c s of Inl s' \<Rightarrow> (s', Acquired) | Inr c' \<Rightarrow> (s, Poll_loop c')))"
| "sem_step qpush qpop i s Poll_pending =
     (if sem_woken s i then (s\<lparr>sem_woken := (sem_woken s)(i := False)\<rparr>, Poll_load) else (s, Poll_pending))"
| "sem_step qpush qpop i s Block_load = (s, Block_loop (sem_count s))"
| "sem_step qpush qpop i s (Block_loop c) =
     (if c = 0 then (s\<lparr>sem_signal := (sem_signal s)(i := True)\<rparr>, Block_push)
      else (case sem_cas c s of Inl s' \<Rightarrow> (s', Acquired) | Inr c' \<Rightarrow> (s, Block_loop c')))"
| "sem_step qpush qpop i s Block_push =
     (s\<lparr>sem_queue := qpush (Thread_waker i) (sem_queue s)\<rparr>, Block_spin)"
| "sem_step qpush qpop i s Block_spin = (if sem_signal s i then (s, Block_spin) else (s, Block_load))"
| "sem_step qpush qpop i s Try_load = (if sem_count s = 0 then (s, Try_failed) else (s, Try_cas (sem_count s)))"
| "sem_step qpush qpop i s (Try_cas c) = (case sem_cas c s of Inl s' \<Rightarrow> (s', Acquired) | Inr _ \<Rightarrow> (s, Try_failed))"
| "sem_step qpush qpop i s Try_failed = (s, Outside)"
| "sem_step qpush qpop i s Acquired = (s, Acquired)"
| "sem_step qpush qpop i s Signal_add = (s\<lparr>sem_count := wrapping_add (sem_count s) 1\<rparr>, Signal_pop)"
| "sem_step qpush qpop i s Signal_pop =
     (let (w, q) = qpop (sem_queue s);
          s' = s\<lparr>sem_queue := q\<rparr>
      in ((case w of Some x \<Rightarrow> waker_wake x s' | None \<Rightarrow> s'), Outside))"

section \<open>Interleaved users\<close>

inductive sem_reach ::
  "(semaphore_waker \<Rightarrow> 'q \<Rightarrow> 'q) \<Rightarrow> ('q \<Rightarrow> semaphore_waker option \<times> 'q) \<Rightarrow> nat \<Rightarrow> nat \<Rightarrow> 'q \<Rightarrow> 'q sem \<Rightarrow> sem_pc list \<Rightarrow> bool"
  for qpush qpop users n q0 where
  sem_reach_init: "sem_reach qpush qpop users n q0 (sem_new n q0) (replicate users Outside)"
| sem_reach_start: "sem_reach qpush qpop users n q0 s pcs \<Longrightarrow> i < users \<Longrightarrow>
    sem_reach qpush qpop users n q0 s (pcs[i := sem_start op (pcs ! i)])"
| sem_reach_step: "sem_reach qpush qpop users n q0 s pcs \<Longrightarrow> i < users \<Longrightarrow>
    sem_step qpush qpop i s (pcs ! i) = (s', pc') \<Longrightarrow> sem_reach qpush qpop users n q0 s' (pcs[i := pc'])"

text \<open>A user between the successful exchange and the increment of \<open>signal\<close> holds a unit.\<close>

definition holds_unit :: "sem_pc \<Rightarrow> bool" where
  "holds_unit pc \<longleftrightarrow> pc = Acquired \<or> pc = Signal_add"

fun pc_positive :: "sem_pc \<Rightarrow> bool" where
  "pc_positive (Try_cas c) \<longleftrightarrow> 0 < c"
| "pc_positive _ \<longleftrightarrow> True"

definition sem_inv :: "nat \<Rightarrow> nat \<Rightarrow> 'q sem \<Rightarrow> sem_pc list \<Rightarrow> bool" where
  "sem_inv users n s pcs \<longleftrightarrow> length pcs = users \<and> sem_count s + count_pc holds_unit pcs = n \<and>
     (\<forall>pc\<in>set pcs. pc_positive pc)"

lemma sem_count_wake [simp]: "sem_count (waker_wake w s) = sem_count s"
  by (cases w) simp_all

lemma sem_step_units:
  assumes "sem_step qpush qpop i s pc = (s', pc')" "pc_positive pc" "holds_unit pc \<Longrightarrow> sem_count s + 1 < usize_bound"
  shows "sem_count s' + (if holds_unit pc' then 1 else 0) = sem_count s + (if holds_unit pc then 1 else 0) \<and> pc_positive pc'"
  using assms
  by (cases pc) (auto simp: sem_cas_def holds_unit_def wrapping_add_def Let_def split: if_splits option.splits prod.splits)

lemma sem_start_units:
  "holds_unit (sem_start op pc) = holds_unit pc" "pc_positive pc \<Longrightarrow> pc_positive (sem_start op pc)"
  by (cases op; cases pc; simp add: holds_unit_def)+

lemma sem_inv_reach:
  assumes "n < usize_bound" "sem_reach qpush qpop users n q0 s pcs"
  shows "sem_inv users n s pcs"
  using assms(2)
proof (induction rule: sem_reach.induct)
  case sem_reach_init
  then show ?case by (auto simp: sem_inv_def sem_new_def count_pc_replicate holds_unit_def)
next
  case (sem_reach_start s pcs i op)
  then have i: "i < length pcs" "\<forall>pc\<in>set pcs. pc_positive pc" by (simp_all add: sem_inv_def)
  have "\<forall>pc\<in>set (pcs[i := sem_start op (pcs ! i)]). pc_positive pc"
    using i sem_start_units(2) set_update_subset_insert [of pcs i "sem_start op (pcs ! i)"] by fastforce
  then show ?case
    using sem_reach_start.IH count_pc_update [OF i(1), of holds_unit "sem_start op (pcs ! i)"]
    by (simp add: sem_inv_def sem_start_units(1))
next
  case (sem_reach_step s pcs i s' pc')
  then have i: "i < length pcs" "\<forall>pc\<in>set pcs. pc_positive pc" "sem_count s + count_pc holds_unit pcs = n"
    by (simp_all add: sem_inv_def)
  have "sem_count s + 1 < usize_bound" if "holds_unit (pcs ! i)"
    using count_pc_pos [of i pcs holds_unit] that i assms(1) by linarith
  then have u: "sem_count s' + (if holds_unit pc' then 1 else 0) = sem_count s + (if holds_unit (pcs ! i) then 1 else 0)"
    "pc_positive pc'"
    using sem_step_units [OF sem_reach_step.hyps(3)] i by (simp_all add: nth_mem)
  have "\<forall>pc\<in>set (pcs[i := pc']). pc_positive pc"
    using i u(2) set_update_subset_insert [of pcs i pc'] by fastforce
  then show ?case
    using sem_reach_step.IH u(1) count_pc_update [OF i(1), of holds_unit pc'] by (simp add: sem_inv_def split: if_splits)
qed

text \<open>
  C23. Units of a semaphore are conserved. Whatever the wait queue does and however the tasks and
  threads that use a semaphore created with \<open>n\<close> units interleave their atomic accesses, the count plus
  the number of users that have acquired a unit and not yet returned it is \<open>n\<close>. In particular at most
  \<open>n\<close> users hold a unit at a time, and for a mutex, where \<open>n\<close> is one, no two users hold the guard.
\<close>

theorem semaphore_conserves_units:
  assumes "n < usize_bound" "sem_reach qpush qpop users n q0 s pcs"
  shows "sem_count s + count_pc holds_unit pcs = n \<and>
    (n = 1 \<longrightarrow> (\<forall>i<users. \<forall>j<users. holds_unit (pcs ! i) \<longrightarrow> holds_unit (pcs ! j) \<longrightarrow> i = j))"
proof -
  have inv: "length pcs = users" "sem_count s + count_pc holds_unit pcs = n"
    using sem_inv_reach [OF assms] by (simp_all add: sem_inv_def)
  have "i = j" if "n = 1" "i < users" "j < users" "holds_unit (pcs ! i)" "holds_unit (pcs ! j)" for i j
  proof (rule ccontr)
    assume "i \<noteq> j"
    then have "2 \<le> count_pc holds_unit pcs" using count_pc_two [of i pcs j holds_unit] that inv(1) by simp
    then show False using inv(2) that(1) by simp
  qed
  then show ?thesis using inv(2) by blast
qed

text \<open>A schedule: at each entry a user starts an operation or takes a step.\<close>

fun sem_sched ::
  "(semaphore_waker \<Rightarrow> 'q \<Rightarrow> 'q) \<Rightarrow> ('q \<Rightarrow> semaphore_waker option \<times> 'q) \<Rightarrow> (nat \<times> sem_op option) list \<Rightarrow>
   'q sem \<times> sem_pc list \<Rightarrow> 'q sem \<times> sem_pc list" where
  "sem_sched qpush qpop [] c = c"
| "sem_sched qpush qpop ((i, Some op) # sched) (s, pcs) = sem_sched qpush qpop sched (s, pcs[i := sem_start op (pcs ! i)])"
| "sem_sched qpush qpop ((i, None) # sched) (s, pcs) =
     (let (s', pc') = sem_step qpush qpop i s (pcs ! i) in sem_sched qpush qpop sched (s', pcs[i := pc']))"

lemma sem_sched_reach:
  "sem_reach qpush qpop users n q0 s pcs \<Longrightarrow> \<forall>(i, _)\<in>set sched. i < users \<Longrightarrow>
     sem_sched qpush qpop sched (s, pcs) = (s', pcs') \<Longrightarrow> sem_reach qpush qpop users n q0 s' pcs'"
proof (induction qpush qpop sched "(s, pcs)" arbitrary: s pcs rule: sem_sched.induct)
  case (2 qpush qpop i op sched s pcs)
  then have "sem_reach qpush qpop users n q0 s (pcs[i := sem_start op (pcs ! i)])" using sem_reach_start by auto
  then show ?case using 2 by auto
next
  case (3 qpush qpop i sched s pcs)
  obtain s1 pc1 where st: "sem_step qpush qpop i s (pcs ! i) = (s1, pc1)" by (cases "sem_step qpush qpop i s (pcs ! i)")
  then have "sem_reach qpush qpop users n q0 s1 (pcs[i := pc1])" using sem_reach_step 3 by auto
  then show ?case using 3 st by auto
qed auto

text \<open>The wait queue as a first-in first-out list.\<close>

definition fifo_push :: "semaphore_waker \<Rightarrow> semaphore_waker list \<Rightarrow> semaphore_waker list" where
  "fifo_push w q = q @ [w]"

fun fifo_pop :: "semaphore_waker list \<Rightarrow> semaphore_waker option \<times> semaphore_waker list" where
  "fifo_pop [] = (None, [])"
| "fifo_pop (w # q) = (Some w, q)"

theorem semaphore_conserves_units_witness:
  "\<exists>s. sem_reach fifo_push fifo_pop 2 1 [] s [Acquired, Poll_pending] \<and> sem_count s = 0"
proof -
  obtain s where s: "sem_sched fifo_push fifo_pop
      [(0, Some Op_wait), (0, None), (0, None), (1, Some Op_wait), (1, None), (1, None)]
      (sem_new 1 [], replicate 2 Outside) = (s, [Acquired, Poll_pending])"
    by (simp add: sem_new_def sem_cas_def numeral_2_eq_2)
  have r: "sem_reach fifo_push fifo_pop 2 1 [] s [Acquired, Poll_pending]"
    by (rule sem_sched_reach [OF sem_reach_init _ s]) simp
  have "sem_count s = 0"
    using semaphore_conserves_units [OF _ r] by (simp add: count_pc_def holds_unit_def)
  then show ?thesis using r by blast
qed

text \<open>
  A wakeup can be lost. A task that polls loads the count 0; before it enters its waker in the queue
  the holder returns the unit and finds the queue empty. The task then waits although a unit is
  available and no user is left that would wake it.
\<close>

lemma semaphore_lost_wakeup:
  "\<exists>s. sem_reach fifo_push fifo_pop 2 1 [] s [Outside, Poll_pending] \<and> sem_count s = 1 \<and> \<not> sem_woken s 1 \<and>
     sem_step fifo_push fifo_pop 1 s Poll_pending = (s, Poll_pending)"
proof -
  obtain s where s: "sem_sched fifo_push fifo_pop
      [(0, Some Op_wait), (0, None), (0, None), (1, Some Op_wait), (1, None),
       (0, Some Op_signal), (0, None), (0, None), (1, None)]
      (sem_new 1 [], replicate 2 Outside) = (s, [Outside, Poll_pending])" "sem_count s = 1" "\<not> sem_woken s 1"
    by (simp add: sem_new_def sem_cas_def numeral_2_eq_2 wrapping_add_def)
  have "sem_reach fifo_push fifo_pop 2 1 [] s [Outside, Poll_pending]"
    by (rule sem_sched_reach [OF sem_reach_init _ s(1)]) simp
  then show ?thesis using s(2, 3) by auto
qed

end
