(* ===== verification/RW_Lock.thy ===== *)
theory RW_Lock
  imports Semaphores
begin

text \<open>
  The reader-writer lock (\<open>RwLock\<close> of \<open>kernel/src/tasks/locks.rs\<close>), on top of the semaphores of the
  theory \<open>Semaphores\<close>: the mutex around the reader count and the write semaphore appear by their counts.
  A wait that finds the count 0 is not enabled; a wait that finds a unit takes it in one step (the
  successful exchange). The asynchronous and the blocking variants of an operation differ only in
  how they wait.
\<close>

section \<open>The lock\<close>

record rw_lock =
  rw_mutex :: nat
  rw_readers :: nat
  rw_write :: nat

definition rw_new :: rw_lock where
  "rw_new = \<lparr>rw_mutex = 1, rw_readers = 0, rw_write = 1\<rparr>"

text \<open>
  Program points. \<open>Read_lock\<close> to \<open>Read_unlock\<close>: \<open>read\<close> and \<open>read_blocking\<close>, the guard of the reader count is
  held from \<open>Read_inc\<close> to \<open>Read_unlock\<close>. \<open>Rdrop_lock\<close> to \<open>Rdrop_unlock\<close>: drop of a read guard. \<open>Try_read_lock\<close>
  to \<open>Try_read_fail\<close>: \<open>try_read\<close>. \<open>Write_wait\<close>, \<open>Write_drop\<close>, \<open>Try_write\<close>: \<open>write\<close>, drop of a write guard and
  \<open>try_write\<close>.
\<close>

datatype rw_pc =
    Rw_idle
  | Read_lock | Read_inc | Read_wait | Read_unlock
  | Reading
  | Rdrop_lock | Rdrop_dec | Rdrop_signal | Rdrop_unlock
  | Write_wait | Writing | Write_drop
  | Try_read_lock | Try_read_inc | Try_read_wait | Try_read_fail
  | Try_write
  | Rw_panic

datatype rw_op = Rw_read | Rw_write | Rw_try_read | Rw_try_write | Rw_release

definition rw_start :: "rw_op \<Rightarrow> rw_pc \<Rightarrow> rw_pc" where
  "rw_start op pc =
     (case op of
        Rw_read \<Rightarrow> if pc = Rw_idle then Read_lock else pc
      | Rw_write \<Rightarrow> if pc = Rw_idle then Write_wait else pc
      | Rw_try_read \<Rightarrow> if pc = Rw_idle then Try_read_lock else pc
      | Rw_try_write \<Rightarrow> if pc = Rw_idle then Try_write else pc
      | Rw_release \<Rightarrow> if pc = Reading then Rdrop_lock else if pc = Writing then Write_drop else pc)"

text \<open>One step; \<open>None\<close>: the user waits for a semaphore.\<close>

fun rw_step :: "rw_lock \<Rightarrow> rw_pc \<Rightarrow> (rw_lock \<times> rw_pc) option" where
  "rw_step l Read_lock = (if rw_mutex l = 0 then None else Some (l\<lparr>rw_mutex := rw_mutex l - 1\<rparr>, Read_inc))"
| "rw_step l Read_inc =
     (if rw_readers l + 1 < usize_bound then
        Some (l\<lparr>rw_readers := rw_readers l + 1\<rparr>, if rw_readers l + 1 = 1 then Read_wait else Read_unlock)
      else Some (l, Rw_panic))"
| "rw_step l Read_wait = (if rw_write l = 0 then None else Some (l\<lparr>rw_write := rw_write l - 1\<rparr>, Read_unlock))"
| "rw_step l Read_unlock = Some (l\<lparr>rw_mutex := wrapping_add (rw_mutex l) 1\<rparr>, Reading)"
| "rw_step l Rdrop_lock = (if rw_mutex l = 0 then None else Some (l\<lparr>rw_mutex := rw_mutex l - 1\<rparr>, Rdrop_dec))"
| "rw_step l Rdrop_dec =
     (if rw_readers l = 0 then Some (l, Rw_panic)
      else Some (l\<lparr>rw_readers := rw_readers l - 1\<rparr>, if rw_readers l - 1 = 0 then Rdrop_signal else Rdrop_unlock))"
| "rw_step l Rdrop_signal = Some (l\<lparr>rw_write := wrapping_add (rw_write l) 1\<rparr>, Rdrop_unlock)"
| "rw_step l Rdrop_unlock = Some (l\<lparr>rw_mutex := wrapping_add (rw_mutex l) 1\<rparr>, Rw_idle)"
| "rw_step l Write_wait = (if rw_write l = 0 then None else Some (l\<lparr>rw_write := rw_write l - 1\<rparr>, Writing))"
| "rw_step l Write_drop = Some (l\<lparr>rw_write := wrapping_add (rw_write l) 1\<rparr>, Rw_idle)"
| "rw_step l Try_read_lock =
     (if rw_mutex l = 0 then Some (l, Rw_idle) else Some (l\<lparr>rw_mutex := rw_mutex l - 1\<rparr>, Try_read_inc))"
| "rw_step l Try_read_inc =
     (if rw_readers l + 1 < usize_bound then
        Some (l\<lparr>rw_readers := rw_readers l + 1\<rparr>, if rw_readers l + 1 = 1 then Try_read_wait else Read_unlock)
      else Some (l, Rw_panic))"
| "rw_step l Try_read_wait =
     (if rw_write l = 0 then Some (l, Try_read_fail) else Some (l\<lparr>rw_write := rw_write l - 1\<rparr>, Read_unlock))"
| "rw_step l Try_read_fail = Some (l\<lparr>rw_mutex := wrapping_add (rw_mutex l) 1\<rparr>, Rw_idle)"
| "rw_step l Try_write = (if rw_write l = 0 then Some (l, Rw_idle) else Some (l\<lparr>rw_write := rw_write l - 1\<rparr>, Writing))"
| "rw_step l pc = Some (l, pc)"

section \<open>Interleaved users\<close>

text \<open>The operations the users may start are a parameter.\<close>

inductive rw_reach :: "rw_op set \<Rightarrow> nat \<Rightarrow> rw_lock \<Rightarrow> rw_pc list \<Rightarrow> bool" for ops users where
  rw_reach_init: "rw_reach ops users rw_new (replicate users Rw_idle)"
| rw_reach_start: "rw_reach ops users l pcs \<Longrightarrow> i < users \<Longrightarrow> op \<in> ops \<Longrightarrow>
    rw_reach ops users l (pcs[i := rw_start op (pcs ! i)])"
| rw_reach_step: "rw_reach ops users l pcs \<Longrightarrow> i < users \<Longrightarrow> rw_step l (pcs ! i) = Some (l', pc') \<Longrightarrow>
    rw_reach ops users l' (pcs[i := pc'])"

text \<open>
  The classes of users the invariant counts: those that hold the guard of the reader count (other
  than the two program points below), those that are counted and do not wait for the write
  semaphore, those that hold the write semaphore for writing, and those no run without \<open>try_read\<close>
  reaches.
\<close>

definition holds_mutex :: "rw_pc \<Rightarrow> bool" where
  "holds_mutex pc \<longleftrightarrow> pc \<in> {Read_inc, Read_unlock, Rdrop_dec, Rdrop_unlock}"

definition is_counted :: "rw_pc \<Rightarrow> bool" where
  "is_counted pc \<longleftrightarrow> pc \<in> {Read_unlock, Reading, Rdrop_lock, Rdrop_dec}"

definition is_writer :: "rw_pc \<Rightarrow> bool" where
  "is_writer pc \<longleftrightarrow> pc \<in> {Writing, Write_drop}"

definition never_used :: "rw_pc \<Rightarrow> bool" where
  "never_used pc \<longleftrightarrow> pc \<in> {Try_read_lock, Try_read_inc, Try_read_wait, Try_read_fail, Rw_panic}"

lemmas pc_classes = holds_mutex_def is_counted_def is_writer_def never_used_def

abbreviation at_pc :: "rw_pc \<Rightarrow> rw_pc list \<Rightarrow> nat" where
  "at_pc pc pcs \<equiv> count_pc (\<lambda>x. x = pc) pcs"

text \<open>
  The mutex has one holder; the reader count counts the readers; the unit of the write semaphore is
  free, with one writer, or with the readers (from the first reader's wait to the last one's signal).
\<close>

definition rw_inv :: "nat \<Rightarrow> rw_lock \<Rightarrow> rw_pc list \<Rightarrow> bool" where
  "rw_inv users l pcs \<longleftrightarrow> length pcs = users \<and> count_pc never_used pcs = 0 \<and>
     rw_mutex l + count_pc holds_mutex pcs + at_pc Read_wait pcs + at_pc Rdrop_signal pcs = 1 \<and>
     rw_readers l = count_pc is_counted pcs + at_pc Read_wait pcs \<and>
     (if 0 < count_pc is_counted pcs \<or> 0 < at_pc Rdrop_signal pcs
      then rw_write l + count_pc is_writer pcs = 0 else rw_write l + count_pc is_writer pcs = 1) \<and>
     (0 < at_pc Read_wait pcs \<longrightarrow> count_pc is_counted pcs = 0) \<and>
     (0 < at_pc Rdrop_signal pcs \<longrightarrow> count_pc is_counted pcs = 0)"

lemma count_pc_or:
  "(\<And>x. P x \<Longrightarrow> \<not> Q x) \<Longrightarrow> count_pc (\<lambda>x. P x \<or> Q x) pcs = count_pc P pcs + count_pc Q pcs"
  by (induction pcs) (auto simp: count_pc_def)

lemma count_pc_le_length: "count_pc P pcs \<le> length pcs"
  by (simp add: count_pc_def)

lemma counted_bound: "i < length pcs \<Longrightarrow> pcs ! i = Read_inc \<Longrightarrow> count_pc is_counted pcs < length pcs"
proof -
  assume i: "i < length pcs" and pc: "pcs ! i = Read_inc"
  have "count_pc is_counted pcs + at_pc Read_inc pcs = count_pc (\<lambda>x. is_counted x \<or> x = Read_inc) pcs"
    by (rule count_pc_or [symmetric]) (auto simp: pc_classes)
  moreover have "0 < at_pc Read_inc pcs" using i pc by (intro count_pc_pos) simp_all
  ultimately show ?thesis using count_pc_le_length [of "\<lambda>x. is_counted x \<or> x = Read_inc" pcs] by simp
qed

lemma rw_inv_step:
  assumes inv: "rw_inv users l pcs" and i: "i < users" and st: "rw_step l (pcs ! i) = Some (l', pc')"
    and users: "users < usize_bound"
  shows "rw_inv users l' (pcs[i := pc'])"
proof -
  have len: "i < length pcs" "length pcs = users" using inv i by (simp_all add: rw_inv_def)
  note upd = count_pc_update [OF len(1), of _ pc'] and pos = count_pc_pos [OF len(1)]
  note facts = inv [unfolded rw_inv_def] st upd [of holds_mutex] upd [of is_counted] upd [of is_writer] upd [of never_used]
    upd [of "\<lambda>x. x = Read_wait"] upd [of "\<lambda>x. x = Rdrop_signal"]
  show ?thesis
  proof (cases "pcs ! i")
    case Read_lock
    then show ?thesis using facts unfolding rw_inv_def by (auto simp: pc_classes split: if_splits)
  next
    case Read_inc
    then have "rw_readers l + 1 < usize_bound"
      using counted_bound [OF len(1)] inv len users pos [of holds_mutex] by (simp add: rw_inv_def pc_classes)
    then show ?thesis using Read_inc pos [of holds_mutex] facts unfolding rw_inv_def by (auto simp: pc_classes split: if_splits)
  next
    case Read_wait
    then show ?thesis using pos [of "\<lambda>x. x = Read_wait"] facts unfolding rw_inv_def by (auto simp: pc_classes split: if_splits)
  next
    case Read_unlock
    then show ?thesis using pos [of holds_mutex] pos [of is_counted] facts unfolding rw_inv_def
      by (auto simp: pc_classes wrapping_add_def split: if_splits)
  next
    case Rdrop_lock
    then show ?thesis using pos [of is_counted] facts unfolding rw_inv_def by (auto simp: pc_classes split: if_splits)
  next
    case Rdrop_dec
    then show ?thesis using pos [of holds_mutex] pos [of is_counted] facts unfolding rw_inv_def by (auto simp: pc_classes split: if_splits)
  next
    case Rdrop_signal
    then show ?thesis using pos [of "\<lambda>x. x = Rdrop_signal"] facts unfolding rw_inv_def
      by (auto simp: pc_classes wrapping_add_def split: if_splits)
  next
    case Rdrop_unlock
    then show ?thesis using pos [of holds_mutex] facts unfolding rw_inv_def by (auto simp: pc_classes wrapping_add_def split: if_splits)
  next
    case Write_wait
    then show ?thesis using facts unfolding rw_inv_def by (auto simp: pc_classes split: if_splits)
  next
    case Write_drop
    then show ?thesis using pos [of is_writer] facts unfolding rw_inv_def
      by (auto simp: pc_classes wrapping_add_def split: if_splits)
  next
    case Try_write
    then show ?thesis using facts unfolding rw_inv_def by (auto simp: pc_classes split: if_splits)
  qed (use inv st pos [of never_used] list_update_id [of pcs i] in \<open>auto simp: rw_inv_def pc_classes\<close>)
qed

lemma rw_inv_start:
  assumes inv: "rw_inv users l pcs" and i: "i < users" and op: "op \<noteq> Rw_try_read"
  shows "rw_inv users l (pcs[i := rw_start op (pcs ! i)])"
proof -
  have len: "i < length pcs" using inv i by (simp add: rw_inv_def)
  have same: "count_pc P (pcs[i := rw_start op (pcs ! i)]) = count_pc P pcs"
    if "P (rw_start op (pcs ! i)) = P (pcs ! i)" for P
    using count_pc_update [OF len, of P "rw_start op (pcs ! i)"] that by simp
  have "P (rw_start op (pcs ! i)) = P (pcs ! i)"
    if "P \<in> {holds_mutex, is_counted, is_writer, never_used, \<lambda>x. x = Read_wait, \<lambda>x. x = Rdrop_signal}" for P
    using that op by (auto simp: rw_start_def pc_classes split: rw_op.splits)
  note eqs = this [THEN same]
  show ?thesis using inv eqs [of holds_mutex] eqs [of is_counted] eqs [of is_writer] eqs [of never_used]
      eqs [of "\<lambda>x. x = Read_wait"] eqs [of "\<lambda>x. x = Rdrop_signal"]
    by (simp add: rw_inv_def)
qed

lemma count_pc_0_set: "count_pc P pcs = 0 \<longleftrightarrow> (\<forall>x\<in>set pcs. \<not> P x)"
  by (simp add: count_pc_def filter_empty_conv)

lemma rw_reach_inv:
  assumes "rw_reach ops users l pcs" "Rw_try_read \<notin> ops" "users < usize_bound"
  shows "rw_inv users l pcs"
  using assms
proof (induction rule: rw_reach.induct)
  case rw_reach_init
  then show ?case by (simp add: rw_inv_def rw_new_def pc_classes count_pc_0_set [THEN iffD2])
next
  case (rw_reach_start l pcs i op)
  then show ?case by (intro rw_inv_start) auto
next
  case (rw_reach_step l pcs i l' pc')
  then show ?case by (intro rw_inv_step) auto
qed

section \<open>Exclusion and progress\<close>

text \<open>A schedule: at each entry a user starts an operation or takes a step.\<close>

fun rw_sched :: "(nat \<times> rw_op option) list \<Rightarrow> rw_lock \<times> rw_pc list \<Rightarrow> (rw_lock \<times> rw_pc list) option" where
  "rw_sched [] c = Some c"
| "rw_sched ((i, Some op) # sched) (l, pcs) = rw_sched sched (l, pcs[i := rw_start op (pcs ! i)])"
| "rw_sched ((i, None) # sched) (l, pcs) =
     (case rw_step l (pcs ! i) of None \<Rightarrow> None | Some (l', pc') \<Rightarrow> rw_sched sched (l', pcs[i := pc']))"

lemma rw_sched_reach:
  "rw_reach ops users l pcs \<Longrightarrow> \<forall>(i, op)\<in>set sched. i < users \<and> (\<forall>x. op = Some x \<longrightarrow> x \<in> ops) \<Longrightarrow>
     rw_sched sched (l, pcs) = Some (l', pcs') \<Longrightarrow> rw_reach ops users l' pcs'"
proof (induction sched "(l, pcs)" arbitrary: l pcs rule: rw_sched.induct)
  case (2 i op sched l pcs)
  then have "rw_reach ops users l (pcs[i := rw_start op (pcs ! i)])" using rw_reach_start by auto
  then show ?case using 2 by auto
next
  case (3 i sched l pcs)
  then obtain l1 pc1 where st: "rw_step l (pcs ! i) = Some (l1, pc1)" by (auto split: option.splits)
  then have "rw_reach ops users l1 (pcs[i := pc1])" using rw_reach_step 3 by auto
  then show ?case using 3 st by auto
qed auto


lemma replicate_2: "replicate 2 x = [x, x]"
  by (simp add: numeral_2_eq_2)

lemma rw_run_writer:
  "rw_reach {Rw_read, Rw_write} 2 \<lparr>rw_mutex = 0, rw_readers = 1, rw_write = 0\<rparr> [Writing, Read_wait]"
  by (rule rw_sched_reach [OF rw_reach_init, of
        "[(0, Some Rw_write), (0, None), (1, Some Rw_read), (1, None), (1, None)]"])
    (simp_all add: rw_new_def rw_start_def replicate_2)




text \<open>
  With \<open>try_read\<close> exclusion fails. While one task writes, a second one calls \<open>try_read\<close>: it increments the
  reader count, does not get the write semaphore and returns without restoring the count. A
  \<open>read\<close> that starts now finds the count 1, takes it to 2 and returns a read guard without waiting for
  the writer.
\<close>

lemma try_read_breaks_exclusion:
  "\<exists>l. rw_reach {Rw_read, Rw_write, Rw_try_read} 2 l [Writing, Reading]"
proof -
  have "rw_reach {Rw_read, Rw_write, Rw_try_read} 2 \<lparr>rw_mutex = 1, rw_readers = 2, rw_write = 0\<rparr> [Writing, Reading]"
    by (rule rw_sched_reach [OF rw_reach_init, of
          "[(0, Some Rw_write), (0, None), (1, Some Rw_try_read), (1, None), (1, None), (1, None), (1, None),
            (1, Some Rw_read), (1, None), (1, None), (1, None)]"])
      (simp_all add: rw_new_def rw_start_def replicate_2 wrapping_add_def)
  then show ?thesis by blast
qed

end
