(* ===== verification/Shard_Map.thy ===== *)
theory Shard_Map
  imports Kernel_Prelude
begin

text \<open>
  The concurrent hash map of \<open>kernel/src/ds/maps.rs\<close>: \<open>CHashMap\<close>, a hash map split into shards by bits of
  the hash, and \<open>CHashMapAuto\<close>, which hands out its keys itself. Every operation holds the lock of one
  shard while it accesses it (theory \<open>RW_Lock\<close> shows that such an access excludes others), so an
  operation is one step on the shards. The synchronous \<open>HashMap\<close> of a shard is a finite partial map,
  the hash function is a parameter.
\<close>

section \<open>A contract of maps\<close>

text \<open>
  What clients use of a mutable map: an insertion and a removal return the previous value and change
  the map at the key only; neither panics.
\<close>

locale mutable_map =
  fixes inv :: "'s \<Rightarrow> bool"
    and abs :: "'s \<Rightarrow> 'k \<Rightarrow> 'v option"
    and lookup :: "'k \<Rightarrow> 's \<Rightarrow> (unit, 'v option) outcome"
    and insert :: "'k \<Rightarrow> 'v \<Rightarrow> 's \<Rightarrow> (unit, 'v option \<times> 's) outcome"
    and remove :: "'k \<Rightarrow> 's \<Rightarrow> (unit, 'v option \<times> 's) outcome"
  assumes lookup_law: "inv s \<Longrightarrow> lookup k s = Ok (abs s k)"
    and insert_law: "inv s \<Longrightarrow> \<exists>s'. insert k v s = Ok (abs s k, s') \<and> inv s' \<and> abs s' = (abs s)(k \<mapsto> v)"
    and remove_law: "inv s \<Longrightarrow> \<exists>s'. remove k s = Ok (abs s k, s') \<and> inv s' \<and> abs s' = (abs s)(k := None)"

text \<open>A history of operations and what it returns, on the implementation and on a partial map.\<close>

datatype ('k, 'v) map_op = Map_get 'k | Map_insert 'k 'v | Map_remove 'k

fun map_spec :: "('k, 'v) map_op list \<Rightarrow> ('k \<Rightarrow> 'v option) \<Rightarrow> 'v option list \<times> ('k \<Rightarrow> 'v option)" where
  "map_spec [] m = ([], m)"
| "map_spec (Map_get k # ops) m = (let (rs, m') = map_spec ops m in (m k # rs, m'))"
| "map_spec (Map_insert k v # ops) m = (let (rs, m') = map_spec ops (m(k \<mapsto> v)) in (m k # rs, m'))"
| "map_spec (Map_remove k # ops) m = (let (rs, m') = map_spec ops (m(k := None)) in (m k # rs, m'))"

fun map_run ::
  "('k \<Rightarrow> 's \<Rightarrow> (unit, 'v option) outcome) \<Rightarrow> ('k \<Rightarrow> 'v \<Rightarrow> 's \<Rightarrow> (unit, 'v option \<times> 's) outcome) \<Rightarrow>
   ('k \<Rightarrow> 's \<Rightarrow> (unit, 'v option \<times> 's) outcome) \<Rightarrow> ('k, 'v) map_op list \<Rightarrow> 's \<Rightarrow> (unit, 'v option list \<times> 's) outcome" where
  "map_run get ins rem [] s = Ok ([], s)"
| "map_run get ins rem (Map_get k # ops) s =
     bind_outcome (get k s) (\<lambda>r. bind_outcome (map_run get ins rem ops s) (\<lambda>(rs, s'). Ok (r # rs, s')))"
| "map_run get ins rem (Map_insert k v # ops) s =
     bind_outcome (ins k v s) (\<lambda>(r, s1). bind_outcome (map_run get ins rem ops s1) (\<lambda>(rs, s'). Ok (r # rs, s')))"
| "map_run get ins rem (Map_remove k # ops) s =
     bind_outcome (rem k s) (\<lambda>(r, s1). bind_outcome (map_run get ins rem ops s1) (\<lambda>(rs, s'). Ok (r # rs, s')))"

context mutable_map
begin

lemma map_run_spec:
  "inv s \<Longrightarrow> \<exists>s'. map_run lookup insert remove ops s = Ok (fst (map_spec ops (abs s)), s') \<and> inv s' \<and>
     abs s' = snd (map_spec ops (abs s))"
proof (induction ops arbitrary: s)
  case (Cons op ops)
  show ?case
  proof (cases op)
    case (Map_get k)
    then show ?thesis using Cons.IH [OF Cons.prems] lookup_law [OF Cons.prems, of k] by (auto split: prod.splits)
  next
    case (Map_insert k v)
    obtain s1 where s1: "insert k v s = Ok (abs s k, s1)" "inv s1" "abs s1 = (abs s)(k \<mapsto> v)"
      using insert_law [OF Cons.prems] by blast
    show ?thesis using Cons.IH [OF s1(2)] s1 Map_insert by (auto simp del: fun_upd_apply split: prod.splits)
  next
    case (Map_remove k)
    obtain s1 where s1: "remove k s = Ok (abs s k, s1)" "inv s1" "abs s1 = (abs s)(k := None)"
      using remove_law [OF Cons.prems] by blast
    show ?thesis using Cons.IH [OF s1(2)] s1 Map_remove by (auto simp del: fun_upd_apply split: prod.splits)
  qed
qed simp

end

section \<open>The sharded map\<close>

record ('k, 'v) chash_map =
  shard_index_shift :: nat
  shards :: "('k \<Rightarrow> 'v option) list"

definition DEFAULT_SHARD_COUNT :: nat where
  "DEFAULT_SHARD_COUNT = 128"

fun trailing_zeros :: "nat \<Rightarrow> nat" where
  "trailing_zeros n = (if n = 0 then 64 else if odd n then 0 else Suc (trailing_zeros (n div 2)))"

declare trailing_zeros.simps [simp del]

definition power_of_two :: "nat \<Rightarrow> bool" where
  "power_of_two n \<longleftrightarrow> (\<exists>b\<in>{0..<64}. n = 2 ^ b)"

definition with_hasher_and_shard_count :: "nat \<Rightarrow> (unit, ('k, 'v) chash_map) outcome" where
  "with_hasher_and_shard_count shard_count =
     bind_outcome (ensure (0 < shard_count)) (\<lambda>_.
     bind_outcome (ensure (power_of_two shard_count)) (\<lambda>_.
     Ok \<lparr>shard_index_shift = 64 - trailing_zeros shard_count, shards = replicate shard_count Map.empty\<rparr>))"

definition chm_default :: "(unit, ('k, 'v) chash_map) outcome" where
  "chm_default = with_hasher_and_shard_count DEFAULT_SHARD_COUNT"

text \<open>A shift by the width of the word or more panics.\<close>

definition shard_index_for_hash :: "('k, 'v) chash_map \<Rightarrow> 64 word \<Rightarrow> (unit, nat) outcome" where
  "shard_index_for_hash c hash =
     (if shard_index_shift c < 64 then Ok (unat (drop_bit (shard_index_shift c) (push_bit 7 hash))) else Panic)"

text \<open>
  The shard of a key. The code does not check the index (\<open>get_unchecked\<close>); an index out of range, which
  would be undefined behaviour, is \<open>Panic\<close> here and shown not to occur.
\<close>

definition chm_shard :: "('k \<Rightarrow> 64 word) \<Rightarrow> 'k \<Rightarrow> ('k, 'v) chash_map \<Rightarrow> (unit, nat \<times> ('k \<Rightarrow> 'v option)) outcome" where
  "chm_shard hash_one k c =
     bind_outcome (shard_index_for_hash c (hash_one k)) (\<lambda>i.
       if i < length (shards c) then Ok (i, shards c ! i) else Panic)"

definition chm_get :: "('k \<Rightarrow> 64 word) \<Rightarrow> 'k \<Rightarrow> ('k, 'v) chash_map \<Rightarrow> (unit, 'v option) outcome" where
  "chm_get hash_one k c = bind_outcome (chm_shard hash_one k c) (\<lambda>(i, shard). Ok (shard k))"

text \<open>A write through the reference that \<open>get_mut\<close> returns, with the function \<open>f\<close>.\<close>

definition chm_get_mut ::
  "('k \<Rightarrow> 64 word) \<Rightarrow> 'k \<Rightarrow> ('v \<Rightarrow> 'v) \<Rightarrow> ('k, 'v) chash_map \<Rightarrow> (unit, 'v option \<times> ('k, 'v) chash_map) outcome" where
  "chm_get_mut hash_one k f c =
     bind_outcome (chm_shard hash_one k c) (\<lambda>(i, shard).
       (case shard k of
          None \<Rightarrow> Ok (None, c)
        | Some v \<Rightarrow> Ok (Some v, c\<lparr>shards := (shards c)[i := shard(k \<mapsto> f v)]\<rparr>)))"

definition chm_insert ::
  "('k \<Rightarrow> 64 word) \<Rightarrow> 'k \<Rightarrow> 'v \<Rightarrow> ('k, 'v) chash_map \<Rightarrow> (unit, 'v option \<times> ('k, 'v) chash_map) outcome" where
  "chm_insert hash_one k v c =
     bind_outcome (chm_shard hash_one k c) (\<lambda>(i, shard). Ok (shard k, c\<lparr>shards := (shards c)[i := shard(k \<mapsto> v)]\<rparr>))"

definition chm_remove ::
  "('k \<Rightarrow> 64 word) \<Rightarrow> 'k \<Rightarrow> ('k, 'v) chash_map \<Rightarrow> (unit, 'v option \<times> ('k, 'v) chash_map) outcome" where
  "chm_remove hash_one k c =
     bind_outcome (chm_shard hash_one k c) (\<lambda>(i, shard). Ok (shard k, c\<lparr>shards := (shards c)[i := shard(k := None)]\<rparr>))"

text \<open>The blocking variants differ in how they wait for the lock of the shard only.\<close>

definition chm_get_blocking :: "('k \<Rightarrow> 64 word) \<Rightarrow> 'k \<Rightarrow> ('k, 'v) chash_map \<Rightarrow> (unit, 'v option) outcome" where
  "chm_get_blocking = chm_get"

definition chm_get_mut_blocking ::
  "('k \<Rightarrow> 64 word) \<Rightarrow> 'k \<Rightarrow> ('v \<Rightarrow> 'v) \<Rightarrow> ('k, 'v) chash_map \<Rightarrow> (unit, 'v option \<times> ('k, 'v) chash_map) outcome" where
  "chm_get_mut_blocking = chm_get_mut"

definition chm_insert_blocking ::
  "('k \<Rightarrow> 64 word) \<Rightarrow> 'k \<Rightarrow> 'v \<Rightarrow> ('k, 'v) chash_map \<Rightarrow> (unit, 'v option \<times> ('k, 'v) chash_map) outcome" where
  "chm_insert_blocking = chm_insert"

definition chm_remove_blocking ::
  "('k \<Rightarrow> 64 word) \<Rightarrow> 'k \<Rightarrow> ('k, 'v) chash_map \<Rightarrow> (unit, 'v option \<times> ('k, 'v) chash_map) outcome" where
  "chm_remove_blocking = chm_remove"

section \<open>The map with automatic keys\<close>

record 'v chash_map_auto =
  auto_map :: "(nat, 'v) chash_map"
  next_key :: nat

definition reserve_key :: "'v chash_map_auto \<Rightarrow> nat \<times> 'v chash_map_auto" where
  "reserve_key c = (next_key c, c\<lparr>next_key := wrapping_add (next_key c) 1\<rparr>)"

definition auto_insert ::
  "(nat \<Rightarrow> 64 word) \<Rightarrow> 'v \<Rightarrow> 'v chash_map_auto \<Rightarrow> (unit, nat \<times> 'v chash_map_auto) outcome" where
  "auto_insert hash_one v c =
     (let (k, c') = reserve_key c in
      bind_outcome (chm_insert hash_one k v (auto_map c')) (\<lambda>(old, map').
        (case old of None \<Rightarrow> Panic | Some _ \<Rightarrow> Ok (k, c'\<lparr>auto_map := map'\<rparr>))))"

section \<open>Correctness\<close>

text \<open>
  The invariant: two or more shards, as many as the bits of the index can name, and a key only in its
  own shard. The abstraction reads a key in its shard.
\<close>

definition shard_of :: "('k \<Rightarrow> 64 word) \<Rightarrow> ('k, 'v) chash_map \<Rightarrow> 'k \<Rightarrow> nat" where
  "shard_of hash_one c k = unat (drop_bit (shard_index_shift c) (push_bit 7 (hash_one k)))"

definition chm_inv :: "('k, 'v) chash_map \<Rightarrow> bool" where
  "chm_inv c \<longleftrightarrow> shard_index_shift c < 64 \<and> length (shards c) = 2 ^ (64 - shard_index_shift c)"

definition chm_abs :: "('k \<Rightarrow> 64 word) \<Rightarrow> ('k, 'v) chash_map \<Rightarrow> 'k \<Rightarrow> 'v option" where
  "chm_abs hash_one c k = (shards c ! shard_of hash_one c k) k"

lemma trailing_zeros_power: "trailing_zeros (2 ^ b) = b"
proof (induction b)
  case 0
  show ?case by (simp add: trailing_zeros.simps [of "Suc 0"])
next
  case (Suc b)
  then show ?case by (simp add: trailing_zeros.simps [of "2 * 2 ^ b"])
qed

lemma unat_drop_bit_lt: "s \<le> 64 \<Longrightarrow> unat (drop_bit s (w :: 64 word)) < 2 ^ (64 - s)"
proof -
  assume s: "s \<le> 64"
  have "unat w < 2 ^ s * 2 ^ (64 - s)" using unsigned_less [where ?'a = nat, of w] s by (simp flip: power_add)
  then have "unat w div 2 ^ s < 2 ^ (64 - s)" by (simp add: div_less_iff_less_mult mult.commute)
  then show ?thesis by (simp add: unat_drop_bit_eq) (simp add: drop_bit_eq_div)
qed

lemma shard_of_lt: "chm_inv c \<Longrightarrow> shard_of hash_one c k < length (shards c)"
  using unat_drop_bit_lt [of "shard_index_shift c" "push_bit 7 (hash_one k)"] by (simp add: chm_inv_def shard_of_def)

lemma chm_shard_inv:
  "chm_inv c \<Longrightarrow> chm_shard hash_one k c = Ok (shard_of hash_one c k, shards c ! shard_of hash_one c k)"
  using shard_of_lt [of c hash_one k] by (simp add: chm_shard_def shard_index_for_hash_def chm_inv_def shard_of_def)

lemma chm_update_shard:
  assumes "chm_inv c" and "g = shards c ! shard_of hash_one c k"
  shows "chm_inv (c\<lparr>shards := (shards c)[shard_of hash_one c k := g(k := x)]\<rparr>)"
    "chm_abs hash_one (c\<lparr>shards := (shards c)[shard_of hash_one c k := g(k := x)]\<rparr>) = (chm_abs hash_one c)(k := x)"
  using assms shard_of_lt [OF assms(1), of hash_one k]
  by (auto simp: chm_inv_def chm_abs_def shard_of_def nth_list_update fun_eq_iff)

interpretation chm: mutable_map chm_inv "chm_abs hash_one" "chm_get hash_one" "chm_insert hash_one" "chm_remove hash_one"
  for hash_one :: "'k \<Rightarrow> 64 word"
proof unfold_locales
  fix c :: "('k, 'v) chash_map" and k :: 'k and v :: 'v
  assume c: "chm_inv c"
  show "chm_get hash_one k c = Ok (chm_abs hash_one c k)" by (simp add: chm_get_def chm_shard_inv [OF c] chm_abs_def)
  show "\<exists>c'. chm_insert hash_one k v c = Ok (chm_abs hash_one c k, c') \<and> chm_inv c' \<and>
      chm_abs hash_one c' = (chm_abs hash_one c)(k \<mapsto> v)"
    using chm_update_shard [OF c refl, of hash_one k "Some v"] by (simp add: chm_insert_def chm_shard_inv [OF c] chm_abs_def)
  show "\<exists>c'. chm_remove hash_one k c = Ok (chm_abs hash_one c k, c') \<and> chm_inv c' \<and>
      chm_abs hash_one c' = (chm_abs hash_one c)(k := None)"
    using chm_update_shard [OF c refl, of hash_one k None] by (simp add: chm_remove_def chm_shard_inv [OF c] chm_abs_def)
qed

lemma chm_new_inv:
  assumes "0 < b" "b < 64"
  obtains c :: "('k, 'v) chash_map" where "with_hasher_and_shard_count (2 ^ b) = Ok c" "chm_inv c" "chm_abs hash_one c = Map.empty"
proof -
  let ?c = "\<lparr>shard_index_shift = 64 - b, shards = replicate (2 ^ b) Map.empty\<rparr> :: ('k, 'v) chash_map"
  have inv: "chm_inv ?c" using assms by (simp add: chm_inv_def)
  have "with_hasher_and_shard_count (2 ^ b) = Ok ?c"
    using assms by (auto simp: with_hasher_and_shard_count_def ensure_def power_of_two_def trailing_zeros_power)
  moreover have "chm_abs hash_one ?c = Map.empty"
    using shard_of_lt [OF inv, of hash_one] by (auto simp: chm_abs_def)
  ultimately show thesis using inv that by blast
qed

text \<open>
  C26. A sharded map with 2 to \<open>2 ^ 63\<close> shards behaves as one map: for every hash function and every
  history of \<open>get\<close>, \<open>insert\<close> and \<open>remove\<close> on a new map, no operation panics or leaves the array of shards,
  and the results are those of the same history on a finite map.
\<close>

theorem chash_map_refines_map:
  fixes ops :: "('k, 'v) map_op list"
  assumes "0 < b" "b < 64"
  shows "\<exists>c c'. with_hasher_and_shard_count (2 ^ b) = Ok c \<and>
    map_run (chm_get hash_one) (chm_insert hash_one) (chm_remove hash_one) ops c =
      Ok (fst (map_spec ops Map.empty), c') \<and>
    (\<forall>k. chm_get hash_one k c' = Ok (snd (map_spec ops Map.empty) k))"
proof -
  obtain c :: "('k, 'v) chash_map"
    where c: "with_hasher_and_shard_count (2 ^ b) = Ok c" "chm_inv c" "chm_abs hash_one c = Map.empty"
    using chm_new_inv [OF assms] .
  obtain c' where c': "map_run (chm_get hash_one) (chm_insert hash_one) (chm_remove hash_one) ops c =
      Ok (fst (map_spec ops Map.empty), c')" "chm_inv c'" "chm_abs hash_one c' = snd (map_spec ops Map.empty)"
    using chm.map_run_spec [OF c(2), of hash_one ops] c(3) by auto
  show ?thesis using c(1) c'(1) chm.lookup_law [OF c'(2), of hash_one] c'(3) by auto
qed

theorem chash_map_refines_map_witness:
  "\<exists>c c'. with_hasher_and_shard_count (2 ^ 7) = Ok c \<and>
    map_run (chm_get of_nat) (chm_insert of_nat) (chm_remove of_nat) [Map_insert (5 :: nat) True, Map_get 5, Map_remove 5] c =
      Ok ([None, Some True, Some True], c')"
  using chash_map_refines_map [of 7 of_nat "[Map_insert (5 :: nat) True, Map_get 5, Map_remove 5]"] by auto

text \<open>A write through \<open>get_mut\<close> changes the value of its key only.\<close>

lemma chm_get_mut_spec:
  assumes "chm_inv c"
  shows "\<exists>c'. chm_get_mut hash_one k f c = Ok (chm_abs hash_one c k, c') \<and> chm_inv c' \<and>
    chm_abs hash_one c' = (chm_abs hash_one c)(k := map_option f (chm_abs hash_one c k))"
  using chm_update_shard [OF assms refl, of hash_one k] assms
  by (auto simp: chm_get_mut_def chm_shard_inv [OF assms] chm_abs_def fun_eq_iff split: option.splits)

text \<open>
  With one shard the shift is the width of the word: every operation panics.
\<close>

lemma single_shard_panics:
  "\<exists>c. with_hasher_and_shard_count 1 = Ok c \<and> chm_get hash_one k c = Panic \<and> chm_insert hash_one k v c = Panic"
  using trailing_zeros_power [of 0]
  by (auto simp: with_hasher_and_shard_count_def ensure_def power_of_two_def chm_get_def chm_insert_def chm_shard_def
      shard_index_for_hash_def intro!: bexI [of _ 0])

text \<open>
  \<open>CHashMapAuto::insert\<close> applies \<open>expect\<close> to the previous value of the key, which does not exist: inserting
  under a key that is not in the map panics, so the map with automatic keys never gets its first
  element.
\<close>

lemma auto_insert_fresh_panics:
  assumes "chm_inv (auto_map c)" "chm_abs hash_one (auto_map c) (next_key c) = None"
  shows "auto_insert hash_one v c = Panic"
  using assms chm.insert_law [OF assms(1), of hash_one "next_key c" v]
  by (auto simp: auto_insert_def reserve_key_def)

end
