(* ===== verification/Executor.thy ===== *)
theory Executor
  imports Kernel_Prelude
begin

text \<open>
  The task executor (\<open>kernel/src/tasks/mod.rs\<close>): spawning and waking tasks, the loop of the executor
  thread and \<open>block_on\<close>. What a task does when it is polled is a parameter: it finishes or goes on as a
  new task state, after spawning and waking tasks, and changes an environment the executor does not
  look at. Wakes and spawns also come from outside, between any two steps.
\<close>

section \<open>Queues of the executor\<close>

record 't executor =
  ready_queue :: "nat list"
  new_task_queue :: "(nat \<times> 't) list"
  next_task_id :: nat

text \<open>\<open>ArrayQueue::push\<close> followed by \<open>expect\<close>: panics when the queue is full.\<close>

definition array_push :: "nat \<Rightarrow> 'a \<Rightarrow> 'a list \<Rightarrow> (unit, 'a list) outcome" where
  "array_push capacity x q = (if length q < capacity then Ok (q @ [x]) else Panic)"

definition executor_default :: "'t executor" where
  "executor_default = \<lparr>ready_queue = [], new_task_queue = [], next_task_id = 1\<rparr>"

definition exec_spawn :: "'t \<Rightarrow> 't executor \<Rightarrow> (unit, 't executor) outcome" where
  "exec_spawn task e =
     (let task_id = next_task_id e in
      bind_outcome (array_push 32 (task_id, task) (new_task_queue e)) (\<lambda>q.
        Ok (e\<lparr>new_task_queue := q, next_task_id := (task_id + 1) mod 2 ^ 32\<rparr>)))"

definition wake_task :: "nat \<Rightarrow> 't executor \<Rightarrow> (unit, 't executor) outcome" where
  "wake_task task_id e =
     bind_outcome (array_push 128 task_id (ready_queue e)) (\<lambda>q. Ok (e\<lparr>ready_queue := q\<rparr>))"

section \<open>The executor loop\<close>

text \<open>What polling a task does to the executor, in order.\<close>

datatype 't task_effect = Spawn 't | Wake nat

fun apply_effects :: "'t task_effect list \<Rightarrow> 't executor \<Rightarrow> (unit, 't executor) outcome" where
  "apply_effects [] e = Ok e"
| "apply_effects (Spawn t # effs) e = bind_outcome (exec_spawn t e) (apply_effects effs)"
| "apply_effects (Wake i # effs) e = bind_outcome (wake_task i e) (apply_effects effs)"

text \<open>The two inner loops of \<open>run_forever\<close>.\<close>

datatype exec_pc = Adding | Polling

record ('t, 'w) exec_state =
  exec :: "'t executor"
  tasks :: "nat \<Rightarrow> 't option"
  waker_cache :: "nat set"
  exec_pc :: exec_pc
  environment :: 'w

definition exec_init :: "'w \<Rightarrow> ('t, 'w) exec_state" where
  "exec_init w = \<lparr>exec = executor_default, tasks = Map.empty, waker_cache = {}, exec_pc = Adding, environment = w\<rparr>"

text \<open>
  One iteration of the current loop. The result tells which task was polled and whether it finished,
  and what it did.
\<close>

datatype polled = Nothing_polled | Pending_task nat | Finished_task nat

definition exec_step ::
  "(nat \<Rightarrow> 't \<Rightarrow> 'w \<Rightarrow> 't option \<times> 't task_effect list \<times> 'w) \<Rightarrow> ('t, 'w) exec_state \<Rightarrow>
   (unit, (polled \<times> 't task_effect list) \<times> ('t, 'w) exec_state) outcome" where
  "exec_step poll s =
     (case exec_pc s of
        Adding \<Rightarrow>
          (case new_task_queue (exec s) of
             [] \<Rightarrow> Ok ((Nothing_polled, []), s\<lparr>exec_pc := Polling\<rparr>)
           | (task_id, task) # q \<Rightarrow>
               bind_outcome (wake_task task_id ((exec s)\<lparr>new_task_queue := q\<rparr>)) (\<lambda>e.
                 Ok ((Nothing_polled, []), s\<lparr>exec := e, tasks := (tasks s)(task_id \<mapsto> task)\<rparr>)))
      | Polling \<Rightarrow>
          (case ready_queue (exec s) of
             [] \<Rightarrow> Ok ((Nothing_polled, []), s\<lparr>exec_pc := Adding\<rparr>)
           | task_id # q \<Rightarrow>
               (let s1 = s\<lparr>exec := (exec s)\<lparr>ready_queue := q\<rparr>\<rparr> in
                case tasks s task_id of
                  None \<Rightarrow> Ok ((Nothing_polled, []), s1)
                | Some task \<Rightarrow>
                    (let (r, effs, w) = poll task_id task (environment s);
                         s2 = s1\<lparr>waker_cache := insert task_id (waker_cache s), environment := w\<rparr>
                     in bind_outcome (apply_effects effs (exec s1)) (\<lambda>e.
                          (case r of
                             None \<Rightarrow> Ok ((Finished_task task_id, effs),
                                s2\<lparr>exec := e, tasks := (tasks s)(task_id := None), waker_cache := waker_cache s2 - {task_id}\<rparr>)
                           | Some task' \<Rightarrow> Ok ((Pending_task task_id, effs),
                                s2\<lparr>exec := e, tasks := (tasks s)(task_id \<mapsto> task')\<rparr>)))))))"

text \<open>
  Runs of the executor that do not panic, with the number of tasks spawned so far and the tasks that
  have finished.
\<close>

fun spawned :: "'t task_effect list \<Rightarrow> nat" where
  "spawned [] = 0"
| "spawned (Spawn t # effs) = Suc (spawned effs)"
| "spawned (Wake i # effs) = spawned effs"

fun finished_by :: "polled \<Rightarrow> nat set" where
  "finished_by (Finished_task i) = {i}"
| "finished_by _ = {}"

inductive exec_reach ::
  "(nat \<Rightarrow> 't \<Rightarrow> 'w \<Rightarrow> 't option \<times> 't task_effect list \<times> 'w) \<Rightarrow> 'w \<Rightarrow> nat \<Rightarrow> nat set \<Rightarrow> ('t, 'w) exec_state \<Rightarrow> bool"
  for poll w0 where
  exec_reach_init: "exec_reach poll w0 0 {} (exec_init w0)"
| exec_reach_step: "exec_reach poll w0 n fin s \<Longrightarrow> exec_step poll s = Ok ((p, effs), s') \<Longrightarrow>
    exec_reach poll w0 (n + spawned effs) (fin \<union> finished_by p) s'"
| exec_reach_outside: "exec_reach poll w0 n fin s \<Longrightarrow> apply_effects effs (exec s) = Ok e \<Longrightarrow>
    exec_reach poll w0 (n + spawned effs) fin (s\<lparr>exec := e, environment := w\<rparr>)"

section \<open>No task is lost\<close>

text \<open>
  Every identifier handed out belongs to exactly one task: it is waiting to be added, or in the map of
  tasks, or it has finished.
\<close>

definition exec_inv :: "nat \<Rightarrow> nat set \<Rightarrow> 't executor \<Rightarrow> (nat \<Rightarrow> 't option) \<Rightarrow> bool" where
  "exec_inv n fin e ts \<longleftrightarrow> next_task_id e = Suc n mod 2 ^ 32 \<and>
     distinct (map fst (new_task_queue e)) \<and>
     fst ` set (new_task_queue e) \<union> dom ts \<union> fin = {1..n} \<and>
     fst ` set (new_task_queue e) \<inter> dom ts = {} \<and> fst ` set (new_task_queue e) \<inter> fin = {} \<and> dom ts \<inter> fin = {}"

lemma exec_spawn_inv:
  assumes inv: "exec_inv n fin e ts" and sp: "exec_spawn t e = Ok e'" and n: "Suc n < 2 ^ 32"
  shows "exec_inv (Suc n) fin e' ts"
proof -
  have e': "e' = e\<lparr>new_task_queue := new_task_queue e @ [(Suc n, t)], next_task_id := Suc (Suc n) mod 2 ^ 32\<rparr>"
    using inv sp n by (auto simp: exec_inv_def exec_spawn_def array_push_def Let_def outcome_simps split: if_splits)
  have "Suc n \<notin> fst ` set (new_task_queue e) \<union> dom ts \<union> fin" using inv by (simp add: exec_inv_def del: Un_iff)
  then have "Suc n \<notin> fst ` set (new_task_queue e)" "Suc n \<notin> dom ts" "Suc n \<notin> fin" by blast+
  moreover have "{1..Suc n} = insert (Suc n) {1..n}" by auto
  ultimately show ?thesis using inv unfolding exec_inv_def e' by simp
qed

lemma exec_inv_ready [simp]: "exec_inv n fin (e\<lparr>ready_queue := q\<rparr>) ts = exec_inv n fin e ts"
  by (simp add: exec_inv_def)

lemma wake_task_inv: "exec_inv n fin e ts \<Longrightarrow> wake_task i e = Ok e' \<Longrightarrow> exec_inv n fin e' ts"
  by (auto simp: wake_task_def outcome_simps)

lemma apply_effects_inv:
  "exec_inv n fin e ts \<Longrightarrow> apply_effects effs e = Ok e' \<Longrightarrow> n + spawned effs < 2 ^ 32 \<Longrightarrow>
     exec_inv (n + spawned effs) fin e' ts"
proof (induction effs e arbitrary: n rule: apply_effects.induct)
  case (2 t effs e)
  then obtain e1 where e1: "exec_spawn t e = Ok e1" "apply_effects effs e1 = Ok e'" by (auto simp: outcome_simps)
  then show ?case using "2.IH" [of e1 "Suc n"] exec_spawn_inv [OF "2.prems"(1) e1(1)] "2.prems"(3) by simp
next
  case (3 i effs e)
  then obtain e1 where e1: "wake_task i e = Ok e1" "apply_effects effs e1 = Ok e'" by (auto simp: outcome_simps)
  then show ?case using "3.IH" [of e1 n] wake_task_inv [OF "3.prems"(1) e1(1)] "3.prems"(3) by simp
qed simp

text \<open>Moving a new task into the map, and taking a finished one out of it.\<close>

lemma exec_inv_add:
  "exec_inv n fin e ts \<Longrightarrow> new_task_queue e = (i, t) # q \<Longrightarrow> exec_inv n fin (e\<lparr>new_task_queue := q\<rparr>) (ts(i \<mapsto> t))"
  by (auto simp: exec_inv_def)

lemma exec_inv_finish: "exec_inv n fin e ts \<Longrightarrow> i \<in> dom ts \<Longrightarrow> exec_inv n (insert i fin) e (ts(i := None))"
  unfolding exec_inv_def by auto

lemma exec_inv_pending: "exec_inv n fin e ts \<Longrightarrow> i \<in> dom ts \<Longrightarrow> exec_inv n fin e (ts(i \<mapsto> t))"
  by (simp add: exec_inv_def insert_absorb)

lemma exec_step_inv:
  assumes inv: "exec_inv n fin (exec s) (tasks s)" and st: "exec_step poll s = Ok ((p, effs), s')"
    and n: "n + spawned effs < 2 ^ 32"
  shows "exec_inv (n + spawned effs) (fin \<union> finished_by p) (exec s') (tasks s')"
proof (cases "exec_pc s")
  case Adding
  show ?thesis
  proof (cases "new_task_queue (exec s)")
    case (Cons x q)
    obtain i t where x: "x = (i, t)" by (cases x)
    then obtain e where "wake_task i ((exec s)\<lparr>new_task_queue := q\<rparr>) = Ok e" "p = Nothing_polled" "effs = []"
      "exec s' = e" "tasks s' = (tasks s)(i \<mapsto> t)"
      using st Adding Cons by (auto simp: exec_step_def outcome_simps)
    then show ?thesis using wake_task_inv exec_inv_add [OF inv] Cons x by fastforce
  qed (use inv st Adding in \<open>auto simp: exec_step_def\<close>)
next
  case Polling
  show ?thesis
  proof (cases "ready_queue (exec s)")
    case (Cons i q)
    show ?thesis
    proof (cases "tasks s i")
      case None
      then show ?thesis using inv st Polling Cons by (auto simp: exec_step_def)
    next
      case (Some t)
      obtain r effs' w where poll: "poll i t (environment s) = (r, effs', w)" by (cases "poll i t (environment s)")
      then obtain e where e: "apply_effects effs ((exec s)\<lparr>ready_queue := q\<rparr>) = Ok e" "exec s' = e"
        and r: "(p = Finished_task i \<and> tasks s' = (tasks s)(i := None)) \<or>
          (\<exists>t'. p = Pending_task i \<and> tasks s' = (tasks s)(i \<mapsto> t'))"
        using st Polling Cons Some by (cases r) (fastforce simp: exec_step_def outcome_simps)+
      have inv': "exec_inv (n + spawned effs) fin e (tasks s)" using apply_effects_inv [OF _ e(1) n] inv by simp
      have i: "i \<in> dom (tasks s)" using Some by blast
      show ?thesis using r e(2) exec_inv_finish [OF inv' i] exec_inv_pending [OF inv' i] by auto
    qed
  qed (use inv st Polling in \<open>auto simp: exec_step_def\<close>)
qed

lemma exec_reach_inv:
  "exec_reach poll w0 n fin s \<Longrightarrow> n < 2 ^ 32 \<Longrightarrow> exec_inv n fin (exec s) (tasks s)"
proof (induction rule: exec_reach.induct)
  case exec_reach_init
  then show ?case by (simp add: exec_inv_def exec_init_def executor_default_def)
next
  case (exec_reach_step n fin s p effs s')
  then show ?case using exec_step_inv by fastforce
next
  case (exec_reach_outside n fin s effs e w)
  then show ?case using apply_effects_inv by fastforce
qed

text \<open>
  C27. The executor loses no task and mixes up none. In every run that does not panic and spawns fewer
  than \<open>2 ^ 32\<close> tasks, whatever the tasks do when polled and whatever interrupts add in between, each
  of the identifiers handed out so far belongs to exactly one place: the queue of new tasks, where
  it occurs once, the map of tasks, or the finished tasks.
\<close>

theorem executor_keeps_tasks:
  assumes "exec_reach poll w0 n fin s" "n < 2 ^ 32"
  shows "distinct (map fst (new_task_queue (exec s))) \<and>
    fst ` set (new_task_queue (exec s)) \<union> dom (tasks s) \<union> fin = {1..n} \<and>
    fst ` set (new_task_queue (exec s)) \<inter> dom (tasks s) = {} \<and>
    fst ` set (new_task_queue (exec s)) \<inter> fin = {} \<and> dom (tasks s) \<inter> fin = {}"
  using exec_reach_inv [OF assms] by (simp add: exec_inv_def)

text \<open>A run with two tasks: the first spawns the second and finishes, the second goes on forever.\<close>

definition example_poll :: "nat \<Rightarrow> bool \<Rightarrow> unit \<Rightarrow> bool option \<times> bool task_effect list \<times> unit" where
  "example_poll i t w = (if t then (None, [Spawn False], ()) else (Some False, [Wake i], ()))"

lemma example_exec_run:
  "exec_reach example_poll () 2 {1} \<lparr>exec = \<lparr>ready_queue = [], new_task_queue = [(2, False)], next_task_id = 3\<rparr>,
     tasks = Map.empty, waker_cache = {}, exec_pc = Polling, environment = ()\<rparr>"
proof -
  note step = exec_reach_step [where poll = example_poll] and out = exec_reach_outside [where poll = example_poll and w = "()"]
  note defs = exec_step_def exec_init_def executor_default_def exec_spawn_def wake_task_def array_push_def example_poll_def
  have "exec_reach example_poll () 1 {} \<lparr>exec = \<lparr>ready_queue = [], new_task_queue = [(1, True)], next_task_id = 2\<rparr>,
     tasks = Map.empty, waker_cache = {}, exec_pc = Adding, environment = ()\<rparr>"
    using out [OF exec_reach_init, of "[Spawn True]"] by (simp add: defs flip: numeral_2_eq_2)
  from step [OF this] have "exec_reach example_poll () 1 {}
     \<lparr>exec = \<lparr>ready_queue = [1], new_task_queue = [], next_task_id = 2\<rparr>,
     tasks = [1 \<mapsto> True], waker_cache = {}, exec_pc = Adding, environment = ()\<rparr>"
    by (simp add: defs)
  from step [OF this] have "exec_reach example_poll () 1 {}
     \<lparr>exec = \<lparr>ready_queue = [1], new_task_queue = [], next_task_id = 2\<rparr>,
     tasks = [1 \<mapsto> True], waker_cache = {}, exec_pc = Polling, environment = ()\<rparr>"
    by (simp add: defs)
  from step [OF this] show ?thesis by (simp add: defs flip: numeral_2_eq_2)
qed

theorem executor_keeps_tasks_witness:
  "exec_reach example_poll () 2 {1} \<lparr>exec = \<lparr>ready_queue = [], new_task_queue = [(2, False)], next_task_id = 3\<rparr>,
     tasks = Map.empty, waker_cache = {}, exec_pc = Polling, environment = ()\<rparr> \<and>
   fst ` set [(2 :: nat, False)] \<union> dom (Map.empty :: nat \<Rightarrow> bool option) \<union> {1} = {1..2}"
  using executor_keeps_tasks [OF example_exec_run] example_exec_run by simp

section \<open>Woken tasks are polled in turn\<close>

fun exec_steps ::
  "(nat \<Rightarrow> 't \<Rightarrow> 'w \<Rightarrow> 't option \<times> 't task_effect list \<times> 'w) \<Rightarrow> nat \<Rightarrow> ('t, 'w) exec_state \<Rightarrow>
   (unit, polled list \<times> ('t, 'w) exec_state) outcome" where
  "exec_steps poll 0 s = Ok ([], s)"
| "exec_steps poll (Suc k) s =
     bind_outcome (exec_step poll s) (\<lambda>((p, _), s1).
     bind_outcome (exec_steps poll k s1) (\<lambda>(ps, s'). Ok (p # ps, s')))"

lemma exec_spawn_cases: "exec_spawn t e = Ok (e\<lparr>new_task_queue := new_task_queue e @ [(next_task_id e, t)],
    next_task_id := (next_task_id e + 1) mod 2 ^ 32\<rparr>) \<or> exec_spawn t e = Panic"
  by (simp add: exec_spawn_def array_push_def Let_def)

lemma wake_task_cases: "wake_task i e = Ok (e\<lparr>ready_queue := ready_queue e @ [i]\<rparr>) \<or> wake_task i e = Panic"
  by (simp add: wake_task_def array_push_def)

lemma apply_effects_appends:
  "apply_effects effs e = Panic \<or> (\<exists>e' zs. apply_effects effs e = Ok e' \<and> ready_queue e' = ready_queue e @ zs)"
proof (induction effs e rule: apply_effects.induct)
  case (2 t effs e)
  then show ?case using exec_spawn_cases [of t e] by fastforce
next
  case (3 i effs e)
  then show ?case using wake_task_cases [of i e] by fastforce
qed simp

text \<open>A step of the polling loop takes the front of the ready queue and only appends to the queue.\<close>

lemma exec_step_polling:
  assumes "exec_pc s = Polling" "ready_queue (exec s) = i # q" "exec_step poll s \<noteq> Panic"
  shows "\<exists>p effs s' zs. exec_step poll s = Ok ((p, effs), s') \<and> exec_pc s' = Polling \<and>
    ready_queue (exec s') = q @ zs \<and> (\<forall>j. j \<noteq> i \<longrightarrow> tasks s' j = tasks s j) \<and>
    (tasks s i \<noteq> None \<longrightarrow> p \<in> {Pending_task i, Finished_task i})"
proof (cases "tasks s i")
  case None
  then show ?thesis using assms by (simp add: exec_step_def)
next
  case (Some t)
  obtain r effs w where poll: "poll i t (environment s) = (r, effs, w)" by (cases "poll i t (environment s)")
  then have "apply_effects effs ((exec s)\<lparr>ready_queue := q\<rparr>) \<noteq> Panic" using assms Some by (auto simp: exec_step_def)
  then obtain e' zs where "apply_effects effs ((exec s)\<lparr>ready_queue := q\<rparr>) = Ok e'" "ready_queue e' = q @ zs"
    using apply_effects_appends [of effs "(exec s)\<lparr>ready_queue := q\<rparr>"] by auto
  then show ?thesis using assms Some poll by (cases r) (simp_all add: exec_step_def)
qed

text \<open>
  C28. A woken task is polled in its turn. If task \<open>i\<close> is in the map of tasks and stands in the ready
  queue behind the entries \<open>xs\<close>, then the polling loop, unless a queue overflows, polls it in its
  iteration number \<open>length xs + 1\<close>, whatever the tasks before it do.
\<close>

theorem executor_polls_woken_task:
  assumes "exec_pc s = Polling" "ready_queue (exec s) = xs @ i # ys" "i \<notin> set xs" "tasks s i \<noteq> None"
    and "exec_steps poll (Suc (length xs)) s \<noteq> Panic"
  shows "\<exists>ps s'. exec_steps poll (Suc (length xs)) s = Ok (ps, s') \<and> length ps = Suc (length xs) \<and>
    ps ! length xs \<in> {Pending_task i, Finished_task i}"
  using assms
proof (induction xs arbitrary: s ys)
  case Nil
  have "exec_step poll s \<noteq> Panic" using Nil.prems by auto
  then show ?case using exec_step_polling [of s i ys poll] Nil.prems by fastforce
next
  case (Cons x xs)
  have "exec_step poll s \<noteq> Panic" using Cons.prems by auto
  then obtain p effs s1 zs where s1: "exec_step poll s = Ok ((p, effs), s1)" "exec_pc s1 = Polling"
    "ready_queue (exec s1) = xs @ i # (ys @ zs)" "tasks s1 i = tasks s i"
    using exec_step_polling [of s x "xs @ i # ys" poll] Cons.prems by fastforce
  moreover have "exec_steps poll (Suc (length xs)) s1 \<noteq> Panic"
    using Cons.prems(5) unfolding list.size(4) add_Suc_right add_0_right exec_steps.simps(2) [of poll "Suc (length xs)"] s1(1)
    by auto
  ultimately obtain ps s' where "exec_steps poll (Suc (length xs)) s1 = Ok (ps, s')" "length ps = Suc (length xs)"
    "ps ! length xs \<in> {Pending_task i, Finished_task i}"
    using Cons.IH [of s1 "ys @ zs"] Cons.prems by auto
  then show ?case using s1(1) by (auto simp: exec_steps.simps(2) [of poll "Suc (length xs)"] simp del: exec_steps.simps)
qed

theorem executor_polls_woken_task_witness:
  "\<exists>ps s'. exec_steps example_poll 2 \<lparr>exec = \<lparr>ready_queue = [1, 2], new_task_queue = [], next_task_id = 3\<rparr>,
     tasks = [1 \<mapsto> True, 2 \<mapsto> False], waker_cache = {}, exec_pc = Polling, environment = ()\<rparr> = Ok (ps, s') \<and>
     ps ! 1 \<in> {Pending_task 2, Finished_task 2}"
proof -
  let ?s = "\<lparr>exec = \<lparr>ready_queue = [1, 2], new_task_queue = [], next_task_id = 3\<rparr>,
     tasks = [1 \<mapsto> True, 2 \<mapsto> False], waker_cache = {}, exec_pc = Polling, environment = ()\<rparr>"
  have "exec_steps example_poll (Suc (length [1 :: nat])) ?s \<noteq> Panic"
    by (simp add: exec_step_def exec_spawn_def wake_task_def array_push_def example_poll_def)
  from executor_polls_woken_task [OF _ _ _ _ this, of 2 "[]"] show ?thesis by (auto simp: numeral_2_eq_2)
qed

section \<open>Running a future on the current thread\<close>

text \<open>
  \<open>block_on\<close>. The future is polled until it is ready; in between the thread spins on a flag that the
  waker clears. Polling is a parameter: the result or the future to go on with.
\<close>

datatype ('f, 'o) block_pc = Bo_poll 'f | Bo_store 'f | Bo_spin 'f | Bo_return 'o

fun block_on_step :: "('f \<Rightarrow> 'o + 'f) \<Rightarrow> bool \<times> ('f, 'o) block_pc \<Rightarrow> bool \<times> ('f, 'o) block_pc" where
  "block_on_step poll (signal, Bo_poll f) =
     (case poll f of Inl v \<Rightarrow> (signal, Bo_return v) | Inr f' \<Rightarrow> (signal, Bo_store f'))"
| "block_on_step poll (signal, Bo_store f) = (True, Bo_spin f)"
| "block_on_step poll (signal, Bo_spin f) = (signal, if signal then Bo_spin f else Bo_poll f)"
| "block_on_step poll (signal, Bo_return v) = (signal, Bo_return v)"

definition block_on_start :: "'f \<Rightarrow> bool \<times> ('f, 'o) block_pc" where
  "block_on_start f = (False, Bo_poll f)"

definition block_on_wake :: "bool \<times> ('f, 'o) block_pc \<Rightarrow> bool \<times> ('f, 'o) block_pc" where
  "block_on_wake s = (False, snd s)"

text \<open>A wake that comes while the thread spins makes it poll again.\<close>

lemma block_on_woken:
  "block_on_step poll (block_on_wake (signal, Bo_spin f)) = (False, Bo_poll f)"
  by (simp add: block_on_wake_def)

text \<open>
  A wake that comes after the future returned pending and before the flag is set is lost: the thread
  sets the flag over it and spins, however long it runs.
\<close>

lemma block_on_lost_wakeup:
  assumes "poll f = Inr f'"
  shows "(block_on_step poll ^^ Suc k) (block_on_wake (block_on_step poll (block_on_start f))) = (True, Bo_spin f')"
  using assms by (induction k) (simp_all add: block_on_start_def block_on_wake_def)

end
