(* ===== verification/Heap_List.thy ===== *)
theory Heap_List
  imports Mem_Address
begin

text \<open>
  The free list of the kernel heap (\<open>FreeList\<close> and \<open>FreeListCursor\<close> of \<open>kernel/src/memory/heap.rs\<close>): a
  doubly linked list whose nodes live in the free memory itself. The memory of the heap is a function
  from addresses of 8-byte words to their contents; a block header holds its size and the pointers
  to the next and the previous block in its first three words, a null pointer is 0. The lemmas show
  that the operations through a cursor implement removal and insertion at a position of the list.
\<close>

section \<open>The heap memory and the list\<close>

definition KERNEL_HEAP_START :: virtual_address where
  "KERNEL_HEAP_START = 0xffffff0000000000"

definition FREE_HEADER_SIZE :: nat where
  "FREE_HEADER_SIZE = 24"

record heap =
  heap_mem :: "nat \<Rightarrow> nat"
  heap_head :: nat
  heap_tail :: nat
  heap_size_in_bytes :: nat

record heap_block =
  hb_address :: virtual_address
  hb_size :: nat

definition new_uninit :: "(nat \<Rightarrow> nat) \<Rightarrow> heap" where
  "new_uninit m = \<lparr>heap_mem = m, heap_head = 0, heap_tail = 0, heap_size_in_bytes = 0\<rparr>"

text \<open>The node_fields of the header a pointer refers to.\<close>

definition fb_size :: "nat \<Rightarrow> heap \<Rightarrow> nat" where
  "fb_size p h = heap_mem h p"

definition fb_next :: "nat \<Rightarrow> heap \<Rightarrow> nat" where
  "fb_next p h = heap_mem h (p + 8)"

definition fb_prev :: "nat \<Rightarrow> heap \<Rightarrow> nat" where
  "fb_prev p h = heap_mem h (p + 16)"

definition write_word :: "nat \<Rightarrow> nat \<Rightarrow> heap \<Rightarrow> heap" where
  "write_word p v h = h\<lparr>heap_mem := (heap_mem h)(p := v)\<rparr>"

abbreviation set_fb_size :: "nat \<Rightarrow> nat \<Rightarrow> heap \<Rightarrow> heap" where
  "set_fb_size p v \<equiv> write_word p v"

abbreviation set_fb_next :: "nat \<Rightarrow> nat \<Rightarrow> heap \<Rightarrow> heap" where
  "set_fb_next p v \<equiv> write_word (p + 8) v"

abbreviation set_fb_prev :: "nat \<Rightarrow> nat \<Rightarrow> heap \<Rightarrow> heap" where
  "set_fb_prev p v \<equiv> write_word (p + 16) v"

text \<open>\<open>FreeBlock::new\<close> and \<open>check_adjacency\<close>.\<close>

definition free_block_new :: "virtual_address \<Rightarrow> nat \<Rightarrow> (unit, heap_block) outcome" where
  "free_block_new address sz =
     bind_outcome (ensure (align_offset address 8 = 0)) (\<lambda>_. Ok \<lparr>hb_address = address, hb_size = sz\<rparr>)"

datatype block_adjacency = Adj_before | Adj_after | Not_adjacent

definition check_adjacency :: "heap_block \<Rightarrow> heap_block \<Rightarrow> block_adjacency" where
  "check_adjacency b other =
     (if va_add (hb_address b) (hb_size b) = hb_address other then Adj_before
      else if hb_address b = va_add (hb_address other) (hb_size other) then Adj_after
      else Not_adjacent)"

definition free_list_init :: "nat \<Rightarrow> heap \<Rightarrow> (unit, heap) outcome" where
  "free_list_init initial_size_in_bytes h =
     bind_outcome (ensure (heap_head h = 0)) (\<lambda>_.
     let head = KERNEL_HEAP_START;
         h1 = set_fb_prev head 0 (set_fb_next head 0 (set_fb_size head initial_size_in_bytes h))
     in Ok (h1\<lparr>heap_head := head, heap_tail := head, heap_size_in_bytes := initial_size_in_bytes\<rparr>))"

definition check_ptr :: "nat \<Rightarrow> heap \<Rightarrow> (unit, unit) outcome" where
  "check_ptr p h =
     (if p = 0 then Ok ()
      else bind_outcome (add_checked KERNEL_HEAP_START (heap_size_in_bytes h)) (\<lambda>heap_end.
           ensure (KERNEL_HEAP_START \<le> p \<and> p \<le> heap_end)))"

definition increase_size :: "nat \<Rightarrow> heap \<Rightarrow> (unit, heap) outcome" where
  "increase_size new_size h =
     bind_outcome (add_checked (heap_size_in_bytes h) new_size) (\<lambda>sz. Ok (h\<lparr>heap_size_in_bytes := sz\<rparr>))"

section \<open>Cursors\<close>

text \<open>A cursor is the pointer \<open>current\<close>; the list it belongs to is the heap.\<close>

definition free_list_cursor :: "heap \<Rightarrow> (unit, nat) outcome" where
  "free_list_cursor h = bind_outcome (check_ptr (heap_head h) h) (\<lambda>_. Ok (heap_head h))"

definition cursor_current :: "nat \<Rightarrow> heap \<Rightarrow> (unit, heap_block option) outcome" where
  "cursor_current c h =
     (if c = 0 then Ok None else bind_outcome (free_block_new c (fb_size c h)) (\<lambda>b. Ok (Some b)))"

definition move_next :: "nat \<Rightarrow> heap \<Rightarrow> (unit, nat) outcome" where
  "move_next c h =
     (let c' = (if c = 0 then c else fb_next c h) in bind_outcome (check_ptr c' h) (\<lambda>_. Ok c'))"

text \<open>Removing the current block: the block, the cursor at the next block and the heap.\<close>

definition remove_current :: "nat \<Rightarrow> heap \<Rightarrow> (unit, heap_block option \<times> nat \<times> heap) outcome" where
  "remove_current c h =
     (if c = 0 then Ok (None, c, h)
      else
        let prev = fb_prev c h; next = fb_next c h in
        bind_outcome (check_ptr prev h) (\<lambda>_.
        bind_outcome
          (if prev \<noteq> 0 then
             bind_outcome (check_ptr next h) (\<lambda>_.
             bind_outcome
               (if next \<noteq> 0 then
                  bind_outcome (ensure (fb_prev next h = c)) (\<lambda>_. Ok (set_fb_prev next prev h))
                else Ok h) (\<lambda>h1.
             let h2 = set_fb_next prev next h1 in
             Ok (next, if heap_tail h2 = c then h2\<lparr>heap_tail := prev\<rparr> else h2)))
           else
             bind_outcome (ensure (c = heap_head h)) (\<lambda>_.
             let h1 = h\<lparr>heap_head := next\<rparr> in
             bind_outcome (check_ptr next h1) (\<lambda>_.
             bind_outcome
               (if next \<noteq> 0 then
                  bind_outcome (ensure (fb_prev next h1 = c)) (\<lambda>_. Ok (set_fb_prev next 0 h1))
                else Ok h1) (\<lambda>h2.
             Ok (next, if heap_tail h2 = c then h2\<lparr>heap_tail := next\<rparr> else h2)))))
          (\<lambda>(c', h').
        bind_outcome (free_block_new c (fb_size c h')) (\<lambda>b. Ok (Some b, c', h')))))"

text \<open>Inserting a block before the current one.\<close>

definition insert_before_current :: "heap_block \<Rightarrow> nat \<Rightarrow> heap \<Rightarrow> (unit, heap) outcome" where
  "insert_before_current new_block c h =
     bind_outcome (ensure (hb_size new_block \<noteq> 0)) (\<lambda>_.
     let p = hb_address new_block in
     bind_outcome (check_ptr p h) (\<lambda>_.
     bind_outcome (ensure (p \<noteq> 0)) (\<lambda>_.
     let h = set_fb_size p (hb_size new_block) h in
     if c = heap_head h then
       let h = set_fb_prev p 0 (set_fb_next p (heap_head h) h);
           h = (if heap_head h \<noteq> 0 then set_fb_prev (heap_head h) p h else h);
           h = (if heap_tail h = 0 then h\<lparr>heap_tail := p\<rparr> else h)
       in Ok (h\<lparr>heap_head := p\<rparr>)
     else if c \<noteq> 0 then
       let prev = fb_prev c h;
           h = set_fb_prev p prev (set_fb_next p c h);
           h = (if prev \<noteq> 0 then set_fb_next prev p h else h)
       in Ok (set_fb_prev c p h)
     else
       bind_outcome (check_ptr (heap_tail h) h) (\<lambda>_.
       if heap_tail h \<noteq> 0 then
         bind_outcome (ensure (fb_next (heap_tail h) h = 0)) (\<lambda>_.
         let h = set_fb_prev p (heap_tail h) (set_fb_next p 0 (set_fb_next (heap_tail h) p h))
         in Ok (h\<lparr>heap_tail := p\<rparr>))
       else
         bind_outcome (ensure (heap_head h = 0)) (\<lambda>_.
         Ok (set_fb_prev p 0 (set_fb_next p 0 (h\<lparr>heap_head := p, heap_tail := p\<rparr>))))))))"

definition extend_current :: "nat \<Rightarrow> nat \<Rightarrow> heap \<Rightarrow> (unit, heap) outcome" where
  "extend_current c change_in_size h =
     (if c = 0 then Ok h
      else bind_outcome (add_checked (fb_size c h) change_in_size) (\<lambda>sz. Ok (set_fb_size c sz h)))"

section \<open>The list a heap holds\<close>

text \<open>
  Blocks as pairs of address and size. \<open>dll m p n xs\<close>: in the memory \<open>m\<close> the nodes \<open>xs\<close> are linked in both
  directions, with \<open>p\<close> before the first and \<open>n\<close> after the last.
\<close>

fun first_addr :: "(nat \<times> nat) list \<Rightarrow> nat \<Rightarrow> nat" where
  "first_addr [] n = n"
| "first_addr (x # xs) n = fst x"

fun last_addr :: "(nat \<times> nat) list \<Rightarrow> nat \<Rightarrow> nat" where
  "last_addr [] p = p"
| "last_addr (x # xs) p = last_addr xs (fst x)"

fun dll :: "(nat \<Rightarrow> nat) \<Rightarrow> nat \<Rightarrow> nat \<Rightarrow> (nat \<times> nat) list \<Rightarrow> bool" where
  "dll m p n [] = True"
| "dll m p n ((a, s) # xs) = (m a = s \<and> m (a + 8) = first_addr xs n \<and> m (a + 16) = p \<and> dll m a n xs)"

definition node_fields :: "(nat \<times> nat) list \<Rightarrow> nat set" where
  "node_fields xs = (\<Union>x\<in>set xs. {fst x, fst x + 8, fst x + 16})"

abbreviation nodes_apart :: "(nat \<times> nat) list \<Rightarrow> bool" where
  "nodes_apart xs \<equiv> sorted_wrt (\<lambda>x y. fst x + 24 \<le> fst y) xs"

definition list_ok :: "heap \<Rightarrow> (nat \<times> nat) list \<Rightarrow> bool" where
  "list_ok h xs \<longleftrightarrow> heap_head h = first_addr xs 0 \<and> heap_tail h = last_addr xs 0 \<and> dll (heap_mem h) 0 0 xs \<and>
     nodes_apart xs \<and> KERNEL_HEAP_START + heap_size_in_bytes h < usize_bound \<and>
     (\<forall>x\<in>set xs. KERNEL_HEAP_START \<le> fst x \<and> fst x \<le> KERNEL_HEAP_START + heap_size_in_bytes h \<and> fst x mod 8 = 0)"

lemma first_addr_append [simp]: "first_addr (xs @ ys) n = first_addr xs (first_addr ys n)"
  by (cases xs) auto

lemma last_addr_append [simp]: "last_addr (xs @ ys) p = last_addr ys (last_addr xs p)"
  by (induction xs arbitrary: p) simp_all

lemma first_addr_hd: "xs \<noteq> [] \<Longrightarrow> first_addr xs n = fst (hd xs)"
  by (cases xs) simp_all

lemma last_addr_last: "xs \<noteq> [] \<Longrightarrow> last_addr xs p = fst (last xs)"
  by (cases xs rule: rev_cases) simp_all

lemma dll_append: "dll m p n (xs @ ys) \<longleftrightarrow> dll m p (first_addr ys n) xs \<and> dll m (last_addr xs p) n ys"
proof (induction xs arbitrary: p)
  case (Cons x xs)
  then show ?case by (cases x) simp
qed simp

lemma dll_prev_first: "dll m p n xs \<Longrightarrow> xs \<noteq> [] \<Longrightarrow> m (first_addr xs 0 + 16) = p"
proof (cases xs)
  case (Cons x ys)
  then show "dll m p n xs \<Longrightarrow> m (first_addr xs 0 + 16) = p" by (cases x) simp
qed simp

lemma dll_next_last: "dll m p n xs \<Longrightarrow> xs \<noteq> [] \<Longrightarrow> m (last_addr xs 0 + 8) = n"
proof (cases xs rule: rev_cases)
  case (snoc ys x)
  then show "dll m p n xs \<Longrightarrow> m (last_addr xs 0 + 8) = n" by (cases x) (simp add: dll_append)
qed simp

lemma node_fields_simps [simp]:
  "node_fields [] = {}" "node_fields (x # xs) = {fst x, fst x + 8, fst x + 16} \<union> node_fields xs" "node_fields (xs @ ys) = node_fields xs \<union> node_fields ys"
  by (auto simp: node_fields_def)

lemma dll_frame: "(\<And>w. w \<in> node_fields xs \<Longrightarrow> m' w = m w) \<Longrightarrow> dll m' p n xs = dll m p n xs"
proof (induction xs arbitrary: p)
  case (Cons x xs)
  have "m' (fst x) = m (fst x)" "m' (fst x + 8) = m (fst x + 8)" "m' (fst x + 16) = m (fst x + 16)"
    by (rule Cons.prems, simp)+
  moreover have "dll m' (fst x) n xs = dll m (fst x) n xs" by (rule Cons.IH, rule Cons.prems) simp
  ultimately show ?case by (cases x) simp
qed simp

lemma node_fields_ge:
  assumes "\<forall>x\<in>set xs. a + 24 \<le> fst x" "w \<in> node_fields xs"
  shows "a + 24 \<le> w"
proof -
  obtain x where "x \<in> set xs" "w \<in> {fst x, fst x + 8, fst x + 16}" using assms(2) unfolding node_fields_def by blast
  then show ?thesis using bspec [OF assms(1), of x] by auto
qed

lemma node_fields_le:
  assumes "\<forall>x\<in>set xs. fst x + 24 \<le> a" "w \<in> node_fields xs"
  shows "w < a"
proof -
  obtain x where "x \<in> set xs" "w \<in> {fst x, fst x + 8, fst x + 16}" using assms(2) unfolding node_fields_def by blast
  then show ?thesis using bspec [OF assms(1), of x] by auto
qed

text \<open>The last node of a list and its next pointer, the first node and its previous pointer.\<close>

lemma dll_write_prev:
  assumes "dll m p n xs" "nodes_apart xs" "xs \<noteq> []"
  shows "dll (m(first_addr xs 0 + 16 := q)) q n xs"
proof -
  obtain a s ys where xs: "xs = (a, s) # ys" using assms(3) by (cases xs) auto
  have "dll (m(a + 16 := q)) a n ys = dll m a n ys"
    by (rule dll_frame) (use node_fields_ge [of ys a] assms(2) xs in fastforce)
  then show ?thesis using assms(1) xs by simp
qed

lemma dll_write_next:
  assumes "dll m p n xs" "nodes_apart xs" "xs \<noteq> []"
  shows "dll (m(last_addr xs 0 + 8 := q)) p q xs"
proof -
  obtain a s ys where xs: "xs = ys @ [(a, s)]" using assms(3) by (cases xs rule: rev_cases) auto
  have "dll (m(a + 8 := q)) p a ys = dll m p a ys"
    by (rule dll_frame) (use node_fields_le [of ys a] assms(2) xs in \<open>fastforce simp: sorted_wrt_append\<close>)
  then show ?thesis using assms(1) xs by (simp add: dll_append)
qed

text \<open>The memory after the two sides of a position are pointed at \<open>u\<close> and \<open>v\<close>.\<close>

definition link :: "(nat \<times> nat) list \<Rightarrow> nat \<Rightarrow> nat \<Rightarrow> (nat \<times> nat) list \<Rightarrow> (nat \<Rightarrow> nat) \<Rightarrow> nat \<Rightarrow> nat" where
  "link before u v after m =
     (let m1 = (if before = [] then m else m(last_addr before 0 + 8 := u))
      in if after = [] then m1 else m1(first_addr after 0 + 16 := v))"

lemma last_first_apart:
  "nodes_apart (before @ after) \<Longrightarrow> before \<noteq> [] \<Longrightarrow> after \<noteq> [] \<Longrightarrow> last_addr before 0 + 24 \<le> first_addr after 0"
  by (cases before rule: rev_cases; cases after) (auto simp: sorted_wrt_append)

lemma last_addr_field: "before \<noteq> [] \<Longrightarrow> {last_addr before 0, last_addr before 0 + 8, last_addr before 0 + 16} \<subseteq> node_fields before"
  by (cases before rule: rev_cases) auto

lemma first_addr_field: "after \<noteq> [] \<Longrightarrow> {first_addr after 0, first_addr after 0 + 8, first_addr after 0 + 16} \<subseteq> node_fields after"
  by (cases after) auto

lemma node_fields_apart:
  "nodes_apart (before @ after) \<Longrightarrow> node_fields before \<inter> node_fields after = {}"
proof (induction before)
  case (Cons x before)
  then have "\<forall>y\<in>set after. fst x + 24 \<le> fst y" by auto
  then have "w \<in> node_fields after \<Longrightarrow> fst x + 24 \<le> w" for w by (rule node_fields_ge)
  then show ?case using Cons by fastforce
qed simp

lemma node_apart_others:
  assumes "nodes_apart (before @ x # after)"
  shows "{fst x, fst x + 8, fst x + 16} \<inter> node_fields (before @ after) = {}"
  using node_fields_apart [OF assms] node_fields_apart [of "before @ [x]" after] assms by auto

lemma dll_link:
  assumes "dll m p u' before" "dll m v' n after" "nodes_apart (before @ after)"
  shows "dll (link before u v after m) p u before" "dll (link before u v after m) v n after"
proof -
  have apart: "nodes_apart before" "nodes_apart after" using assms(3) by (auto simp: sorted_wrt_append)
  note disj = node_fields_apart [OF assms(3)] last_addr_field [of before] first_addr_field [of after]
  have same: "dll (m(first_addr after 0 + 16 := v)) p u xs = dll m p u xs" if "after \<noteq> []" "xs = before" for m xs
    using disj that by (intro dll_frame) auto
  show "dll (link before u v after m) p u before"
    using dll_write_next [OF assms(1) apart(1), of u] same by (auto simp: link_def Let_def)
  have "dll (m(last_addr before 0 + 8 := u)) v' n after = dll m v' n after" if "before \<noteq> []"
    using disj that by (intro dll_frame) auto
  then show "dll (link before u v after m) v n after"
    using dll_write_prev [OF _ apart(2)] assms(2) by (auto simp: link_def Let_def)
qed

lemma link_frame: "w \<notin> node_fields (before @ after) \<Longrightarrow> link before u v after m w = m w"
  using last_addr_field [of before] first_addr_field [of after] by (auto simp: link_def Let_def)

lemma check_ptr_ok:
  "list_ok h xs \<Longrightarrow> p = 0 \<or> p \<in> fst ` set xs \<Longrightarrow> check_ptr p h = Ok ()"
  by (auto simp: check_ptr_def list_ok_def add_checked_def ensure_def)

lemma heap_start_pos: "0 < KERNEL_HEAP_START"
  by (simp add: KERNEL_HEAP_START_def)

lemma list_ok_pos: "list_ok h xs \<Longrightarrow> x \<in> set xs \<Longrightarrow> 0 < fst x"
  using heap_start_pos by (fastforce simp: list_ok_def)

lemma first_addr_in: "first_addr xs 0 = 0 \<or> first_addr xs 0 \<in> fst ` set xs"
  by (cases xs) auto

lemma last_addr_in: "last_addr xs 0 = 0 \<or> last_addr xs 0 \<in> fst ` set xs"
  by (cases xs rule: rev_cases) auto

lemma first_addr_0: "list_ok h (ys @ xs) \<Longrightarrow> first_addr xs 0 = 0 \<longleftrightarrow> xs = []"
  using list_ok_pos [of h "ys @ xs"] by (cases xs) fastforce+

lemma last_addr_0: "list_ok h (xs @ ys) \<Longrightarrow> last_addr xs 0 = 0 \<longleftrightarrow> xs = []"
  using list_ok_pos [of h "xs @ ys"] by (cases xs rule: rev_cases) fastforce+

lemma cursor_current_ok:
  "list_ok h (before @ after) \<Longrightarrow> cursor_current (first_addr after 0) h =
     Ok (case after of [] \<Rightarrow> None | x # _ \<Rightarrow> Some \<lparr>hb_address = fst x, hb_size = snd x\<rparr>)"
  using list_ok_pos [of h "before @ after"]
  by (cases after)
    (auto simp: cursor_current_def free_block_new_def ensure_def align_offset_def list_ok_def dll_append fb_size_def)

lemma free_list_cursor_ok: "list_ok h xs \<Longrightarrow> free_list_cursor h = Ok (first_addr xs 0)"
  using check_ptr_ok [of h xs "heap_head h"] first_addr_in [of xs] by (auto simp: free_list_cursor_def list_ok_def)

lemma check_first_ok: "list_ok h (before @ after) \<Longrightarrow> check_ptr (first_addr after 0) h = Ok ()"
  using check_ptr_ok [of h "before @ after" "first_addr after 0"] first_addr_in [of after] by auto

lemma move_next_ok: "list_ok h (before @ x # after) \<Longrightarrow> move_next (fst x) h = Ok (first_addr after 0)"
proof -
  assume ok: "list_ok h (before @ x # after)"
  have "fb_next (fst x) h = first_addr after 0"
    using ok by (cases x) (simp add: list_ok_def dll_append fb_next_def)
  then show ?thesis
    using list_ok_pos [OF ok, of x] check_first_ok [of h "before @ [x]" after] ok by (simp add: move_next_def)
qed

section \<open>Removal and insertion\<close>

text \<open>What an operation keeps: the size of the heap and every word outside the nodes.\<close>

definition heap_frame :: "nat set \<Rightarrow> heap \<Rightarrow> heap \<Rightarrow> bool" where
  "heap_frame W h h' \<longleftrightarrow> heap_size_in_bytes h' = heap_size_in_bytes h \<and> (\<forall>w. w \<notin> W \<longrightarrow> heap_mem h' w = heap_mem h w)"

lemma list_okD:
  assumes "list_ok h (before @ x # after)"
  shows "fb_size (fst x) h = snd x" "fb_next (fst x) h = first_addr after 0" "fb_prev (fst x) h = last_addr before 0"
    "after \<noteq> [] \<Longrightarrow> fb_prev (first_addr after 0) h = fst x"
  using assms by (cases x; cases after; auto simp: list_ok_def dll_append fb_size_def fb_next_def fb_prev_def)+

lemma check_last_ok: "list_ok h (before @ after) \<Longrightarrow> check_ptr (last_addr before 0) h = Ok ()"
  using check_ptr_ok [of h "before @ after" "last_addr before 0"] last_addr_in [of before] by auto

lemma heap_mem_write [simp]:
  "heap_mem (write_word p v h) = (heap_mem h)(p := v)" "heap_head (write_word p v h) = heap_head h"
  "heap_tail (write_word p v h) = heap_tail h" "heap_size_in_bytes (write_word p v h) = heap_size_in_bytes h"
  by (simp_all add: write_word_def)

lemma remove_current_ok:
  assumes ok: "list_ok h (before @ x # after)"
  shows "\<exists>h'. remove_current (fst x) h = Ok (Some \<lparr>hb_address = fst x, hb_size = snd x\<rparr>, first_addr after 0, h') \<and>
    list_ok h' (before @ after) \<and> heap_frame (node_fields (before @ after)) h h'"
proof -
  let ?p = "last_addr before 0" and ?n = "first_addr after 0"
  let ?h = "\<lparr>heap_mem = link before ?n ?p after (heap_mem h), heap_head = first_addr (before @ after) 0,
    heap_tail = last_addr (before @ after) 0, heap_size_in_bytes = heap_size_in_bytes h\<rparr>"
  have apart: "nodes_apart (before @ after)" and pos: "0 < fst x" and al: "fst x mod 8 = 0"
    using ok list_ok_pos [OF ok] by (auto simp: list_ok_def sorted_wrt_append)
  have p0: "?p = 0 \<longleftrightarrow> before = []" and n0: "?n = 0 \<longleftrightarrow> after = []"
    using last_addr_0 [OF ok] first_addr_0 [of h "before @ [x]" after] ok by auto
  have chk: "check_ptr ?p h = Ok ()" "check_ptr ?n h = Ok ()"
    using check_last_ok [OF ok] check_first_ok [of h "before @ [x]" after] ok by simp_all
  have tail: "heap_tail h = fst x \<longleftrightarrow> after = []"
    using ok by (cases after rule: rev_cases) (auto simp: list_ok_def sorted_wrt_append)
  have hd: "heap_head h = first_addr before (fst x)" "heap_tail h = last_addr after (fst x)" using ok by (auto simp: list_ok_def)
  have chk': "check_ptr ?n (h\<lparr>heap_head := ?n\<rparr>) = Ok ()" using chk(2) by (simp add: check_ptr_def cong: if_cong)
  have size: "link before ?n ?p after (heap_mem h) (fst x) = snd x"
    using list_okD(1) [OF ok] link_frame [of "fst x" before after] node_apart_others [of before x after] ok
    by (auto simp: fb_size_def list_ok_def)
  have "remove_current (fst x) h = Ok (Some \<lparr>hb_address = fst x, hb_size = snd x\<rparr>, ?n, ?h)"
    using pos al p0 n0 chk chk' tail hd list_okD [OF ok] size last_first_apart [OF apart]
    by (cases "before = []"; cases "after = []"; cases h)
      (simp_all add: remove_current_def ensure_def free_block_new_def align_offset_def link_def Let_def write_word_def
        fb_size_def fb_prev_def fun_upd_twist first_addr_hd last_addr_last)
  moreover have "list_ok ?h (before @ after)"
    using ok dll_link [of "heap_mem h" 0 "fst x" before "fst x" 0 after ?n ?p] apart
    by (cases x) (auto simp: list_ok_def dll_append)
  ultimately show ?thesis by (auto simp: heap_frame_def link_frame)
qed

lemma insert_before_current_ok:
  assumes ok: "list_ok h (before @ after)" and apart: "nodes_apart (before @ (a, s) # after)" and s: "s \<noteq> 0"
    and a: "KERNEL_HEAP_START \<le> a" "a \<le> KERNEL_HEAP_START + heap_size_in_bytes h" "a mod 8 = 0"
  shows "\<exists>h'. insert_before_current \<lparr>hb_address = a, hb_size = s\<rparr> (first_addr after 0) h = Ok h' \<and>
    list_ok h' (before @ (a, s) # after) \<and> heap_frame (node_fields (before @ (a, s) # after)) h h'"
proof -
  let ?p = "last_addr before 0" and ?n = "first_addr after 0"
  let ?m = "(heap_mem h)(a := s, a + 8 := ?n, a + 16 := ?p)"
  let ?h = "\<lparr>heap_mem = link before a a after ?m, heap_head = first_addr (before @ (a, s) # after) 0,
    heap_tail = last_addr (before @ (a, s) # after) 0, heap_size_in_bytes = heap_size_in_bytes h\<rparr>"
  have apart': "nodes_apart (before @ after)" using apart by (auto simp: sorted_wrt_append)
  have pos: "0 < a" using a heap_start_pos by simp
  have p0: "?p = 0 \<longleftrightarrow> before = []" and n0: "?n = 0 \<longleftrightarrow> after = []"
    using last_addr_0 [OF ok] first_addr_0 [OF ok] by auto
  have chk: "check_ptr a h = Ok ()" "check_ptr ?p h = Ok ()"
    using a ok check_last_ok [OF ok] by (simp_all add: check_ptr_def list_ok_def add_checked_def ensure_def)
  have chk': "check_ptr ?p (h\<lparr>heap_mem := m\<rparr>) = Ok ()" for m using chk(2) by (simp add: check_ptr_def cong: if_cong)
  have hd: "heap_head h = first_addr before ?n" "heap_tail h = last_addr after ?p" "dll (heap_mem h) 0 ?n before"
    "dll (heap_mem h) ?p 0 after"
    using ok by (auto simp: list_ok_def dll_append)
  have away: "before \<noteq> [] \<Longrightarrow> ?p + 24 \<le> a" "after \<noteq> [] \<Longrightarrow> a + 24 \<le> ?n"
    using last_first_apart [OF apart] last_first_apart [of "before @ [(a, s)]" after] apart by simp_all
  have cur: "before \<noteq> [] \<Longrightarrow> first_addr before 0 \<noteq> ?n"
    using apart' list_ok_pos [OF ok] by (cases before; cases after; force)
  note ins_defs = insert_before_current_def ensure_def link_def Let_def write_word_def fb_next_def fb_prev_def
    first_addr_hd last_addr_last
  note facts = s pos p0 n0 chk chk' [of "(heap_mem h)(a := s)"] hd away cur dll_prev_first [OF hd(4)] dll_next_last [OF hd(3)]
  have ins: "insert_before_current \<lparr>hb_address = a, hb_size = s\<rparr> ?n h = Ok ?h"
  proof (cases "before \<noteq> [] \<and> after = []")
    case True
    have "(heap_mem h)(a := s, ?p + 8 := a, a + 8 := 0, a + 16 := ?p) = (heap_mem h)(a := s, a + 8 := 0, a + 16 := ?p, ?p + 8 := a)"
      using away(1) True by auto
    then show ?thesis using facts True by (cases h) (simp add: ins_defs)
  next
    case False
    show ?thesis
    proof (cases "before = []")
      case True
      then show ?thesis using s pos n0 chk(1) hd(1, 2) list_ok_pos [OF ok, of "last after"] by (cases "after = []"; cases h) (simp_all add: ins_defs)
    next
      case before: False
      then have after: "after \<noteq> []" using False by simp
      show ?thesis using before after s pos p0 n0 chk(1) hd(1, 2) away cur dll_prev_first [OF hd(4)]
        by (cases h) (simp add: ins_defs)
    qed
  qed
  have outside: "dll ?m q u before = dll (heap_mem h) q u before" "dll ?m q u after = dll (heap_mem h) q u after" for q u
    using node_apart_others [OF apart] by (intro dll_frame; auto)+
  have "list_ok ?h (before @ (a, s) # after)"
    using ok dll_link [of ?m 0 ?n before ?p 0 after a a] outside hd apart' apart a link_frame node_apart_others [OF apart]
    by (auto simp: list_ok_def dll_append)
  moreover have "heap_frame (node_fields (before @ (a, s) # after)) h ?h"
    by (simp add: heap_frame_def link_frame)
  ultimately show ?thesis using ins by blast
qed

lemma extend_current_ok:
  assumes ok: "list_ok h (before @ (a, s) # after)" and sz: "s + k < usize_bound"
  shows "\<exists>h'. extend_current a k h = Ok h' \<and> list_ok h' (before @ (a, s + k) # after) \<and>
    heap_frame (node_fields (before @ (a, s + k) # after)) h h'"
proof -
  let ?h = "write_word a (s + k) h"
  have pos: "0 < a" using list_ok_pos [OF ok, of "(a, s)"] by simp
  have apart: "nodes_apart (before @ (a, s) # after)" using ok by (simp add: list_ok_def)
  have "extend_current a k h = Ok ?h"
    using list_okD(1) [OF ok] pos sz by (simp add: extend_current_def add_checked_def)
  moreover have "dll (heap_mem ?h) q u before = dll (heap_mem h) q u before"
      "dll (heap_mem ?h) q u after = dll (heap_mem h) q u after" for q u
    using node_apart_others [OF apart] by (intro dll_frame; auto)+
  then have "list_ok ?h (before @ (a, s + k) # after)"
    using ok by (auto simp: list_ok_def dll_append sorted_wrt_append)
  ultimately show ?thesis by (auto simp: heap_frame_def)
qed

lemma free_list_init_ok:
  assumes "KERNEL_HEAP_START + sz < usize_bound"
  shows "\<exists>h. free_list_init sz (new_uninit m) = Ok h \<and> list_ok h [(KERNEL_HEAP_START, sz)] \<and> heap_size_in_bytes h = sz"
  using assms by (auto simp: free_list_init_def new_uninit_def ensure_def list_ok_def KERNEL_HEAP_START_def)

end
