(* ===== verification/Kernel_Heap.thy ===== *)
theory Kernel_Heap
  imports Heap_List Phys_Buffer
begin

text \<open>
  The kernel heap (\<open>KernelGlobalAlloc\<close> of \<open>kernel/src/memory/heap.rs\<close>): a first-fit allocator on the free
  list of the theory \<open>Heap_List\<close> that grows through the physical memory allocator and the kernel's page
  table. Loops over the linked list and the retry of an allocation after growing may not end for an
  arbitrary memory, so they return \<open>option\<close>; for a well-formed heap they are shown to return.
\<close>

section \<open>Headers of allocated blocks and layouts\<close>

definition INIT_SIZE :: nat where
  "INIT_SIZE = 8"

definition ALLOC_HEADER_SIZE :: nat where
  "ALLOC_HEADER_SIZE = 8"

text \<open>The header word: padding in bits 63 to 56 (truncated to a byte), size in bits 55 to 0.\<close>

definition alloc_header_new :: "nat \<Rightarrow> nat \<Rightarrow> nat" where
  "alloc_header_new sz padding =
     unat (set_field 63 56 (of_nat (padding mod 256)) (set_field 55 0 (of_nat sz) (0 :: 64 word)))"

definition alloc_header_size :: "nat \<Rightarrow> nat" where
  "alloc_header_size w = unat (get_field 55 0 (of_nat w :: 64 word))"

definition padding_size :: "nat \<Rightarrow> nat" where
  "padding_size w = unat (get_field 63 56 (of_nat w :: 64 word))"

record layout =
  layout_size :: nat
  layout_align :: nat

section \<open>The allocator\<close>

record kheap =
  kh_heap :: heap
  kh_initialized :: bool
  kh_kmem :: kmem

type_synonym 'a heap_result = "(unit, 'a) outcome option"

fun bind_result :: "'a heap_result \<Rightarrow> ('a \<Rightarrow> 'b heap_result) \<Rightarrow> 'b heap_result" where
  "bind_result None f = None"
| "bind_result (Some (Ok a)) f = f a"
| "bind_result (Some (Err e)) f = Some (Err e)"
| "bind_result (Some Panic) f = Some Panic"

text \<open>Pages from the physical allocator, mapped at \<open>va\<close> in the kernel's page table.\<close>

definition heap_map_pages :: "nat \<Rightarrow> virtual_address \<Rightarrow> kmem \<Rightarrow> (unit, kmem) outcome" where
  "heap_map_pages n va k =
     bind_outcome (expect_ok (alloc_contig n (pm_alloc (km_pt k)))) (\<lambda>(p, pages).
     let k1 = km_set_alloc p k in
     bind_outcome (expect_ok (map_range (km_table k1) pages va n True
         \<lparr>read_only = False, el0_access = False\<rparr> (km_pt k1))) (\<lambda>(m, pt).
     Ok (k1\<lparr>km_pt := m, km_table := pt\<rparr>)))"

definition heap_init :: "kheap \<Rightarrow> (unit, kheap) outcome" where
  "heap_init ks =
     bind_outcome (ensure (\<not> kh_initialized ks)) (\<lambda>_.
     bind_outcome (heap_map_pages INIT_SIZE KERNEL_HEAP_START (kh_kmem ks)) (\<lambda>k.
     bind_outcome (free_list_init (INIT_SIZE * PAGE_SIZE) (kh_heap ks)) (\<lambda>h.
     Ok \<lparr>kh_heap = h, kh_initialized = True, kh_kmem = k\<rparr>)))"

definition ensure_init :: "kheap \<Rightarrow> (unit, kheap) outcome" where
  "ensure_init ks = (if kh_initialized ks then Ok ks else heap_init ks)"

text \<open>The size a block must have for a layout: data, header and padding.\<close>

definition required_size :: "layout \<Rightarrow> virtual_address \<Rightarrow> (unit, nat) outcome" where
  "required_size l address =
     bind_outcome (add_checked (layout_size l) ALLOC_HEADER_SIZE) (\<lambda>n.
     add_checked n (align_offset (va_add address ALLOC_HEADER_SIZE) (layout_align l)))"

partial_function (option) find_loop :: "layout \<Rightarrow> nat \<Rightarrow> heap \<Rightarrow> (heap_block option \<times> heap) heap_result" where
  "find_loop l c h =
     (case cursor_current c h of
        Ok None \<Rightarrow> Some (Ok (None, h))
      | Ok (Some block) \<Rightarrow>
          (case required_size l (hb_address block) of
             Ok required \<Rightarrow>
               if required \<le> hb_size block
               then Some (bind_outcome (remove_current c h) (\<lambda>(b, c', h'). Ok (b, h')))
               else (case move_next c h of Ok c' \<Rightarrow> find_loop l c' h | _ \<Rightarrow> Some Panic)
           | _ \<Rightarrow> Some Panic)
      | _ \<Rightarrow> Some Panic)"

definition find_suitable_free_block :: "layout \<Rightarrow> kheap \<Rightarrow> (heap_block option \<times> kheap) heap_result" where
  "find_suitable_free_block l ks =
     bind_result (Some (ensure_init ks)) (\<lambda>ks1.
     bind_result (Some (free_list_cursor (kh_heap ks1))) (\<lambda>c.
     bind_result (find_loop l c (kh_heap ks1)) (\<lambda>(b, h).
     Some (Ok (b, ks1\<lparr>kh_heap := h\<rparr>)))))"

partial_function (option) add_loop :: "heap_block \<Rightarrow> nat \<Rightarrow> heap \<Rightarrow> heap heap_result" where
  "add_loop new_block c h =
     (case cursor_current c h of
        Ok None \<Rightarrow> Some (insert_before_current new_block c h)
      | Ok (Some block) \<Rightarrow>
          (case check_adjacency new_block block of
             Adj_before \<Rightarrow>
               Some (bind_outcome (remove_current c h) (\<lambda>(_, c', h').
                     bind_outcome (add_checked (hb_size new_block) (hb_size block)) (\<lambda>sz.
                     insert_before_current (new_block\<lparr>hb_size := sz\<rparr>) c' h')))
           | Adj_after \<Rightarrow> Some (extend_current c (hb_size new_block) h)
           | Not_adjacent \<Rightarrow>
               if hb_address new_block < hb_address block then Some (insert_before_current new_block c h)
               else (case move_next c h of Ok c' \<Rightarrow> add_loop new_block c' h | _ \<Rightarrow> Some Panic))
      | _ \<Rightarrow> Some Panic)"

definition add_free_block :: "heap_block \<Rightarrow> heap \<Rightarrow> heap heap_result" where
  "add_free_block new_block h = bind_result (Some (free_list_cursor h)) (\<lambda>c. add_loop new_block c h)"

definition increase_heap_size :: "layout \<Rightarrow> kheap \<Rightarrow> kheap heap_result" where
  "increase_heap_size l ks =
     (let h = kh_heap ks; sz = heap_size_in_bytes h in
      bind_result (Some (add_checked sz (sz div 2))) (\<lambda>grown.
      let num_new_pages = div_ceil (max grown (layout_size l)) PAGE_SIZE in
      bind_result (Some (add_checked KERNEL_HEAP_START sz)) (\<lambda>old_heap_end.
      bind_result (Some (heap_map_pages num_new_pages old_heap_end (kh_kmem ks))) (\<lambda>k.
      bind_result (Some (mul_checked num_new_pages PAGE_SIZE)) (\<lambda>new_bytes.
      bind_result (Some (increase_size new_bytes h)) (\<lambda>h1.
      bind_result (Some (free_block_new old_heap_end new_bytes)) (\<lambda>b.
      bind_result (add_free_block b h1) (\<lambda>h2.
      Some (Ok (ks\<lparr>kh_heap := h2, kh_kmem := k\<rparr>))))))))))"

text \<open>Turning a free block into an allocated one; the unused end goes back to the free list.\<close>

definition carve_block :: "layout \<Rightarrow> heap_block \<Rightarrow> heap \<Rightarrow> (nat \<times> heap) heap_result" where
  "carve_block l block h =
     (let padding_before = align_offset (va_add (hb_address block) ALLOC_HEADER_SIZE) (layout_align l) in
      bind_result (Some (add_checked ALLOC_HEADER_SIZE padding_before)) (\<lambda>n.
      bind_result (Some (add_checked n (layout_size l))) (\<lambda>n.
      let req = max n FREE_HEADER_SIZE in
      bind_result (Some (add_checked req (align_offset (va_add (hb_address block) req) 8))) (\<lambda>req_block_size.
      bind_result (Some (sub_checked (hb_size block) req_block_size)) (\<lambda>rest.
      bind_result
        (if FREE_HEADER_SIZE < rest then
           bind_result (Some (free_block_new (va_add (hb_address block) req_block_size) rest)) (\<lambda>b.
           bind_result (add_free_block b h) (\<lambda>h'. Some (Ok (req_block_size, h'))))
         else Some (Ok (hb_size block, h))) (\<lambda>(actual_block_size, h1).
      bind_result (Some (ensure (FREE_HEADER_SIZE \<le> actual_block_size))) (\<lambda>_.
      let padded_address = va_add (hb_address block) padding_before in
      bind_result (Some (ensure (padded_address \<noteq> 0))) (\<lambda>_.
      Some (Ok (padded_address + ALLOC_HEADER_SIZE,
                write_word padded_address (alloc_header_new actual_block_size padding_before) h1))))))))))"

partial_function (option) kernel_alloc :: "layout \<Rightarrow> kheap \<Rightarrow> (nat \<times> kheap) heap_result" where
  "kernel_alloc l ks =
     (case find_suitable_free_block l ks of
        Some (Ok (Some block, ks1)) \<Rightarrow>
          bind_result (carve_block l block (kh_heap ks1)) (\<lambda>(p, h). Some (Ok (p, ks1\<lparr>kh_heap := h\<rparr>)))
      | Some (Ok (None, ks1)) \<Rightarrow>
          (case increase_heap_size l ks1 of
             Some (Ok ks2) \<Rightarrow> kernel_alloc l ks2
           | Some r \<Rightarrow> Some Panic
           | None \<Rightarrow> None)
      | Some r \<Rightarrow> Some Panic
      | None \<Rightarrow> None)"

definition kernel_dealloc :: "nat \<Rightarrow> layout \<Rightarrow> kheap \<Rightarrow> kheap heap_result" where
  "kernel_dealloc p l ks =
     (if p = 0 then Some (Ok ks)
      else
        let header = p - ALLOC_HEADER_SIZE;
            w = heap_mem (kh_heap ks) header;
            block_size = alloc_header_size w;
            block_address = va_offset header (- int (padding_size w))
        in
        bind_result (Some (ensure (layout_size l \<le> block_size))) (\<lambda>_.
        bind_result (Some (free_block_new block_address block_size)) (\<lambda>b.
        bind_result (add_free_block b (kh_heap ks)) (\<lambda>h.
        Some (Ok (ks\<lparr>kh_heap := h\<rparr>))))))"

section \<open>Free blocks as a list\<close>

abbreviation blocks_apart :: "(nat \<times> nat) list \<Rightarrow> bool" where
  "blocks_apart xs \<equiv> sorted_wrt (\<lambda>x y. fst x + snd x \<le> fst y) xs"

definition heap_block_ok :: "nat \<Rightarrow> nat \<times> nat \<Rightarrow> bool" where
  "heap_block_ok sz x \<longleftrightarrow> KERNEL_HEAP_START \<le> fst x \<and> fst x + snd x \<le> KERNEL_HEAP_START + sz \<and>
     fst x mod 8 = 0 \<and> snd x mod 8 = 0 \<and> 24 \<le> snd x"

definition free_ok :: "heap \<Rightarrow> (nat \<times> nat) list \<Rightarrow> bool" where
  "free_ok h xs \<longleftrightarrow> list_ok h xs \<and> blocks_apart xs \<and> (\<forall>x\<in>set xs. heap_block_ok (heap_size_in_bytes h) x)"

definition span :: "nat \<times> nat \<Rightarrow> nat set" where
  "span x = {fst x ..< fst x + snd x}"

definition spans :: "(nat \<times> nat) list \<Rightarrow> nat set" where
  "spans xs = (\<Union>x\<in>set xs. span x)"

abbreviation to_block :: "nat \<times> nat \<Rightarrow> heap_block" where
  "to_block x \<equiv> \<lparr>hb_address = fst x, hb_size = snd x\<rparr>"

text \<open>What releasing a block does to the list: merge with one neighbour or insert in order.\<close>

fun add_block :: "nat \<times> nat \<Rightarrow> (nat \<times> nat) list \<Rightarrow> (nat \<times> nat) list" where
  "add_block b [] = [b]"
| "add_block b (x # xs) =
     (if fst b + snd b = fst x then (fst b, snd b + snd x) # xs
      else if fst x + snd x = fst b then (fst x, snd x + snd b) # xs
      else if fst b < fst x then b # x # xs
      else x # add_block b xs)"

lemma spans_simps [simp]:
  "spans [] = {}" "spans (x # xs) = span x \<union> spans xs" "spans (xs @ ys) = spans xs \<union> spans ys"
  by (simp_all add: spans_def)

lemma span_disjoint:
  "0 < snd x \<Longrightarrow> 0 < snd y \<Longrightarrow> span x \<inter> span y = {} \<longleftrightarrow> fst x + snd x \<le> fst y \<or> fst y + snd y \<le> fst x"
  by (auto simp: span_def)

lemma node_fields_spans: "\<forall>x\<in>set xs. 24 \<le> snd x \<Longrightarrow> node_fields xs \<subseteq> spans xs"
proof (induction xs)
  case (Cons x xs)
  then have "{fst x, fst x + 8, fst x + 16} \<subseteq> span x" by (simp add: span_def)
  then show ?case using Cons by (simp add: le_supI1 le_supI2)
qed simp

lemma blocks_apart_nodes: "blocks_apart xs \<Longrightarrow> \<forall>x\<in>set xs. 24 \<le> snd x \<Longrightarrow> nodes_apart xs"
proof (induction xs)
  case (Cons x xs)
  then have "\<forall>y\<in>set xs. fst x + 24 \<le> fst y" by fastforce
  then show ?case using Cons by simp
qed simp

lemma heap_frame_mono: "heap_frame W h h' \<Longrightarrow> W \<subseteq> W' \<Longrightarrow> heap_frame W' h h'"
  by (auto simp: heap_frame_def)

lemma heap_frame_trans: "heap_frame W h h' \<Longrightarrow> heap_frame W h' h'' \<Longrightarrow> heap_frame W h h''"
  by (auto simp: heap_frame_def)

lemma spans_add_block: "spans (add_block b xs) = span b \<union> spans xs"
proof (induction xs)
  case (Cons x xs)
  have "fst b + snd b = fst x \<Longrightarrow> span (fst b, snd b + snd x) = span b \<union> span x"
    "fst x + snd x = fst b \<Longrightarrow> span (fst x, snd x + snd b) = span b \<union> span x"
    by (auto simp: span_def)
  then show ?case using Cons by auto
qed simp

section \<open>The loops\<close>

definition fits :: "layout \<Rightarrow> nat \<times> nat \<Rightarrow> bool" where
  "fits l x \<longleftrightarrow> layout_size l + 8 + align_offset (fst x + 8) (layout_align l) \<le> snd x"

text \<open>The layouts considered: an alignment of at most 256 bytes and a size in the range of \<open>isize\<close>.\<close>

definition layout_ok :: "layout \<Rightarrow> bool" where
  "layout_ok l \<longleftrightarrow> layout_align l \<in> {1, 2, 4, 8, 16, 32, 64, 128, 256} \<and> layout_size l < 2 ^ 63"

lemma align_offset_lt: "layout_ok l \<Longrightarrow> align_offset a (layout_align l) < 256"
  by (auto simp: layout_ok_def align_offset_def)

lemma align_offset_mod: "0 < n \<Longrightarrow> (a + align_offset a n) mod n = 0"
proof (cases "a mod n = 0")
  case False
  assume n: "0 < n"
  then have "a mod n < n" by simp
  moreover have "a = a div n * n + a mod n" by simp
  ultimately have "a + (n - a mod n) = a div n * n + n" by linarith
  then show ?thesis using False by (simp add: align_offset_def)
qed (simp add: align_offset_def)

lemma align_offset_8:
  assumes "n dvd 8 \<or> 8 dvd n" "a mod 8 = 0"
  shows "align_offset a n mod 8 = 0"
proof (cases "n dvd 8")
  case True
  then have "n dvd a" using assms(2) dvd_trans mod_0_imp_dvd by blast
  then show ?thesis by (simp add: align_offset_def)
next
  case False
  then have n: "8 dvd n" using assms(1) by blast
  then have "8 dvd a mod n" using assms(2) by (simp add: dvd_mod mod_0_imp_dvd)
  then show ?thesis using n by (auto simp: align_offset_def)
qed

lemma align_offset_aligned:
  assumes "layout_ok l" "a mod 8 = 0"
  shows "(a + align_offset a (layout_align l)) mod layout_align l = 0" "align_offset a (layout_align l) mod 8 = 0"
  using assms align_offset_mod align_offset_8 by (auto simp: layout_ok_def)

lemma required_size_ok:
  assumes "layout_ok l" "a + 8 < usize_bound"
  shows "required_size l a = Ok (layout_size l + 8 + align_offset (a + 8) (layout_align l))"
  using assms align_offset_lt [OF assms(1), of "a + 8"]
  by (simp add: required_size_def ALLOC_HEADER_SIZE_def add_checked_def va_add_def wrapping_add_def layout_ok_def)

lemma free_okD:
  assumes "free_ok h xs"
  shows "list_ok h xs" "blocks_apart xs" "\<And>x. x \<in> set xs \<Longrightarrow> heap_block_ok (heap_size_in_bytes h) x"
    "KERNEL_HEAP_START + heap_size_in_bytes h < usize_bound"
  using assms by (auto simp: free_ok_def list_ok_def)

lemma heap_block_ok_bounds: "free_ok h xs \<Longrightarrow> heap_block_ok (heap_size_in_bytes h) x \<Longrightarrow> fst x + snd x < usize_bound \<and> 24 \<le> snd x"
  using free_okD(4) by (fastforce simp: heap_block_ok_def)

lemma free_ok_remove:
  assumes ok: "free_ok h (before @ x # after)"
  shows "\<exists>h'. remove_current (fst x) h = Ok (Some (to_block x), first_addr after 0, h') \<and> free_ok h' (before @ after) \<and>
    heap_frame (spans (before @ after)) h h'"
proof -
  obtain h' where h': "remove_current (fst x) h = Ok (Some (to_block x), first_addr after 0, h')"
    "list_ok h' (before @ after)" "heap_frame (node_fields (before @ after)) h h'"
    using remove_current_ok [OF free_okD(1) [OF ok]] by blast
  have "node_fields (before @ after) \<subseteq> spans (before @ after)"
    using ok by (intro node_fields_spans) (auto simp: free_ok_def heap_block_ok_def)
  then have "heap_frame (spans (before @ after)) h h'" using h'(3) heap_frame_mono by blast
  moreover have "free_ok h' (before @ after)"
    using ok h'(2, 3) by (auto simp: free_ok_def heap_frame_def sorted_wrt_append)
  ultimately show ?thesis using h'(1) by blast
qed

lemma free_ok_insert:
  assumes ok: "free_ok h (before @ after)" and b: "heap_block_ok (heap_size_in_bytes h) b"
    and lt: "\<forall>x\<in>set before. fst x + snd x \<le> fst b" and gt: "\<forall>x\<in>set after. fst b + snd b \<le> fst x"
  shows "\<exists>h'. insert_before_current (to_block b) (first_addr after 0) h = Ok h' \<and> free_ok h' (before @ b # after) \<and>
    heap_frame (spans (before @ b # after)) h h'"
proof -
  have apart: "blocks_apart (before @ b # after)" using ok lt gt by (auto simp: free_ok_def sorted_wrt_append)
  have sizes: "\<forall>x\<in>set (before @ b # after). 24 \<le> snd x" using ok b by (auto simp: free_ok_def heap_block_ok_def)
  have "nodes_apart (before @ (fst b, snd b) # after)" using blocks_apart_nodes [OF apart sizes] by simp
  then obtain h' where h': "insert_before_current (to_block b) (first_addr after 0) h = Ok h'"
    "list_ok h' (before @ b # after)" "heap_frame (node_fields (before @ b # after)) h h'"
    using insert_before_current_ok [OF free_okD(1) [OF ok], of "fst b" "snd b"] b by (auto simp: heap_block_ok_def)
  have "heap_frame (spans (before @ b # after)) h h'"
    using h'(3) node_fields_spans [OF sizes] heap_frame_mono by blast
  moreover have "free_ok h' (before @ b # after)"
    using ok b apart h'(2, 3) by (auto simp: free_ok_def heap_frame_def)
  ultimately show ?thesis using h'(1) by blast
qed

lemma free_ok_extend:
  assumes ok: "free_ok h (before @ x # after)" and k: "k mod 8 = 0" "fst x + snd x + k \<le> KERNEL_HEAP_START + heap_size_in_bytes h"
    and gt: "\<forall>y\<in>set after. fst x + snd x + k \<le> fst y"
  shows "\<exists>h'. extend_current (fst x) k h = Ok h' \<and> free_ok h' (before @ (fst x, snd x + k) # after) \<and>
    heap_frame (spans (before @ (fst x, snd x + k) # after)) h h'"
proof -
  have x: "heap_block_ok (heap_size_in_bytes h) x" using free_okD(3) [OF ok] by simp
  have bound: "snd x + k < usize_bound" using k(2) free_okD(4) [OF ok] by simp
  have list: "list_ok h (before @ (fst x, snd x) # after)" using free_okD(1) [OF ok] by simp
  obtain h' where h': "extend_current (fst x) k h = Ok h'" "list_ok h' (before @ (fst x, snd x + k) # after)"
    "heap_frame (node_fields (before @ (fst x, snd x + k) # after)) h h'"
    using extend_current_ok [OF list bound] by blast
  have sizes: "\<forall>y\<in>set (before @ (fst x, snd x + k) # after). 24 \<le> snd y" using ok by (auto simp: free_ok_def heap_block_ok_def)
  have "free_ok h' (before @ (fst x, snd x + k) # after)"
    using ok k gt x h'(2, 3) by (auto simp: free_ok_def heap_frame_def sorted_wrt_append heap_block_ok_def)
  then show ?thesis using h'(1, 3) node_fields_spans [OF sizes] heap_frame_mono by blast
qed

lemma find_loop_ok:
  assumes "free_ok h (before @ after)" "layout_ok l"
  shows "(\<forall>x\<in>set after. \<not> fits l x) \<and> find_loop l (first_addr after 0) h = Some (Ok (None, h)) \<or>
    (\<exists>xs x ys h'. after = xs @ x # ys \<and> fits l x \<and> (\<forall>y\<in>set xs. \<not> fits l y) \<and>
       find_loop l (first_addr after 0) h = Some (Ok (Some (to_block x), h')) \<and> free_ok h' (before @ xs @ ys) \<and>
       heap_frame (spans (before @ xs @ ys)) h h')"
  using assms
proof (induction after arbitrary: before)
  case Nil
  then show ?case using cursor_current_ok [of h before "[]"] by (simp add: find_loop.simps free_ok_def)
next
  case (Cons x after)
  have list: "list_ok h (before @ x # after)" using Cons.prems(1) by (simp add: free_ok_def)
  have x: "fst x + 8 < usize_bound"
    using heap_block_ok_bounds [OF Cons.prems(1), of x] free_okD(3) [OF Cons.prems(1), of x] by simp
  have req: "required_size l (fst x) = Ok (layout_size l + 8 + align_offset (fst x + 8) (layout_align l))"
    by (rule required_size_ok [OF Cons.prems(2) x])
  show ?case
  proof (cases "fits l x")
    case True
    then show ?thesis
      using cursor_current_ok [OF list] req free_ok_remove [OF Cons.prems(1)]
      by (fastforce simp: find_loop.simps fits_def intro!: exI [of _ "[]"])
  next
    case False
    then have step: "find_loop l (fst x) h = find_loop l (first_addr after 0) h"
      using cursor_current_ok [OF list] req move_next_ok [OF list] by (simp add: find_loop.simps [of l "fst x"] fits_def)
    have "free_ok h ((before @ [x]) @ after)" using Cons.prems(1) by simp
    from Cons.IH [OF this Cons.prems(2)] show ?thesis
    proof
      assume "(\<forall>y\<in>set after. \<not> fits l y) \<and> find_loop l (first_addr after 0) h = Some (Ok (None, h))"
      then show ?thesis using False step by simp
    next
      assume "\<exists>xs y ys h'. after = xs @ y # ys \<and> fits l y \<and> (\<forall>y\<in>set xs. \<not> fits l y) \<and>
        find_loop l (first_addr after 0) h = Some (Ok (Some (to_block y), h')) \<and>
        free_ok h' ((before @ [x]) @ xs @ ys) \<and> heap_frame (spans ((before @ [x]) @ xs @ ys)) h h'"
      then obtain xs y ys h' where "after = xs @ y # ys" "fits l y" "\<forall>y\<in>set xs. \<not> fits l y"
        "find_loop l (first_addr after 0) h = Some (Ok (Some (to_block y), h'))"
        "free_ok h' (before @ (x # xs) @ ys)" "heap_frame (spans (before @ (x # xs) @ ys)) h h'" by auto
      then show ?thesis using False step by (intro disjI2 exI [of _ "x # xs"] exI [of _ y] exI [of _ ys] exI [of _ h']) simp
    qed
  qed
qed

lemma va_add_end: "free_ok h xs \<Longrightarrow> heap_block_ok (heap_size_in_bytes h) x \<Longrightarrow> va_add (fst x) (snd x) = fst x + snd x"
  using heap_block_ok_bounds [of h xs x] by (simp add: va_add_def wrapping_add_def)

lemma add_loop_ok:
  assumes "free_ok h (before @ after)" "heap_block_ok (heap_size_in_bytes h) b"
    "\<forall>x\<in>set before. fst x + snd x \<le> fst b" "\<forall>x\<in>set after. span b \<inter> span x = {}"
  shows "\<exists>h'. add_loop (to_block b) (first_addr after 0) h = Some (Ok h') \<and>
    free_ok h' (before @ add_block b after) \<and> heap_frame (spans (before @ b # after)) h h'"
  using assms
proof (induction after arbitrary: before)
  case Nil
  then show ?case
    using cursor_current_ok [of h before "[]"] free_ok_insert [of h before "[]" b]
    by (auto simp: add_loop.simps free_ok_def)
next
  case (Cons x after)
  note ok = Cons.prems(1)
  have list: "list_ok h (before @ x # after)" using ok by (simp add: free_ok_def)
  have x: "heap_block_ok (heap_size_in_bytes h) x" using free_okD(3) [OF ok] by simp
  note ends = va_add_end [OF ok x] va_add_end [OF ok Cons.prems(2)]
  have cur: "cursor_current (fst x) h = Ok (Some (to_block x))" using cursor_current_ok [OF list] by simp
  have bpos: "24 \<le> snd b" "24 \<le> snd x" using Cons.prems(2) x by (auto simp: heap_block_ok_def)
  have gt: "\<forall>y\<in>set after. fst x + snd x \<le> fst y" using ok by (auto simp: free_ok_def sorted_wrt_append)
  have disj: "fst b + snd b \<le> fst x \<or> fst x + snd x \<le> fst b"
    using Cons.prems(4) bpos span_disjoint [of b x] by simp
  consider (before) "fst b + snd b = fst x" | (after) "fst b + snd b \<noteq> fst x" "fst x + snd x = fst b"
    | (insert) "fst b + snd b \<noteq> fst x" "fst x + snd x \<noteq> fst b" "fst b < fst x"
    | (skip) "fst b + snd b \<noteq> fst x" "fst x + snd x \<noteq> fst b" "\<not> fst b < fst x" by blast
  then show ?case
  proof cases
    case before
    obtain h1 where h1: "remove_current (fst x) h = Ok (Some (to_block x), first_addr after 0, h1)"
      "free_ok h1 (before @ after)" "heap_frame (spans (before @ after)) h h1"
      using free_ok_remove [OF ok] by blast
    have sz: "heap_size_in_bytes h1 = heap_size_in_bytes h" using h1(3) by (simp add: heap_frame_def)
    have merged: "heap_block_ok (heap_size_in_bytes h1) (fst b, snd b + snd x)"
      using Cons.prems(2) x before sz by (auto simp: heap_block_ok_def)
    obtain h2 where h2: "insert_before_current (to_block (fst b, snd b + snd x)) (first_addr after 0) h1 = Ok h2"
      "free_ok h2 (before @ (fst b, snd b + snd x) # after)" "heap_frame (spans (before @ (fst b, snd b + snd x) # after)) h1 h2"
      using free_ok_insert [OF h1(2) merged] Cons.prems(3) gt by (auto simp: before [symmetric] add.assoc)
    have "snd b + snd x < usize_bound" using heap_block_ok_bounds [OF h1(2) merged] by simp
    then have "add_loop (to_block b) (fst x) h = Some (Ok h2)"
      using cur before ends h1(1) h2(1) by (simp add: add_loop.simps check_adjacency_def add_checked_def)
    moreover have "span (fst b, snd b + snd x) = span b \<union> span x" using before by (auto simp: span_def)
    then have "heap_frame (spans (before @ b # x # after)) h h2"
      using h1(3) h2(3) by (auto simp: heap_frame_def)
    ultimately show ?thesis using h2(2) before by auto
  next
    case after
    have "fst b + snd b \<le> fst y" if y: "y \<in> set after" for y
    proof -
      have "heap_block_ok (heap_size_in_bytes h) y" using free_okD(3) [OF ok] y by simp
      then have "24 \<le> snd y" by (simp add: heap_block_ok_def)
      then show ?thesis using span_disjoint [of b y] bpos Cons.prems(4) gt after y by fastforce
    qed
    then have "\<forall>y\<in>set after. fst x + snd x + snd b \<le> fst y" using after by simp
    then obtain h1 where h1: "extend_current (fst x) (snd b) h = Ok h1" "free_ok h1 (before @ (fst x, snd x + snd b) # after)"
      "heap_frame (spans (before @ (fst x, snd x + snd b) # after)) h h1"
      using free_ok_extend [OF ok, of "snd b"] Cons.prems(2) after by (auto simp: heap_block_ok_def)
    have "add_loop (to_block b) (fst x) h = Some (Ok h1)"
      using cur after ends h1(1) by (simp add: add_loop.simps check_adjacency_def)
    moreover have "span (fst x, snd x + snd b) = span b \<union> span x" using after by (auto simp: span_def)
    ultimately show ?thesis using h1(2, 3) after by (auto simp: Un_ac)
  next
    case insert
    have "add_loop (to_block b) (fst x) h = Some (insert_before_current (to_block b) (first_addr (x # after) 0) h)"
      using cur insert ends by (simp add: add_loop.simps check_adjacency_def)
    moreover have "\<forall>y\<in>set (x # after). fst b + snd b \<le> fst y" using insert(3) disj gt bpos by fastforce
    ultimately show ?thesis using free_ok_insert [OF ok Cons.prems(2, 3)] insert by auto
  next
    case skip
    then have le: "fst x + snd x \<le> fst b" using disj bpos by simp
    have "add_loop (to_block b) (fst x) h = add_loop (to_block b) (first_addr after 0) h"
      using cur skip ends move_next_ok [OF list] by (simp add: add_loop.simps [of _ "fst x"] check_adjacency_def)
    moreover have "free_ok h ((before @ [x]) @ after)" using ok by simp
    ultimately show ?thesis using Cons.IH [of "before @ [x]"] Cons.prems le skip by (auto simp: Un_ac)
  qed
qed

lemma add_free_block_ok:
  assumes "free_ok h xs" "heap_block_ok (heap_size_in_bytes h) b" "span b \<inter> spans xs = {}"
  shows "\<exists>h'. add_free_block (to_block b) h = Some (Ok h') \<and> free_ok h' (add_block b xs) \<and> heap_frame (spans (b # xs)) h h'"
proof -
  have "\<forall>x\<in>set xs. span b \<inter> span x = {}" using assms(3) by (auto simp: spans_def)
  then show ?thesis
    using add_loop_ok [of h "[]" xs b] assms free_list_cursor_ok [OF free_okD(1) [OF assms(1)]]
    by (auto simp: add_free_block_def)
qed

section \<open>Allocated blocks\<close>

lemma unat_take_bit_of_nat: "x < 2 ^ n \<Longrightarrow> n \<le> 64 \<Longrightarrow> unat (take_bit n (of_nat x :: 64 word)) = x"
proof -
  assume x: "x < 2 ^ n" and n: "n \<le> 64"
  have "(2 :: nat) ^ n \<le> 2 ^ 64" using n by (intro power_increasing) simp_all
  then have "unat (of_nat x :: 64 word) = x" using x by (simp add: unat_of_nat)
  then show ?thesis using x by (simp add: unsigned_take_bit_eq take_bit_nat_eq_self)
qed

lemma alloc_header_fields:
  assumes "sz < 2 ^ 56" "padding < 256"
  shows "alloc_header_size (alloc_header_new sz padding) = sz" "padding_size (alloc_header_new sz padding) = padding"
  using assms unat_take_bit_of_nat [of sz 56] unat_take_bit_of_nat [of padding 8]
  by (simp_all add: alloc_header_size_def padding_size_def alloc_header_new_def get_field_set_field_same
      get_field_set_field_other)

text \<open>The block an allocated pointer belongs to, as its header tells.\<close>

definition alloc_padding :: "heap \<Rightarrow> nat \<Rightarrow> nat" where
  "alloc_padding h p = padding_size (heap_mem h (p - 8))"

definition alloc_block :: "heap \<Rightarrow> nat \<Rightarrow> nat \<times> nat" where
  "alloc_block h p = (p - 8 - alloc_padding h p, alloc_header_size (heap_mem h (p - 8)))"

definition live_ok :: "heap \<Rightarrow> nat \<times> layout \<Rightarrow> bool" where
  "live_ok h y \<longleftrightarrow> heap_block_ok (heap_size_in_bytes h) (alloc_block h (fst y)) \<and>
     fst (alloc_block h (fst y)) + alloc_padding h (fst y) + 8 = fst y \<and> fst y mod 8 = 0 \<and>
     fst y mod layout_align (snd y) = 0 \<and>
     fst y + layout_size (snd y) \<le> fst (alloc_block h (fst y)) + snd (alloc_block h (fst y)) \<and>
     24 \<le> snd (alloc_block h (fst y))"

text \<open>A word outside the nodes can be written without touching the list.\<close>

lemma free_ok_frame:
  assumes "free_ok h xs" "heap_frame W h h'" "W \<inter> spans xs = {}" "heap_head h' = heap_head h" "heap_tail h' = heap_tail h"
  shows "free_ok h' xs"
proof -
  have "node_fields xs \<subseteq> spans xs" using assms(1) by (intro node_fields_spans) (auto simp: free_ok_def heap_block_ok_def)
  then have "dll (heap_mem h') 0 0 xs = dll (heap_mem h) 0 0 xs"
    using assms(2, 3) by (intro dll_frame) (auto simp: heap_frame_def)
  then show ?thesis using assms by (auto simp: free_ok_def list_ok_def heap_frame_def)
qed

lemma round_up_8:
  assumes "a mod 8 = (0 :: nat)" "s mod 8 = 0" "r \<le> s"
  shows "r + align_offset (a + r) 8 \<le> s" "(r + align_offset (a + r) 8) mod 8 = 0"
proof -
  have "(a + (r + align_offset (a + r) 8)) mod 8 = 0" using align_offset_mod [of 8 "a + r"] by (simp add: add.assoc)
  then show m: "(r + align_offset (a + r) 8) mod 8 = 0" using assms(1) by (metis add_0 mod_add_left_eq)
  have "8 dvd r + align_offset (a + r) 8" "8 dvd s" using m assms(2) by (simp_all add: mod_0_imp_dvd)
  moreover have "align_offset (a + r) 8 < 8" by (simp add: align_offset_def)
  ultimately show "r + align_offset (a + r) 8 \<le> s" using assms(3) by (auto elim!: dvdE)
qed

lemma carve_block_ok:
  assumes ok: "free_ok h xs" and x: "heap_block_ok (heap_size_in_bytes h) x" and disj: "span x \<inter> spans xs = {}"
    and fits: "fits l x" and l: "layout_ok l"
  shows "\<exists>p h' xs'. carve_block l (to_block x) h = Some (Ok (p, h')) \<and> free_ok h' xs' \<and>
    spans xs' \<subseteq> spans xs \<union> span x \<and> live_ok h' (p, l) \<and> span (alloc_block h' p) \<subseteq> span x \<and>
    span (alloc_block h' p) \<inter> spans xs' = {} \<and> heap_frame (spans xs \<union> span x) h h'"
proof -
  define pad where "pad = align_offset (fst x + 8) (layout_align l)"
  define req where "req = max (8 + pad + layout_size l) 24"
  define sz where "sz = req + align_offset (fst x + req) 8"
  have xb: "fst x mod 8 = 0" "snd x mod 8 = 0" "24 \<le> snd x" "fst x + snd x < usize_bound" "KERNEL_HEAP_START \<le> fst x"
    using x heap_block_ok_bounds [OF ok x] by (auto simp: heap_block_ok_def)
  have pad: "pad < 256" "pad mod 8 = 0" "(fst x + 8 + pad) mod layout_align l = 0"
    using align_offset_lt [OF l] align_offset_aligned [OF l, of "fst x + 8"] xb(1) by (auto simp: pad_def)
  have "req \<le> snd x" using fits xb(3) by (simp add: req_def pad_def fits_def)
  then have sz: "sz \<le> snd x" "sz mod 8 = 0" "req \<le> sz" "24 \<le> sz" "8 + pad + layout_size l \<le> sz"
    using round_up_8 [OF xb(1, 2)] by (auto simp: sz_def req_def)
  define actual where "actual = (if 24 < snd x - sz then sz else snd x)"
  have act: "actual \<le> snd x" "actual mod 8 = 0" "24 \<le> actual" "8 + pad + layout_size l \<le> actual"
    using sz xb by (auto simp: actual_def)
  have va: "va_add (fst x) 8 = fst x + 8" "va_add (fst x) req = fst x + req" "va_add (fst x) sz = fst x + sz"
    "va_add (fst x) pad = fst x + pad"
    using xb(4) sz act by (auto simp: va_add_def wrapping_add_def)
  obtain h1 xs1 where h1: "(if FREE_HEADER_SIZE < snd x - sz then
           bind_result (Some (free_block_new (va_add (fst x) sz) (snd x - sz))) (\<lambda>b.
           bind_result (add_free_block b h) (\<lambda>h'. Some (Ok (sz, h'))))
         else Some (Ok (snd x, h))) = Some (Ok (actual, h1))"
    and xs1: "free_ok h1 xs1" "spans xs1 = spans xs \<union> {fst x + actual ..< fst x + snd x}"
      "heap_frame (spans xs \<union> {fst x + actual ..< fst x + snd x}) h h1"
  proof (cases "24 < snd x - sz")
    case True
    let ?b = "(fst x + sz, snd x - sz)"
    have b: "heap_block_ok (heap_size_in_bytes h) ?b"
      using x xb sz True by (auto simp: heap_block_ok_def mod_eq_0_iff_dvd)
    have span: "span ?b = {fst x + actual ..< fst x + snd x}" using True sz(1) by (simp add: span_def actual_def)
    then have "span ?b \<subseteq> span x" by (auto simp: span_def)
    then have "span ?b \<inter> spans xs = {}" using disj by blast
    then obtain h1 where "add_free_block (to_block ?b) h = Some (Ok h1)" "free_ok h1 (add_block ?b xs)"
      "heap_frame (spans (?b # xs)) h h1"
      using add_free_block_ok [OF ok b] by blast
    then show ?thesis
      using that [of h1 "add_block ?b xs"] True b va span spans_add_block [of ?b xs]
      by (simp add: FREE_HEADER_SIZE_def free_block_new_def ensure_def align_offset_def heap_block_ok_def actual_def Un_commute)
  next
    case False
    then show ?thesis using that [of h xs] ok by (simp add: actual_def FREE_HEADER_SIZE_def heap_frame_def)
  qed
  let ?h = "write_word (fst x + pad) (alloc_header_new actual pad) h1"
  let ?p = "fst x + pad + 8"
  have small: "actual < 2 ^ 56" using xb act(1) by (simp add: KERNEL_HEAP_START_def)
  have blk: "alloc_block ?h ?p = (fst x, actual)" "alloc_padding ?h ?p = pad"
    using alloc_header_fields [OF small pad(1)] by (simp_all add: alloc_block_def alloc_padding_def)
  have size: "heap_size_in_bytes ?h = heap_size_in_bytes h" using xs1(3) by (simp add: heap_frame_def)
  have inx: "fst x + pad \<in> span (fst x, actual)" "span (fst x, actual) \<subseteq> span x"
    "span (fst x, actual) \<inter> {fst x + actual ..< fst x + snd x} = {}"
    using act by (auto simp: span_def)
  have dis: "span (fst x, actual) \<inter> spans xs1 = {}" using inx disj xs1(2) by blast
  have "carve_block l (to_block x) h = Some (Ok (?p, ?h))"
    using h1 act sz va xb l pad heap_start_pos unfolding carve_block_def
    by (cases "24 < snd x - sz")
      (simp_all add: Let_def ALLOC_HEADER_SIZE_def FREE_HEADER_SIZE_def add_checked_def sub_checked_def ensure_def
        flip: pad_def req_def sz_def)
  moreover have "free_ok ?h xs1"
    by (rule free_ok_frame [OF xs1(1), of "{fst x + pad}"]) (use dis inx in \<open>auto simp: heap_frame_def\<close>)
  moreover have "live_ok ?h (?p, l)"
    unfolding live_ok_def fst_conv snd_conv blk size
    using x act pad xb by (auto simp: heap_block_ok_def mod_eq_0_iff_dvd add.commute add.left_commute)
  moreover have "heap_frame (spans xs \<union> span x) h ?h"
    using xs1(3) inx by (auto simp: heap_frame_def span_def)
  moreover have "spans xs1 \<subseteq> spans xs \<union> span x" using xs1(2) by (auto simp: span_def)
  ultimately show ?thesis using blk(1) inx(2) dis by metis
qed

end
