(* ===== verification/Heap_Isolation.thy ===== *)
theory Heap_Isolation
  imports Kernel_Heap
begin

text \<open>
  The kernel heap over a whole history: the invariant that ties the free list, the headers of the live
  allocations and the memory together, its preservation by allocation, release, growth and the
  writes of clients, and what follows for the clients.
\<close>

section \<open>The invariant of the heap\<close>

text \<open>
  The free blocks and the blocks of the live allocations do not overlap, and lie in the heap.
\<close>

abbreviation live_span :: "heap \<Rightarrow> nat \<times> layout \<Rightarrow> nat set" where
  "live_span h y \<equiv> span (alloc_block h (fst y))"

definition heap_inv :: "heap \<Rightarrow> (nat \<times> nat) list \<Rightarrow> (nat \<times> layout) list \<Rightarrow> bool" where
  "heap_inv h xs ys \<longleftrightarrow> free_ok h xs \<and> (\<forall>y\<in>set ys. live_ok h y \<and> live_span h y \<inter> spans xs = {}) \<and>
     sorted_wrt (\<lambda>y z. live_span h y \<inter> live_span h z = {}) ys \<and>
     INIT_SIZE * PAGE_SIZE \<le> heap_size_in_bytes h \<and> heap_size_in_bytes h mod 8 = 0"

lemma header_in_span: "live_ok h y \<Longrightarrow> fst y - 8 \<in> live_span h y"
  by (auto simp: live_ok_def span_def heap_block_ok_def)

lemma live_frame:
  assumes "live_ok h y" "heap_mem h' (fst y - 8) = heap_mem h (fst y - 8)" "heap_size_in_bytes h \<le> heap_size_in_bytes h'"
  shows "live_ok h' y" "alloc_block h' (fst y) = alloc_block h (fst y)"
proof -
  show blk: "alloc_block h' (fst y) = alloc_block h (fst y)" using assms(2) by (simp add: alloc_block_def alloc_padding_def)
  have "alloc_padding h' (fst y) = alloc_padding h (fst y)" using assms(2) by (simp add: alloc_padding_def)
  then show "live_ok h' y" using assms(1, 3) unfolding live_ok_def blk by (auto simp: heap_block_ok_def)
qed

text \<open>A step that changes words of free blocks only keeps the live allocations.\<close>

lemma live_frame_all:
  assumes "\<forall>y\<in>set ys. live_ok h y \<and> live_span h y \<inter> W = {}" "sorted_wrt (\<lambda>y z. live_span h y \<inter> live_span h z = {}) ys"
    "\<And>w. w \<notin> W \<Longrightarrow> heap_mem h' w = heap_mem h w" "heap_size_in_bytes h \<le> heap_size_in_bytes h'"
  shows "\<forall>y\<in>set ys. live_ok h' y \<and> alloc_block h' (fst y) = alloc_block h (fst y)"
    "sorted_wrt (\<lambda>y z. live_span h' y \<inter> live_span h' z = {}) ys"
proof -
  show all: "\<forall>y\<in>set ys. live_ok h' y \<and> alloc_block h' (fst y) = alloc_block h (fst y)"
  proof
    fix y assume "y \<in> set ys"
    then have y: "live_ok h y" "live_span h y \<inter> W = {}" using assms(1) by auto
    then have "heap_mem h' (fst y - 8) = heap_mem h (fst y - 8)" using header_in_span assms(3) by blast
    then show "live_ok h' y \<and> alloc_block h' (fst y) = alloc_block h (fst y)" using live_frame [OF y(1) _ assms(4)] by simp
  qed
  show "sorted_wrt (\<lambda>y z. live_span h' y \<inter> live_span h' z = {}) ys"
    using assms(2) by (rule sorted_wrt_mono_rel [rotated]) (use all in simp)
qed

lemma blocks_apart_spans: "blocks_apart (us @ x # vs) \<Longrightarrow> span x \<inter> spans (us @ vs) = {}"
  by (fastforce simp: spans_def span_def sorted_wrt_append)

lemma heap_inv_carve:
  assumes inv: "heap_inv h (us @ x # vs) ys" and h1: "free_ok h1 (us @ vs)" "heap_frame (spans (us @ vs)) h h1"
    and fits: "fits l x" and l: "layout_ok l"
  shows "\<exists>p h' xs'. carve_block l (to_block x) h1 = Some (Ok (p, h')) \<and> heap_inv h' xs' ((p, l) # ys)"
proof -
  have ok: "free_ok h (us @ x # vs)" using inv by (simp add: heap_inv_def)
  have sz: "heap_size_in_bytes h1 = heap_size_in_bytes h" using h1(2) by (simp add: heap_frame_def)
  have x: "heap_block_ok (heap_size_in_bytes h1) x" using free_okD(3) [OF ok] sz by simp
  have "span x \<inter> spans (us @ vs) = {}" by (rule blocks_apart_spans [OF free_okD(2) [OF ok]])
  then obtain p h' xs' where c: "carve_block l (to_block x) h1 = Some (Ok (p, h'))" "free_ok h' xs'"
    "spans xs' \<subseteq> spans (us @ vs) \<union> span x" "live_ok h' (p, l)" "span (alloc_block h' p) \<subseteq> span x"
    "span (alloc_block h' p) \<inter> spans xs' = {}" "heap_frame (spans (us @ vs) \<union> span x) h1 h'"
    using carve_block_ok [OF h1(1) x _ fits l] by blast
  have live: "\<forall>y\<in>set ys. live_ok h y \<and> live_span h y \<inter> (spans (us @ vs) \<union> span x) = {}"
    "sorted_wrt (\<lambda>y z. live_span h y \<inter> live_span h z = {}) ys"
    using inv by (auto simp: heap_inv_def)
  have "heap_mem h' w = heap_mem h w" if "w \<notin> spans (us @ vs) \<union> span x" for w
    using that c(7) h1(2) by (simp add: heap_frame_def)
  moreover have size: "heap_size_in_bytes h' = heap_size_in_bytes h" using c(7) sz by (simp add: heap_frame_def)
  ultimately have live': "\<forall>y\<in>set ys. live_ok h' y \<and> alloc_block h' (fst y) = alloc_block h (fst y)"
    "sorted_wrt (\<lambda>y z. live_span h' y \<inter> live_span h' z = {}) ys"
    using live_frame_all [OF live, of h'] by auto
  have "live_span h y \<inter> spans xs' = {}" "live_span h y \<inter> span (alloc_block h' p) = {}" if "y \<in> set ys" for y
    using bspec [OF live(1) that] c(3, 5) by auto
  then have "heap_inv h' xs' ((p, l) # ys)"
    using inv live' c size by (fastforce simp: heap_inv_def)
  then show ?thesis using c(1) by blast
qed

lemma sorted_wrt_disjoint:
  assumes "sorted_wrt (\<lambda>y z. S y \<inter> S z = {}) ys" "y \<in> set ys" "z \<in> set ys" "y \<noteq> z"
  shows "S y \<inter> S z = {}"
  using assms by (induction ys) auto

lemma kernel_alloc_fit:
  assumes inv: "heap_inv (kh_heap ks) xs ys" and init: "kh_initialized ks" and l: "layout_ok l" and fit: "\<exists>x\<in>set xs. fits l x"
  shows "\<exists>p ks' xs'. kernel_alloc l ks = Some (Ok (p, ks')) \<and> kh_initialized ks' \<and> heap_inv (kh_heap ks') xs' ((p, l) # ys) \<and>
    kh_kmem ks' = kh_kmem ks"
proof -
  let ?h = "kh_heap ks"
  have ok: "free_ok ?h ([] @ xs)" using inv by (simp add: heap_inv_def)
  obtain us x vs h1 where f: "xs = us @ x # vs" "fits l x" "find_loop l (first_addr xs 0) ?h = Some (Ok (Some (to_block x), h1))"
    "free_ok h1 (us @ vs)" "heap_frame (spans (us @ vs)) ?h h1"
    using find_loop_ok [OF ok l] fit by auto
  obtain p h' xs' where c: "carve_block l (to_block x) h1 = Some (Ok (p, h'))" "heap_inv h' xs' ((p, l) # ys)"
    using heap_inv_carve [OF _ f(4, 5, 2) l] inv f(1) by blast
  have "find_suitable_free_block l ks = Some (Ok (Some (to_block x), ks\<lparr>kh_heap := h1\<rparr>))"
    using f(3) init free_list_cursor_ok [of ?h xs] ok by (simp add: find_suitable_free_block_def ensure_init_def free_ok_def)
  then have "kernel_alloc l ks = Some (Ok (p, ks\<lparr>kh_heap := h'\<rparr>))" using c(1) by (simp add: kernel_alloc.simps)
  then show ?thesis using c(2) init by fastforce
qed

lemma kernel_dealloc_ok:
  assumes inv: "heap_inv (kh_heap ks) xs ys" and y: "(p, l) \<in> set ys"
  shows "\<exists>h' xs'. kernel_dealloc p l ks = Some (Ok (ks\<lparr>kh_heap := h'\<rparr>)) \<and> heap_inv h' xs' (remove1 (p, l) ys)"
proof -
  let ?h = "kh_heap ks" and ?b = "alloc_block (kh_heap ks) p"
  have ok: "free_ok ?h xs" and all: "\<forall>y\<in>set ys. live_ok ?h y \<and> live_span ?h y \<inter> spans xs = {}"
    and dis: "sorted_wrt (\<lambda>y z. live_span ?h y \<inter> live_span ?h z = {}) ys"
    using inv by (auto simp: heap_inv_def)
  have live: "live_ok ?h (p, l)" "span ?b \<inter> spans xs = {}" using bspec [OF all y] by simp_all
  obtain as bs where ys: "ys = as @ (p, l) # bs" "remove1 (p, l) ys = as @ bs"
    using y by (metis remove1_split)
  have pos: "p \<noteq> 0" "8 \<le> p" "p < usize_bound" and b: "heap_block_ok (heap_size_in_bytes ?h) ?b"
    "fst ?b + alloc_padding ?h p = p - 8" "layout_size l \<le> snd ?b"
    using live(1) heap_block_ok_bounds [OF ok, of ?b] by (auto simp: live_ok_def)
  have va: "va_offset (p - 8) (- int (padding_size (heap_mem ?h (p - 8)))) = fst ?b"
    using b(2) pos unfolding va_offset_def alloc_padding_def by simp
  obtain h' where h': "add_free_block (to_block ?b) ?h = Some (Ok h')" "free_ok h' (add_block ?b xs)"
    "heap_frame (spans (?b # xs)) ?h h'"
    using add_free_block_ok [OF ok b(1) live(2)] by blast
  have "snd ?b = alloc_header_size (heap_mem ?h (p - 8))" by (simp add: alloc_block_def)
  then have "kernel_dealloc p l ks = Some (Ok (ks\<lparr>kh_heap := h'\<rparr>))"
    using h'(1) pos b va by (simp add: kernel_dealloc_def Let_def ALLOC_HEADER_SIZE_def ensure_def free_block_new_def
        heap_block_ok_def align_offset_def)
  moreover have rest: "\<forall>y\<in>set (as @ bs). live_ok ?h y \<and> live_span ?h y \<inter> spans (?b # xs) = {}"
    "sorted_wrt (\<lambda>y z. live_span ?h y \<inter> live_span ?h z = {}) (as @ bs)"
    using all dis unfolding ys(1) by (auto simp: sorted_wrt_append)
  have keep: "heap_mem h' w = heap_mem ?h w" if "w \<notin> spans (?b # xs)" for w using h'(3) that by (simp add: heap_frame_def)
  have size: "heap_size_in_bytes h' = heap_size_in_bytes ?h" using h'(3) by (simp add: heap_frame_def)
  have "heap_inv h' (add_block ?b xs) (as @ bs)"
    unfolding heap_inv_def size spans_add_block
    using inv h'(2) live_frame_all [OF rest keep] size rest(1) by (auto simp: heap_inv_def)
  ultimately show ?thesis using ys(2) by metis
qed

text \<open>A client that writes the words of its own allocation.\<close>

definition writes_only :: "nat \<times> layout \<Rightarrow> heap \<Rightarrow> (nat \<Rightarrow> nat) \<Rightarrow> bool" where
  "writes_only y h m \<longleftrightarrow> (\<forall>w. w + 8 \<le> fst y \<or> fst y + layout_size (snd y) \<le> w \<longrightarrow> m w = heap_mem h w)"

lemma client_write_inv:
  assumes inv: "heap_inv h xs ys" and y: "y \<in> set ys" and w: "writes_only y h m"
  shows "heap_inv (h\<lparr>heap_mem := m\<rparr>) xs ys"
proof -
  let ?h = "h\<lparr>heap_mem := m\<rparr>" and ?W = "{w. fst y < w + 8 \<and> w < fst y + layout_size (snd y)}"
  have all: "\<forall>y\<in>set ys. live_ok h y \<and> live_span h y \<inter> spans xs = {}" and ok: "free_ok h xs"
    and dis: "sorted_wrt (\<lambda>y z. live_span h y \<inter> live_span h z = {}) ys"
    using inv by (auto simp: heap_inv_def)
  have keep: "m w = heap_mem h w" if "w \<notin> ?W" for w using w that by (auto simp: writes_only_def)
  have live: "live_ok h y" "live_span h y \<inter> spans xs = {}" using bspec [OF all y] by simp_all
  have W: "?W \<subseteq> live_span h y" using live(1) by (auto simp: live_ok_def span_def)
  have "m (fst z - 8) = heap_mem h (fst z - 8)" if z: "z \<in> set ys" for z
  proof (cases "z = y")
    case True
    then show ?thesis using live(1) by (intro keep) (auto simp: live_ok_def)
  next
    case False
    then have "live_span h z \<inter> live_span h y = {}" using sorted_wrt_disjoint [OF dis z y] by blast
    then show ?thesis using header_in_span [of h z] bspec [OF all z] W by (intro keep) blast
  qed
  then have same: "\<forall>z\<in>set ys. live_ok ?h z \<and> alloc_block ?h (fst z) = alloc_block h (fst z)"
    using live_frame [of h _ ?h] all by auto
  have "free_ok ?h xs"
    by (rule free_ok_frame [OF ok, of ?W]) (use W live keep in \<open>auto simp: heap_frame_def\<close>)
  moreover have "sorted_wrt (\<lambda>y z. live_span ?h y \<inter> live_span ?h z = {}) ys"
    using dis by (rule sorted_wrt_mono_rel [rotated]) (use same in simp)
  ultimately show ?thesis using inv same by (auto simp: heap_inv_def)
qed

section \<open>Growing the heap\<close>

lemma add_block_has: "\<exists>x\<in>set (add_block b xs). snd b \<le> snd x"
  by (induction xs) auto

lemma heap_map_pages_cases: "heap_map_pages n va k = Panic \<or> (\<exists>k'. heap_map_pages n va k = Ok k')"
  by (cases "heap_map_pages n va k") (auto simp: heap_map_pages_def outcome_simps Let_def split: prod.splits elim!: expect_ok.elims)

lemma free_ok_grow:
  assumes "free_ok h xs" "KERNEL_HEAP_START + (heap_size_in_bytes h + n) < usize_bound"
  shows "free_ok (h\<lparr>heap_size_in_bytes := heap_size_in_bytes h + n\<rparr>) xs"
  using assms by (fastforce simp: free_ok_def list_ok_def heap_block_ok_def)

lemma div_ceil_ge: "0 < b \<Longrightarrow> a \<le> div_ceil a b * b"
  using dividend_less_div_times [of b a] by (auto simp: div_ceil_def)

text \<open>Past the end of the address space the pointer checks panic.\<close>

lemma add_overflow_panics:
  assumes "usize_bound \<le> KERNEL_HEAP_START + heap_size_in_bytes h" "hb_size b \<noteq> 0" "hb_address b \<noteq> 0"
  shows "add_free_block b h = Some Panic"
proof -
  have panic: "check_ptr p h = Panic" if "p \<noteq> 0" for p using that assms(1) by (simp add: check_ptr_def add_checked_def)
  show ?thesis
    using panic [of "heap_head h"] panic [of "hb_address b"] assms(2, 3)
    by (cases "heap_head h = 0")
      (simp_all add: add_free_block_def free_list_cursor_def check_ptr_def add_loop.simps cursor_current_def
        insert_before_current_def ensure_def Let_def)
qed

lemma increase_heap_size_ok:
  assumes inv: "heap_inv (kh_heap ks) xs ys" and init: "kh_initialized ks" and l: "layout_ok l"
  shows "increase_heap_size l ks = Some Panic \<or>
    (\<exists>ks' xs'. increase_heap_size l ks = Some (Ok ks') \<and> kh_initialized ks' \<and> heap_inv (kh_heap ks') xs' ys \<and>
       heap_size_in_bytes (kh_heap ks) < heap_size_in_bytes (kh_heap ks') \<and>
       (\<exists>x\<in>set xs'. heap_size_in_bytes (kh_heap ks) + heap_size_in_bytes (kh_heap ks) div 2 \<le> snd x))"
proof -
  let ?h = "kh_heap ks"
  define sz where "sz = heap_size_in_bytes ?h"
  define n where "n = div_ceil (max (sz + sz div 2) (layout_size l)) PAGE_SIZE"
  have ok: "free_ok ?h xs" and sz: "INIT_SIZE * PAGE_SIZE \<le> sz" "sz mod 8 = 0" using inv by (auto simp: heap_inv_def sz_def)
  have "sz + sz div 2 < usize_bound" "KERNEL_HEAP_START + sz < usize_bound"
    using free_okD(4) [OF ok] by (simp_all add: sz_def KERNEL_HEAP_START_def)
  then have eq: "increase_heap_size l ks =
    bind_result (Some (heap_map_pages n (KERNEL_HEAP_START + sz) (kh_kmem ks))) (\<lambda>k.
      bind_result (Some (mul_checked n PAGE_SIZE)) (\<lambda>new_bytes.
      bind_result (Some (increase_size new_bytes ?h)) (\<lambda>h1.
      bind_result (Some (free_block_new (KERNEL_HEAP_START + sz) new_bytes)) (\<lambda>b.
      bind_result (add_free_block b h1) (\<lambda>h2. Some (Ok (ks\<lparr>kh_heap := h2, kh_kmem := k\<rparr>)))))))"
    by (simp add: increase_heap_size_def Let_def add_checked_def sz_def n_def)
  show ?thesis
  proof (cases "(\<exists>k. heap_map_pages n (KERNEL_HEAP_START + sz) (kh_kmem ks) = Ok k) \<and> n * PAGE_SIZE < usize_bound \<and>
      sz + n * PAGE_SIZE < usize_bound")
    case False
    then show ?thesis
      using heap_map_pages_cases [of n "KERNEL_HEAP_START + sz" "kh_kmem ks"]
      by (auto simp: eq mul_checked_def increase_size_def add_checked_def sz_def)
  next
    case True
    then obtain k where k: "heap_map_pages n (KERNEL_HEAP_START + sz) (kh_kmem ks) = Ok k" by blast
    let ?h1 = "?h\<lparr>heap_size_in_bytes := heap_size_in_bytes ?h + n * PAGE_SIZE\<rparr>" and ?b = "(KERNEL_HEAP_START + sz, n * PAGE_SIZE)"
    have al: "(KERNEL_HEAP_START + sz) mod 8 = 0" using sz(2) by (simp add: KERNEL_HEAP_START_def mod_eq_0_iff_dvd)
    have eq1: "increase_heap_size l ks = bind_result (add_free_block (to_block ?b) ?h1) (\<lambda>h2. Some (Ok (ks\<lparr>kh_heap := h2, kh_kmem := k\<rparr>)))"
      using True k al by (simp add: eq mul_checked_def increase_size_def add_checked_def free_block_new_def ensure_def
          align_offset_def sz_def)
    have big: "sz + sz div 2 \<le> n * PAGE_SIZE" using div_ceil_ge [of PAGE_SIZE "max (sz + sz div 2) (layout_size l)"] by (simp add: n_def)
    then have pos: "0 < n" using sz(1) by (cases n) (simp_all add: INIT_SIZE_def PAGE_SIZE_def)
    show ?thesis
    proof (cases "KERNEL_HEAP_START + (sz + n * PAGE_SIZE) < usize_bound")
      case False
      then have "add_free_block (to_block ?b) ?h1 = Some Panic"
        using add_overflow_panics [of ?h1 "to_block ?b"] pos heap_start_pos by (simp add: sz_def)
      then show ?thesis unfolding eq1 by simp
    next
      case fit: True
      have ok1: "free_ok ?h1 xs" using free_ok_grow [OF ok] fit by (simp add: sz_def)
      have b: "heap_block_ok (heap_size_in_bytes ?h1) ?b"
        using al big sz by (simp add: heap_block_ok_def sz_def PAGE_SIZE_def INIT_SIZE_def mod_eq_0_iff_dvd)
      have below: "S \<subseteq> {..< KERNEL_HEAP_START + sz}" if "heap_block_ok sz x" "S = span x" for x S
        using that by (auto simp: heap_block_ok_def span_def)
      have "spans xs \<subseteq> {..< KERNEL_HEAP_START + sz}" using below free_okD(3) [OF ok] unfolding spans_def sz_def by blast
      then have "span ?b \<inter> spans xs = {}" by (auto simp: span_def)
      then obtain h2 where h2: "add_free_block (to_block ?b) ?h1 = Some (Ok h2)" "free_ok h2 (add_block ?b xs)"
        "heap_frame (spans (?b # xs)) ?h1 h2"
        using add_free_block_ok [OF ok1 b] by blast
      have "live_span ?h y \<inter> span ?b = {}" if "y \<in> set ys" for y
        using inv that below [of "alloc_block ?h (fst y)"] by (fastforce simp: heap_inv_def live_ok_def sz_def span_def)
      then have rest: "\<forall>y\<in>set ys. live_ok ?h y \<and> live_span ?h y \<inter> spans (?b # xs) = {}"
        "sorted_wrt (\<lambda>y z. live_span ?h y \<inter> live_span ?h z = {}) ys"
        using inv by (auto simp: heap_inv_def)
      have keep: "heap_mem h2 w = heap_mem ?h w" if "w \<notin> spans (?b # xs)" for w using h2(3) that by (simp add: heap_frame_def)
      have size: "heap_size_in_bytes h2 = sz + n * PAGE_SIZE" using h2(3) by (simp add: heap_frame_def sz_def)
      have "heap_inv h2 (add_block ?b xs) ys"
        unfolding heap_inv_def size spans_add_block
        using inv h2(2) live_frame_all [OF rest keep] size rest(1) sz by (auto simp: heap_inv_def sz_def PAGE_SIZE_def mod_eq_0_iff_dvd)
      then show ?thesis
        using eq1 h2(1) size big sz add_block_has [of ?b xs] init
        by (fastforce simp: sz_def INIT_SIZE_def PAGE_SIZE_def)
    qed
  qed
qed

text \<open>
  Allocation in a well-formed heap returns: it panics or returns a pointer, and the retry after
  growing happens a bounded number of times, since the heap grows until a new block fits the layout.
\<close>

lemma kernel_alloc_ok:
  assumes "heap_inv (kh_heap ks) xs ys" "kh_initialized ks" "layout_ok l"
  shows "kernel_alloc l ks = Some Panic \<or>
    (\<exists>p ks' xs'. kernel_alloc l ks = Some (Ok (p, ks')) \<and> kh_initialized ks' \<and> heap_inv (kh_heap ks') xs' ((p, l) # ys))"
  using assms(1, 2)
proof (induction "layout_size l + 300 - heap_size_in_bytes (kh_heap ks)" arbitrary: ks xs rule: less_induct)
  case less
  show ?case
  proof (cases "\<exists>x\<in>set xs. fits l x")
    case True
    then show ?thesis using kernel_alloc_fit [OF less.prems assms(3)] by blast
  next
    case False
    have ok: "free_ok (kh_heap ks) ([] @ xs)" using less.prems by (simp add: heap_inv_def)
    have "find_suitable_free_block l ks = Some (Ok (None, ks))"
      using find_loop_ok [OF ok assms(3)] False less.prems(2) free_list_cursor_ok [of "kh_heap ks" xs] ok
      by (auto simp: find_suitable_free_block_def ensure_init_def free_ok_def)
    then have eq: "kernel_alloc l ks = (case increase_heap_size l ks of
        Some (Ok ks2) \<Rightarrow> kernel_alloc l ks2 | Some r \<Rightarrow> Some Panic | None \<Rightarrow> None)"
      by (simp add: kernel_alloc.simps [of l ks])
    from increase_heap_size_ok [OF less.prems assms(3)] show ?thesis
    proof (elim disjE exE conjE bexE)
      fix ks' xs' x
      assume inc: "increase_heap_size l ks = Some (Ok ks')" "kh_initialized ks'" "heap_inv (kh_heap ks') xs' ys"
        "heap_size_in_bytes (kh_heap ks) < heap_size_in_bytes (kh_heap ks')" "x \<in> set xs'"
        "heap_size_in_bytes (kh_heap ks) + heap_size_in_bytes (kh_heap ks) div 2 \<le> snd x"
      show ?thesis
      proof (cases "heap_size_in_bytes (kh_heap ks) < layout_size l + 300")
        case True
        then show ?thesis using less.hyps [OF _ inc(3, 2)] inc(1, 4) by (simp add: eq)
      next
        case False
        then have "fits l x" using inc(6) align_offset_lt [OF assms(3), of "fst x + 8"] by (simp add: fits_def)
        then show ?thesis using kernel_alloc_fit [OF inc(3, 2) assms(3)] inc(1, 5) by (auto simp: eq)
      qed
    qed (simp add: eq)
  qed
qed

section \<open>Histories\<close>

text \<open>
  The heap of a kernel from before its initialisation, with the live allocations: allocations,
  releases of live allocations and writes of clients to their own memory.
\<close>

inductive heap_history :: "kmem \<Rightarrow> kheap \<Rightarrow> (nat \<times> layout) list \<Rightarrow> bool" for k0 where
  heap_start: "heap_history k0 \<lparr>kh_heap = new_uninit m, kh_initialized = False, kh_kmem = k0\<rparr> []"
| heap_alloc: "heap_history k0 ks ys \<Longrightarrow> layout_ok l \<Longrightarrow> kernel_alloc l ks = Some (Ok (p, ks')) \<Longrightarrow>
    heap_history k0 ks' ((p, l) # ys)"
| heap_dealloc: "heap_history k0 ks ys \<Longrightarrow> (p, l) \<in> set ys \<Longrightarrow> kernel_dealloc p l ks = Some (Ok ks') \<Longrightarrow>
    heap_history k0 ks' (remove1 (p, l) ys)"
| heap_write: "heap_history k0 ks ys \<Longrightarrow> y \<in> set ys \<Longrightarrow> writes_only y (kh_heap ks) m \<Longrightarrow>
    heap_history k0 (ks\<lparr>kh_heap := (kh_heap ks)\<lparr>heap_mem := m\<rparr>\<rparr>) ys"

lemma heap_init_ok:
  assumes "\<not> kh_initialized ks" "kh_heap ks = new_uninit m"
  shows "heap_init ks = Panic \<or> (\<exists>ks1. heap_init ks = Ok ks1 \<and> kh_initialized ks1 \<and>
    heap_inv (kh_heap ks1) [(KERNEL_HEAP_START, INIT_SIZE * PAGE_SIZE)] [])"
proof -
  obtain h where h: "free_list_init (INIT_SIZE * PAGE_SIZE) (new_uninit m) = Ok h"
    "list_ok h [(KERNEL_HEAP_START, INIT_SIZE * PAGE_SIZE)]" "heap_size_in_bytes h = INIT_SIZE * PAGE_SIZE"
    using free_list_init_ok [of "INIT_SIZE * PAGE_SIZE" m] by (auto simp: KERNEL_HEAP_START_def INIT_SIZE_def PAGE_SIZE_def)
  then have "heap_inv h [(KERNEL_HEAP_START, INIT_SIZE * PAGE_SIZE)] []"
    by (simp add: heap_inv_def free_ok_def heap_block_ok_def KERNEL_HEAP_START_def INIT_SIZE_def PAGE_SIZE_def)
  then show ?thesis
    using assms h(1) heap_map_pages_cases [of INIT_SIZE KERNEL_HEAP_START "kh_kmem ks"]
    by (auto simp: heap_init_def ensure_def)
qed

lemma kernel_alloc_init:
  assumes "\<not> kh_initialized ks"
  shows "kernel_alloc l ks = (case heap_init ks of Ok ks1 \<Rightarrow> kernel_alloc l ks1 | _ \<Rightarrow> Some Panic)"
proof (cases "heap_init ks")
  case (Ok ks1)
  then have "kh_initialized ks1" by (auto simp: heap_init_def outcome_simps)
  then have "find_suitable_free_block l ks = find_suitable_free_block l ks1"
    using assms Ok by (simp add: find_suitable_free_block_def ensure_init_def)
  then show ?thesis using Ok by (simp add: kernel_alloc.simps [of l ks] kernel_alloc.simps [of l ks1])
qed (use assms in \<open>simp_all add: kernel_alloc.simps [of l ks] find_suitable_free_block_def ensure_init_def\<close>)

definition history_inv :: "kheap \<Rightarrow> (nat \<times> layout) list \<Rightarrow> bool" where
  "history_inv ks ys \<longleftrightarrow>
     (if kh_initialized ks then \<exists>xs. heap_inv (kh_heap ks) xs ys else ys = [] \<and> (\<exists>m. kh_heap ks = new_uninit m))"

text \<open>Every allocation returns, with or without initialisation.\<close>

lemma alloc_history_inv:
  assumes "history_inv ks ys" "layout_ok l"
  shows "kernel_alloc l ks = Some Panic \<or> (\<exists>p ks'. kernel_alloc l ks = Some (Ok (p, ks')) \<and> history_inv ks' ((p, l) # ys))"
proof (cases "kh_initialized ks")
  case True
  then obtain xs where "heap_inv (kh_heap ks) xs ys" using assms(1) by (auto simp: history_inv_def)
  then show ?thesis using kernel_alloc_ok [OF _ True assms(2)] by (fastforce simp: history_inv_def)
next
  case False
  then obtain m where m: "kh_heap ks = new_uninit m" "ys = []" using assms(1) by (auto simp: history_inv_def)
  from heap_init_ok [OF False m(1)] show ?thesis
  proof (elim disjE exE conjE)
    fix ks1
    assume "heap_init ks = Ok ks1" "kh_initialized ks1" "heap_inv (kh_heap ks1) [(KERNEL_HEAP_START, INIT_SIZE * PAGE_SIZE)] []"
    then show ?thesis
      using kernel_alloc_ok [of ks1 _ "[]" l] assms(2) kernel_alloc_init [OF False, of l] m(2) by (fastforce simp: history_inv_def)
  qed (simp add: kernel_alloc_init [OF False])
qed

lemma heap_history_inv: "heap_history k0 ks ys \<Longrightarrow> history_inv ks ys"
proof (induction rule: heap_history.induct)
  case (heap_start m)
  then show ?case by (auto simp: history_inv_def)
next
  case (heap_alloc ks ys l p ks')
  then show ?case using alloc_history_inv by fastforce
next
  case (heap_dealloc ks ys p l ks')
  then have init: "kh_initialized ks" by (auto simp: history_inv_def split: if_splits)
  then obtain xs where "heap_inv (kh_heap ks) xs ys" using heap_dealloc.IH by (auto simp: history_inv_def)
  from kernel_dealloc_ok [OF this heap_dealloc.hyps(2)] show ?case
    using heap_dealloc.hyps(3) init by (auto simp: history_inv_def)
next
  case (heap_write ks ys y m)
  then have init: "kh_initialized ks" by (auto simp: history_inv_def split: if_splits)
  then obtain xs where "heap_inv (kh_heap ks) xs ys" using heap_write.IH by (auto simp: history_inv_def)
  from client_write_inv [OF this heap_write.hyps(2, 3)] show ?case using init by (auto simp: history_inv_def)
qed

text \<open>A kernel with 40 pages of memory, one of them the root of its page table.\<close>

definition forty_pages :: "bool list" where
  "forty_pages = [False, False, False, False, False, False, False, False, False, False,
     False, False, False, False, False, False, False, False, False, False,
     False, False, False, False, False, False, False, False, False, False,
     False, False, False, False, False, False, False, False, False, False]"

definition heap_example_mem :: pt_mem where
  "heap_example_mem = \<lparr>pm_tables = Map.empty,
     pm_alloc = \<lparr>allocated_pages = forty_pages, memory_start = 0x40000000, memory_length = 40 * 4096\<rparr>\<rparr>"

lemma check_run_7: "check_run 7 i xs = check_run (Suc (Suc (Suc (Suc (Suc (Suc (Suc 0))))))) i xs"
  by (simp add: eval_nat_numeral)

lemma heap_example_pages:
  "alloc_contig 1 (pm_alloc heap_example_mem) =
     Ok ((pm_alloc heap_example_mem)\<lparr>allocated_pages := forty_pages[0 := True]\<rparr>, 0x40000000)"
  "\<exists>p. alloc_contig 8 ((pm_alloc heap_example_mem)\<lparr>allocated_pages := forty_pages[0 := True]\<rparr>) = Ok (p, 0x40001000) \<and>
     pages_left p = 31"
  by (simp_all add: heap_example_mem_def alloc_contig_def forty_pages_def alloc_scan.simps take_pages_def fill_range_def
      PAGE_SIZE_def pages_left_def check_run_7 add_checked_def mul_checked_def)

lemma heap_example:
  obtains k0 k where "heap_map_pages INIT_SIZE KERNEL_HEAP_START k0 = Ok k"
proof -
  have inv: "pma_inv (pm_alloc heap_example_mem)" "PAGE_SIZE dvd memory_start (pm_alloc heap_example_mem)"
    "memory_start (pm_alloc heap_example_mem) + length (allocated_pages (pm_alloc heap_example_mem)) * PAGE_SIZE \<le> 2 ^ 48"
    by (simp_all add: heap_example_mem_def forty_pages_def pma_inv_def PAGE_SIZE_def)
  obtain m pt where e: "pt_empty True 0 heap_example_mem = Ok (m, pt)" and
    m: "pm_alloc m = (pm_alloc heap_example_mem)\<lparr>allocated_pages := forty_pages[0 := True]\<rparr>"
    using heap_example_pages(1)
    by (auto simp: pt_empty_def allocate_table_def alloc_page_def to_virtual_canonical_def canonical_base_def add_checked_def)
  note f = pt_empty_fresh [OF inv e]
  obtain p where p: "alloc_contig 8 (pm_alloc m) = Ok (p, 0x40001000)" "pages_left p = 31"
    using heap_example_pages(2) m by auto
  note ph = phys_step [OF f(2) _ p(1)]
  let ?k = "example_kmem m pt"
  have high: "high_addresses pt" by (subst f(1)) simp
  have "mappable 0x40001000 KERNEL_HEAP_START 8" by (simp add: mappable_def PAGE_SIZE_def KERNEL_HEAP_START_def dvd_def)
  from map_range_progress [OF this, of pt "m\<lparr>pm_alloc := p\<rparr>" UNIV "\<lparr>read_only = False, el0_access = False\<rparr>"]
  obtain m' where "map_range pt 0x40001000 KERNEL_HEAP_START 8 True \<lparr>read_only = False, el0_access = False\<rparr> (m\<lparr>pm_alloc := p\<rparr>) =
      Ok (m', pt\<lparr>pt_modified := True\<rparr>)"
    using high p(2) f(3) [of UNIV] ph(1) by (auto simp: KERNEL_HEAP_START_def PAGE_SIZE_def tag_matches_def)
  then have "\<exists>k. heap_map_pages INIT_SIZE KERNEL_HEAP_START ?k = Ok k"
    using p(1) by (simp add: heap_map_pages_def INIT_SIZE_def example_kmem_def km_set_alloc_def)
  then show thesis using that by blast
qed

lemma heap_example_alloc:
  obtains k0 ks p where "heap_history k0 ks [(p, \<lparr>layout_size = 100, layout_align = 64\<rparr>)]"
proof -
  obtain k0 k where k: "heap_map_pages INIT_SIZE KERNEL_HEAP_START k0 = Ok k" by (rule heap_example)
  let ?ks = "\<lparr>kh_heap = new_uninit (\<lambda>_. 0), kh_initialized = False, kh_kmem = k0\<rparr>" and ?l = "\<lparr>layout_size = 100, layout_align = 64\<rparr>"
  have "heap_init ?ks \<noteq> Panic" using k by (auto simp: heap_init_def ensure_def free_list_init_def new_uninit_def Let_def)
  then obtain ks1 where ks1: "heap_init ?ks = Ok ks1" "kh_initialized ks1"
    "heap_inv (kh_heap ks1) [(KERNEL_HEAP_START, INIT_SIZE * PAGE_SIZE)] []"
    using heap_init_ok [of ?ks "\<lambda>_. 0"] by auto
  have l: "layout_ok ?l" by (simp add: layout_ok_def)
  have "fits ?l (KERNEL_HEAP_START, INIT_SIZE * PAGE_SIZE)"
    by (simp add: fits_def KERNEL_HEAP_START_def INIT_SIZE_def PAGE_SIZE_def align_offset_def)
  then obtain p ks' where "kernel_alloc ?l ks1 = Some (Ok (p, ks'))" using kernel_alloc_fit [OF ks1(3, 2) l] by auto
  then have "kernel_alloc ?l ?ks = Some (Ok (p, ks'))" using kernel_alloc_init [of ?ks ?l] ks1(1) by simp
  then show thesis using that heap_alloc [OF heap_start l] by blast
qed

section \<open>Correctness of the heap\<close>

lemma live_data_in_span: "live_ok h y \<Longrightarrow> {fst y ..< fst y + layout_size (snd y)} \<subseteq> live_span h y"
  by (auto simp: live_ok_def span_def)

text \<open>
  C29. The allocations of the kernel heap never interfere. After every history of allocations with
  alignments up to 256, releases and writes of clients to their own memory, starting before the
  initialisation of the heap, the live allocations are aligned, lie inside the heap and are pairwise
  disjoint, and each of them can be released without a panic: its header is intact.
\<close>

theorem kernel_heap_isolated:
  assumes "heap_history k0 ks ys"
  shows "(\<forall>(p, l)\<in>set ys. p mod layout_align l = 0 \<and> KERNEL_HEAP_START \<le> p \<and>
      p + layout_size l \<le> KERNEL_HEAP_START + heap_size_in_bytes (kh_heap ks) \<and>
      (\<exists>ks'. kernel_dealloc p l ks = Some (Ok ks'))) \<and>
    sorted_wrt (\<lambda>(p, l) (q, k). {p ..< p + layout_size l} \<inter> {q ..< q + layout_size k} = {}) ys"
proof (cases "kh_initialized ks")
  case False
  then show ?thesis using heap_history_inv [OF assms] by (simp add: history_inv_def)
next
  case True
  then obtain xs where inv: "heap_inv (kh_heap ks) xs ys"
    using heap_history_inv [OF assms] by (auto simp: history_inv_def)
  have live: "live_ok (kh_heap ks) y" if "y \<in> set ys" for y using inv that by (auto simp: heap_inv_def)
  have "p mod layout_align l = 0 \<and> KERNEL_HEAP_START \<le> p \<and>
      p + layout_size l \<le> KERNEL_HEAP_START + heap_size_in_bytes (kh_heap ks) \<and>
      (\<exists>ks'. kernel_dealloc p l ks = Some (Ok ks'))" if "(p, l) \<in> set ys" for p l
    using live [OF that] kernel_dealloc_ok [OF inv that] by (auto simp: live_ok_def heap_block_ok_def)
  moreover have "sorted_wrt (\<lambda>y z. live_span (kh_heap ks) y \<inter> live_span (kh_heap ks) z = {}) ys"
    using inv by (simp add: heap_inv_def)
  then have "sorted_wrt (\<lambda>(p, l) (q, k). {p ..< p + layout_size l} \<inter> {q ..< q + layout_size k} = {}) ys"
    by (rule sorted_wrt_mono_rel [rotated]) (use live_data_in_span [OF live] in fastforce)
  ultimately show ?thesis by blast
qed

theorem kernel_heap_isolated_witness:
  "\<exists>k0 ks p. heap_history k0 ks [(p, \<lparr>layout_size = 100, layout_align = 64\<rparr>)] \<and> p mod 64 = 0 \<and>
     (\<exists>ks'. kernel_dealloc p \<lparr>layout_size = 100, layout_align = 64\<rparr> ks = Some (Ok ks'))"
proof -
  obtain k0 ks p where h: "heap_history k0 ks [(p, \<lparr>layout_size = 100, layout_align = 64\<rparr>)]" by (rule heap_example_alloc)
  have "p mod 64 = 0 \<and> (\<exists>ks'. kernel_dealloc p \<lparr>layout_size = 100, layout_align = 64\<rparr> ks = Some (Ok ks'))"
    using kernel_heap_isolated [OF h] by auto
  then show ?thesis using h by (intro exI [of _ k0] exI [of _ ks] exI [of _ p]) simp
qed

text \<open>
  C30. Allocation always returns. In every state of a history a call of \<open>alloc\<close> ends, after growing the
  heap as often as needed: it returns a pointer that becomes part of the history or panics. It does
  not panic if the free list has a block that fits.
\<close>

theorem kernel_alloc_returns:
  assumes "heap_history k0 ks ys" "layout_ok l"
  shows "(kernel_alloc l ks = Some Panic \<or> (\<exists>p ks'. kernel_alloc l ks = Some (Ok (p, ks')))) \<and>
    (kh_initialized ks \<longrightarrow> (\<forall>xs. heap_inv (kh_heap ks) xs ys \<longrightarrow> (\<exists>x\<in>set xs. fits l x) \<longrightarrow> kernel_alloc l ks \<noteq> Some Panic))"
  using alloc_history_inv [OF heap_history_inv [OF assms(1)] assms(2)] kernel_alloc_fit [OF _ _ assms(2)] by fastforce

theorem kernel_alloc_returns_witness:
  "\<exists>k0 ks p r. heap_history k0 ks [(p, \<lparr>layout_size = 100, layout_align = 64\<rparr>)] \<and>
     kernel_alloc \<lparr>layout_size = 2 ^ 40, layout_align = 256\<rparr> ks = Some r"
proof -
  obtain k0 ks p where h: "heap_history k0 ks [(p, \<lparr>layout_size = 100, layout_align = 64\<rparr>)]" by (rule heap_example_alloc)
  have "layout_ok \<lparr>layout_size = 2 ^ 40, layout_align = 256\<rparr>" by (simp add: layout_ok_def)
  from kernel_alloc_returns [OF h this] h show ?thesis by blast
qed

text \<open>
  The header has one byte for the padding. With an alignment of 512 or more the padding can exceed it;
  the release then computes a wrong block address.
\<close>

lemma header_padding_truncated: "padding_size (alloc_header_new sz padding) = padding mod 256"
  using unat_take_bit_of_nat [of "padding mod 256" 8]
  by (simp add: padding_size_def alloc_header_new_def get_field_set_field_same)

end
