(* ===== verification/Nvme_Command.thy ===== *)
theory Nvme_Command
  imports Phys_Buffer
begin

unbundle bit_operations_syntax

text \<open>
  NVMe commands (\<open>Command\<close> of \<open>kernel/src/storage/nvme/queue.rs\<close> and \<open>command.rs\<close>): the 16 words of a
  submission entry, the encoders of the commands, and the lists of data pages (physical region
  pages, PRP) that \<open>set_data_ptrs\<close> builds. The extra pages of a PRP list are buffers of the theory
  \<open>Phys_Buffer\<close>; their contents are kept next to them as the addresses written into them.
\<close>

section \<open>Errors of the storage layer\<close>

datatype storage_error =
    BadVector string "(physical_address \<times> nat) option"
  | DeviceError
  | StorageMemoryError memory_error

section \<open>Command words\<close>

record nvme_command =
  cmd_words :: "32 word list"
  cmd_new_tail :: nat
  extra_data_ptr_buffers :: "(physical_buffer \<times> 64 word list) list"

definition set_dword :: "nat \<Rightarrow> 32 word \<Rightarrow> nvme_command \<Rightarrow> ('e, nvme_command) outcome" where
  "set_dword idx data c =
     (if idx < length (cmd_words c) then Ok (c\<lparr>cmd_words := (cmd_words c)[idx := data]\<rparr>) else Panic)"

definition set_qword :: "nat \<Rightarrow> 64 word \<Rightarrow> nvme_command \<Rightarrow> ('e, nvme_command) outcome" where
  "set_qword idx data c =
     bind_outcome (set_dword idx (ucast data) c) (set_dword (idx + 1) (ucast (drop_bit 32 data)))"

text \<open>\<open>cmd[i].set_bit_range(hi, lo, v)\<close>.\<close>

definition set_cmd_bits :: "nat \<Rightarrow> nat \<Rightarrow> nat \<Rightarrow> 32 word \<Rightarrow> nvme_command \<Rightarrow> ('e, nvme_command) outcome" where
  "set_cmd_bits i hi lo v c =
     (if i < length (cmd_words c) then set_dword i (set_field hi lo v (cmd_words c ! i)) c else Panic)"

definition set_command_id :: "16 word \<Rightarrow> nvme_command \<Rightarrow> ('e, nvme_command) outcome" where
  "set_command_id i = set_cmd_bits 0 31 16 (ucast i)"

definition set_opcode :: "8 word \<Rightarrow> nvme_command \<Rightarrow> ('e, nvme_command) outcome" where
  "set_opcode op = set_cmd_bits 0 7 0 (ucast op)"

definition set_namespace_id :: "32 word \<Rightarrow> nvme_command \<Rightarrow> ('e, nvme_command) outcome" where
  "set_namespace_id i = set_dword 1 i"

definition set_data_ptr_single :: "physical_address \<Rightarrow> nvme_command \<Rightarrow> ('e, nvme_command) outcome" where
  "set_data_ptr_single p = set_qword 6 (of_nat p)"

section \<open>Commands\<close>

datatype identify_structure = Identify_namespace | Identify_controller | Identify_active_namespace_list

fun identify_code :: "identify_structure \<Rightarrow> 32 word" where
  "identify_code Identify_namespace = 0"
| "identify_code Identify_controller = 1"
| "identify_code Identify_active_namespace_list = 2"

datatype queue_priority = Priority_urgent | Priority_high | Priority_medium | Priority_low

fun priority_code :: "queue_priority \<Rightarrow> 32 word" where
  "priority_code Priority_urgent = 0"
| "priority_code Priority_high = 1"
| "priority_code Priority_medium = 2"
| "priority_code Priority_low = 3"

definition cmd_identify :: "16 word \<Rightarrow> identify_structure \<Rightarrow> nvme_command \<Rightarrow> ('e, nvme_command) outcome" where
  "cmd_identify controller_id structure_id c =
     bind_outcome (set_opcode 0x06 c) (set_dword 10 (push_bit 16 (ucast controller_id) OR identify_code structure_id))"

text \<open>Queue sizes are zero-based in the command; a size of 0 underflows.\<close>

definition queue_dword :: "16 word \<Rightarrow> nat \<Rightarrow> ('e, 32 word) outcome" where
  "queue_dword queue_id queue_size =
     bind_outcome (sub_checked queue_size 1) (\<lambda>n. Ok (push_bit 16 (of_nat n) OR ucast queue_id))"

definition create_io_completion_queue ::
  "16 word \<Rightarrow> nat \<Rightarrow> 16 word \<Rightarrow> bool \<Rightarrow> bool \<Rightarrow> nvme_command \<Rightarrow> ('e, nvme_command) outcome" where
  "create_io_completion_queue queue_id queue_size interrupt_vector_index interrupts_enabled physically_continuous c =
     bind_outcome (set_opcode 0x05 c) (\<lambda>c.
     bind_outcome (queue_dword queue_id queue_size) (\<lambda>d.
     bind_outcome (set_dword 10 d c)
       (set_dword 11 (push_bit 16 (ucast interrupt_vector_index) OR (if interrupts_enabled then 2 else 0)
          OR (if physically_continuous then 1 else 0)))))"

definition delete_io_completion_queue :: "16 word \<Rightarrow> nvme_command \<Rightarrow> ('e, nvme_command) outcome" where
  "delete_io_completion_queue queue_id c = bind_outcome (set_opcode 0x04 c) (set_dword 10 (ucast queue_id))"

definition create_io_submission_queue ::
  "16 word \<Rightarrow> nat \<Rightarrow> 16 word \<Rightarrow> queue_priority \<Rightarrow> bool \<Rightarrow> nvme_command \<Rightarrow> ('e, nvme_command) outcome" where
  "create_io_submission_queue queue_id queue_size completion_queue_id priority physically_continuous c =
     bind_outcome (set_opcode 0x01 c) (\<lambda>c.
     bind_outcome (queue_dword queue_id queue_size) (\<lambda>d.
     bind_outcome (set_dword 10 d c) (\<lambda>c.
     bind_outcome (set_dword 11 (push_bit 16 (ucast completion_queue_id) OR push_bit 1 (priority_code priority)
          OR (if physically_continuous then 1 else 0)) c)
       (set_dword 12 0))))"

definition delete_io_submission_queue :: "16 word \<Rightarrow> nvme_command \<Rightarrow> ('e, nvme_command) outcome" where
  "delete_io_submission_queue queue_id c = bind_outcome (set_opcode 0x00 c) (set_dword 10 (ucast queue_id))"

definition cmd_flush :: "nvme_command \<Rightarrow> ('e, nvme_command) outcome" where
  "cmd_flush = set_opcode 0x00"

definition cmd_read :: "64 word \<Rightarrow> 16 word \<Rightarrow> nvme_command \<Rightarrow> ('e, nvme_command) outcome" where
  "cmd_read starting_lba num_blocks c =
     bind_outcome (set_opcode 0x02 c) (\<lambda>c.
     bind_outcome (set_qword 10 starting_lba c) (\<lambda>c.
     bind_outcome (set_dword 12 (ucast num_blocks) c) (set_dword 13 0)))"

definition cmd_write :: "64 word \<Rightarrow> 16 word \<Rightarrow> nvme_command \<Rightarrow> ('e, nvme_command) outcome" where
  "cmd_write starting_lba num_blocks c =
     bind_outcome (set_opcode 0x01 c) (\<lambda>c.
     bind_outcome (set_qword 10 starting_lba c) (\<lambda>c.
     bind_outcome (set_dword 12 (ucast num_blocks) c) (set_dword 13 0)))"

section \<open>Lists of data pages\<close>

text \<open>
  The state of \<open>set_data_ptrs\<close>: the first PRP page is the data pointer field of the command with two
  entries, the others are pages of 512 entries; \<open>prp_off\<close> is the offset in the current, last page.
\<close>

record prp_state =
  prp_first :: "64 word list"
  prp_extra :: "(physical_buffer \<times> 64 word list) list"
  prp_off :: nat

definition prp_cur :: "prp_state \<Rightarrow> 64 word list" where
  "prp_cur s = (if prp_extra s = [] then prp_first s else snd (last (prp_extra s)))"

definition prp_write :: "nat \<Rightarrow> 64 word \<Rightarrow> prp_state \<Rightarrow> ('e, prp_state) outcome" where
  "prp_write i v s =
     (if i < length (prp_cur s) then
        Ok (if prp_extra s = [] then s\<lparr>prp_first := (prp_first s)[i := v]\<rparr>
            else s\<lparr>prp_extra := butlast (prp_extra s) @ [(fst (last (prp_extra s)), (prp_cur s)[i := v])]\<rparr>)
      else Panic)"

text \<open>
  A new page: its address goes into the last entry of the current one. An error carries the pages
  collected so far, which go out of scope with the command.
\<close>

type_synonym prp_outcome = "(storage_error \<times> kmem \<times> (physical_buffer \<times> 64 word list) list, kmem \<times> prp_state) outcome"

definition prp_new_page :: "kmem \<Rightarrow> prp_state \<Rightarrow> prp_outcome" where
  "prp_new_page k s =
     bind_outcome (map_outcome_err (\<lambda>(e, k). (StorageMemoryError e, k, prp_extra s))
         (pb_alloc_zeroed 1 \<lparr>read_only = False, el0_access = False\<rparr> k)) (\<lambda>(k', buf).
     bind_outcome (prp_write (prp_off s) (of_nat (pb_phy_addr buf)) s) (\<lambda>s'.
     Ok (k', s'\<lparr>prp_off := 0, prp_extra := prp_extra s' @ [(buf, replicate 512 0)]\<rparr>)))"

definition prp_add :: "physical_address \<Rightarrow> kmem \<times> prp_state \<Rightarrow> prp_outcome" where
  "prp_add addr ks =
     bind_outcome (if prp_off (snd ks) = length (prp_cur (snd ks)) - 1 then prp_new_page (fst ks) (snd ks) else Ok ks)
       (\<lambda>(k, s). bind_outcome (prp_write (prp_off s) (of_nat addr) s) (\<lambda>s'. Ok (k, s'\<lparr>prp_off := prp_off s' + 1\<rparr>)))"

partial_function (option) prp_region ::
  "nat \<Rightarrow> nat \<Rightarrow> nat \<Rightarrow> physical_address \<Rightarrow> kmem \<times> prp_state \<Rightarrow> prp_outcome option" where
  "prp_region blocks_per_page total_blocks num_blocks next_page_addr ks =
     (if num_blocks < total_blocks then
        (case bind_outcome (prp_add next_page_addr ks) (\<lambda>ks'.
                bind_outcome (add_checked num_blocks blocks_per_page) (\<lambda>n. Ok (n, ks'))) of
           Ok (n, ks') \<Rightarrow> prp_region blocks_per_page total_blocks n (pa_add next_page_addr PAGE_SIZE) ks'
         | Err e \<Rightarrow> Some (Err e)
         | Panic \<Rightarrow> Some Panic)
      else Some (Ok ks))"

fun prp_regions ::
  "nat \<Rightarrow> (physical_address \<times> nat) list \<Rightarrow> kmem \<times> prp_state \<Rightarrow> prp_outcome option" where
  "prp_regions blocks_per_page [] ks = Some (Ok ks)"
| "prp_regions blocks_per_page ((addr, n) # regions) ks =
     (case prp_region blocks_per_page n 0 addr ks of
        Some (Ok ks') \<Rightarrow> prp_regions blocks_per_page regions ks'
      | r \<Rightarrow> r)"

definition qword_at :: "nat \<Rightarrow> nvme_command \<Rightarrow> 64 word" where
  "qword_at i c = ucast (cmd_words c ! i) OR push_bit 32 (ucast (cmd_words c ! (i + 1)))"

fun drop_buffers :: "(physical_buffer \<times> 64 word list) list \<Rightarrow> kmem \<Rightarrow> kmem km_outcome" where
  "drop_buffers [] k = Ok k"
| "drop_buffers ((b, _) # bs) k = bind_outcome (pb_drop b k) (drop_buffers bs)"

definition set_data_ptrs ::
  "(physical_address \<times> nat) list \<Rightarrow> nat \<Rightarrow> kmem \<Rightarrow> nvme_command \<Rightarrow>
   (storage_error \<times> kmem, kmem \<times> nvme_command) outcome option" where
  "set_data_ptrs regions blocks_per_page k c =
     (if regions = [] then Some (Err (BadVector ''must have at least one entry'' None, k))
      else
        (case prp_regions blocks_per_page regions
            (k, \<lparr>prp_first = [qword_at 6 c, qword_at 8 c], prp_extra = extra_data_ptr_buffers c, prp_off = 0\<rparr>) of
           Some (Ok (k', s)) \<Rightarrow>
             Some (bind_outcome (set_qword 6 (prp_first s ! 0) c) (\<lambda>c.
                   bind_outcome (set_qword 8 (prp_first s ! 1) c) (\<lambda>c.
                   Ok (k', c\<lparr>extra_data_ptr_buffers := prp_extra s\<rparr>))))
         | Some (Err (e, k', bs)) \<Rightarrow>
             Some (bind_outcome (expect_ok (drop_buffers bs k')) (\<lambda>k''. Err (e, k'')))
         | Some Panic \<Rightarrow> Some Panic
         | None \<Rightarrow> None))"


section \<open>Reading a command back\<close>

lemma set_dword_Ok: "i < length (cmd_words c) \<Longrightarrow> set_dword i w c = Ok (c\<lparr>cmd_words := (cmd_words c)[i := w]\<rparr>)"
  by (simp add: set_dword_def)

lemma set_qword_Ok:
  "i + 1 < length (cmd_words c) \<Longrightarrow>
   set_qword i q c = Ok (c\<lparr>cmd_words := (cmd_words c)[i := ucast q, i + 1 := ucast (drop_bit 32 q)]\<rparr>)"
  by (simp add: set_qword_def set_dword_Ok)

lemma set_cmd_bits_Ok:
  "i < length (cmd_words c) \<Longrightarrow>
   set_cmd_bits i hi lo v c = Ok (c\<lparr>cmd_words := (cmd_words c)[i := set_field hi lo v (cmd_words c ! i)]\<rparr>)"
  by (simp add: set_cmd_bits_def set_dword_Ok)

lemma qword_split: "ucast (ucast q :: 32 word) OR push_bit 32 (ucast (ucast (drop_bit 32 q) :: 32 word)) = (q :: 64 word)"
  by (rule bit_word_eqI) (auto simp: bit_or_iff bit_push_bit_iff bit_ucast_iff bit_drop_bit_eq)

lemma qword_at_set [simp]:
  "i + 1 < length ws \<Longrightarrow>
   qword_at i (c\<lparr>cmd_words := ws[i := ucast q, i + 1 := ucast (drop_bit 32 q)]\<rparr>) = q"
  by (simp add: qword_at_def qword_split)

lemma take_bit_command_id [simp]: "take_bit 16 (ucast (i :: 16 word)) = (ucast i :: 32 word)"
  by (rule bit_word_eqI) (auto simp: bit_take_bit_iff bit_ucast_iff dest: bit_imp_le_length)

lemmas set_words_Ok = set_dword_Ok set_qword_Ok set_cmd_bits_Ok

text \<open>
  C35. The encoding of an I/O command round-trips: a read or write built for a namespace, a data page, a
  starting block and a number of blocks, with its identifier, can be read back from the 16 words; every
  other word keeps its value. Building the command never fails on a full-size slot.
\<close>

theorem io_command_roundtrip:
  assumes "length (cmd_words c) = 16" and "(enc, op) \<in> {(cmd_read, 2), (cmd_write, 1)}"
  shows "\<exists>c'. bind_outcome (set_namespace_id ns c) (\<lambda>c. bind_outcome (set_data_ptr_single p c) (\<lambda>c.
             bind_outcome (enc lba n c) (set_command_id i))) = (Ok c' :: ('e, nvme_command) outcome)
     \<and> get_field 7 0 (cmd_words c' ! 0) = op \<and> get_field 31 16 (cmd_words c' ! 0) = ucast i
     \<and> get_field 15 8 (cmd_words c' ! 0) = get_field 15 8 (cmd_words c ! 0)
     \<and> cmd_words c' ! 1 = ns \<and> qword_at 6 c' = of_nat p \<and> qword_at 10 c' = lba
     \<and> cmd_words c' ! 12 = ucast n \<and> cmd_words c' ! 13 = 0
     \<and> (\<forall>j\<in>{2, 3, 4, 5, 8, 9, 14, 15}. cmd_words c' ! j = cmd_words c ! j)
     \<and> length (cmd_words c') = 16 \<and> cmd_new_tail c' = cmd_new_tail c
     \<and> extra_data_ptr_buffers c' = extra_data_ptr_buffers c"
  using assms
  by (auto simp: set_namespace_id_def set_data_ptr_single_def cmd_read_def cmd_write_def set_command_id_def
      set_opcode_def set_words_Ok qword_at_def qword_split get_field_set_field_same get_field_set_field_other)

definition empty_command :: nvme_command where
  "empty_command = \<lparr>cmd_words = replicate 16 0, cmd_new_tail = 1, extra_data_ptr_buffers = []\<rparr>"

theorem io_command_roundtrip_witness:
  "\<exists>c'. bind_outcome (set_namespace_id 1 empty_command) (\<lambda>c. bind_outcome (set_data_ptr_single 0x40005000 c) (\<lambda>c.
      bind_outcome (cmd_read 0x123456789 8 c) (set_command_id 7))) = (Ok c' :: (unit, nvme_command) outcome)
      \<and> qword_at 10 c' = 0x123456789"
  using io_command_roundtrip [where c = empty_command and enc = cmd_read and op = 2 and ns = 1 and p = "0x40005000" and lba = "0x123456789" and n = 8 and i = 7]
  by (auto simp: empty_command_def)

section \<open>Correctness of the page lists\<close>

text \<open>
  What the pages hold: the entries of a list of PRP pages up to an offset in the last page, leaving out
  the last entry of every other page, which links to the next one.
\<close>

fun prp_entries :: "64 word list \<Rightarrow> (physical_buffer \<times> 64 word list) list \<Rightarrow> nat \<Rightarrow> 64 word list" where
  "prp_entries page [] off = take off page"
| "prp_entries page ((b, next_page) # pages) off = butlast page @ prp_entries next_page pages off"

fun prp_linked :: "64 word list \<Rightarrow> (physical_buffer \<times> 64 word list) list \<Rightarrow> bool" where
  "prp_linked page [] = True"
| "prp_linked page ((b, next_page) # pages) \<longleftrightarrow>
     last page = of_nat (pb_phy_addr b) \<and> length next_page = 512 \<and> prp_linked next_page pages"

definition last_page :: "64 word list \<Rightarrow> (physical_buffer \<times> 64 word list) list \<Rightarrow> 64 word list" where
  "last_page page pages = (if pages = [] then page else snd (last pages))"

definition prp_ok :: "prp_state \<Rightarrow> bool" where
  "prp_ok s \<longleftrightarrow> length (prp_first s) = 2 \<and> prp_linked (prp_first s) (prp_extra s) \<and> prp_off s < length (prp_cur s)"

abbreviation prp_data :: "prp_state \<Rightarrow> 64 word list" where
  "prp_data s \<equiv> prp_entries (prp_first s) (prp_extra s) (prp_off s)"

lemma last_page_simps [simp]:
  "last_page page [] = page" "last_page page (p # pages) = last_page (snd p) pages"
  "last_page page (pages @ [p]) = snd p"
  by (auto simp: last_page_def)

lemma prp_cur_eq: "prp_cur s = last_page (prp_first s) (prp_extra s)"
  by (simp add: prp_cur_def last_page_def)

lemma prp_entries_snoc:
  "prp_entries page (pages @ [(b, es)]) off =
   prp_entries page pages (length (last_page page pages) - 1) @ take off es"
  by (induction page pages off rule: prp_entries.induct) (simp_all add: butlast_conv_take)

lemma prp_linked_snoc:
  "prp_linked page (pages @ [(b, es)]) \<longleftrightarrow>
   prp_linked page pages \<and> last (last_page page pages) = of_nat (pb_phy_addr b) \<and> length es = 512"
  by (induction page pages rule: prp_linked.induct) auto

text \<open>The last page is the only one written.\<close>

definition with_last_page :: "64 word list \<Rightarrow> prp_state \<Rightarrow> prp_state" where
  "with_last_page es s =
     (if prp_extra s = [] then s\<lparr>prp_first := es\<rparr>
      else s\<lparr>prp_extra := butlast (prp_extra s) @ [(fst (last (prp_extra s)), es)]\<rparr>)"

lemma prp_write_eq:
  "i < length (prp_cur s) \<Longrightarrow> prp_write i v s = Ok (with_last_page ((prp_cur s)[i := v]) s)"
  by (simp add: prp_write_def with_last_page_def prp_cur_def)

lemma with_last_page_facts:
  assumes "length es = length (prp_cur s)" "length (prp_first s) = 2" "prp_linked (prp_first s) (prp_extra s)"
  shows "prp_cur (with_last_page es s) = es" "length (prp_first (with_last_page es s)) = 2"
    "prp_linked (prp_first (with_last_page es s)) (prp_extra (with_last_page es s))"
    "prp_off (with_last_page es s) = prp_off s"
    "prp_entries (prp_first (with_last_page es s)) (prp_extra (with_last_page es s)) off =
     prp_entries (prp_first s) (prp_extra s) 0 @ take off es"
proof -
  have "prp_extra s = [] \<or> (\<exists>pages b es'. prp_extra s = pages @ [(b, es')])"
    by (metis prod.collapse append_butlast_last_id)
  then show "prp_cur (with_last_page es s) = es" "length (prp_first (with_last_page es s)) = 2"
    "prp_linked (prp_first (with_last_page es s)) (prp_extra (with_last_page es s))"
    "prp_off (with_last_page es s) = prp_off s"
    "prp_entries (prp_first (with_last_page es s)) (prp_extra (with_last_page es s)) off =
     prp_entries (prp_first s) (prp_extra s) 0 @ take off es"
    using assms by (auto simp: with_last_page_def prp_cur_def prp_linked_snoc prp_entries_snoc)
qed

lemma prp_entries_off:
  "prp_entries page pages off = prp_entries page pages 0 @ take off (last_page page pages)"
  by (induction page pages off rule: prp_entries.induct) simp_all

lemma prp_new_page_Ok:
  assumes "prp_new_page k s = Ok (k', s')" "prp_ok s" "prp_off s = length (prp_cur s) - 1"
  shows "prp_ok s' \<and> prp_data s' = prp_data s \<and> prp_off s' = 0 \<and> length (prp_cur s') = 512"
proof -
  let ?es = "\<lambda>b. (prp_cur s)[prp_off s := of_nat (pb_phy_addr b)]"
  have ok: "length (prp_first s) = 2" "prp_linked (prp_first s) (prp_extra s)" "prp_off s < length (prp_cur s)"
    using assms(2) by (simp_all add: prp_ok_def)
  obtain b where s': "s' = (let t = with_last_page (?es b) s in
      t\<lparr>prp_off := 0, prp_extra := prp_extra t @ [(b, replicate 512 0)]\<rparr>)"
    using assms(1) ok(3) by (auto simp: prp_new_page_def prp_write_eq outcome_simps Let_def)
  note w = with_last_page_facts [of "?es b" s, OF _ ok(1,2)]
  have l: "last (?es b) = of_nat (pb_phy_addr b)" using ok(3) assms(3)
    by (cases "prp_cur s" rule: rev_cases) simp_all
  have "last_page (prp_first (with_last_page (?es b) s)) (prp_extra (with_last_page (?es b) s)) = ?es b"
    using w(1) by (simp add: prp_cur_eq)
  then show ?thesis using w l ok(3) assms(3) prp_entries_off [of "prp_first s" "prp_extra s" "prp_off s"]
    by (simp add: s' Let_def prp_ok_def prp_linked_snoc prp_entries_snoc prp_cur_eq)
qed

lemma prp_add_Ok:
  assumes "prp_add a (k, s) = Ok (k', s')" "prp_ok s"
  shows "prp_ok s' \<and> prp_data s' = prp_data s @ [of_nat a]"
proof -
  obtain k1 s1 where s1: "(if prp_off s = length (prp_cur s) - 1 then prp_new_page k s else Ok (k, s)) = Ok (k1, s1)"
    and s': "bind_outcome (prp_write (prp_off s1) (of_nat a) s1) (\<lambda>s'. Ok (k1, s'\<lparr>prp_off := prp_off s' + 1\<rparr>)) =
      (Ok (k', s') :: prp_outcome)"
    using assms(1) unfolding prp_add_def fst_conv snd_conv bind_outcome_Ok_iff [of "if _ then _ else _"]
    by (simp only: split_paired_Ex case_prod_conv) blast
  have ok: "prp_ok s1" "prp_data s1 = prp_data s" "prp_off s1 + 1 < length (prp_cur s1)"
    using s1 assms(2) prp_new_page_Ok [of k s k1 s1] by (auto simp: prp_ok_def split: if_splits)
  let ?es = "(prp_cur s1)[prp_off s1 := of_nat a]"
  have "s' = (with_last_page ?es s1)\<lparr>prp_off := prp_off (with_last_page ?es s1) + 1\<rparr>"
    using s' ok(3) by (auto simp: prp_write_eq)
  moreover note with_last_page_facts [of ?es s1]
  moreover have "take (prp_off s1 + 1) ?es = take (prp_off s1) (prp_cur s1) @ [of_nat a]"
    using ok(3) by (simp add: take_Suc_conv_app_nth)
  ultimately show ?thesis using ok prp_entries_off [of "prp_first s1" "prp_extra s1" "prp_off s1"]
    by (simp add: prp_ok_def prp_cur_eq)
qed

text \<open>The pages of a region of \<open>n\<close> blocks.\<close>

definition region_pages :: "nat \<Rightarrow> physical_address \<times> nat \<Rightarrow> physical_address list" where
  "region_pages blocks_per_page r = map (\<lambda>i. pa_add (fst r) (i * PAGE_SIZE)) [0..<div_ceil (snd r) blocks_per_page]"

lemma region_pages_nil: "region_pages bpp (a, 0) = []"
  by (simp add: region_pages_def)

lemma region_pages_step:
  assumes "0 < bpp" "0 < n" "a < usize_bound"
  shows "region_pages bpp (a, n) = a # region_pages bpp (pa_add a PAGE_SIZE, n - bpp)"
proof -
  have "pa_add a (Suc i * PAGE_SIZE) = pa_add (pa_add a PAGE_SIZE) (i * PAGE_SIZE)" for i
    by (simp add: pa_add_def saturating_add_def)
  moreover have "pa_add a 0 = a" using assms(3) by (simp add: pa_add_def saturating_add_def)
  ultimately show ?thesis using div_ceil_step [OF assms(1,2)]
    by (simp add: region_pages_def map_upt_Suc del: upt_Suc)
qed

lemma pa_add_bound: "pa_add a x < usize_bound"
  by (simp add: pa_add_def saturating_add_def)

lemma prp_region_total:
  assumes "0 < bpp" "tb + bpp < usize_bound" "prp_ok s" "a < usize_bound"
  shows "\<exists>r. prp_region bpp tb n a (k, s) = Some r \<and>
     (\<forall>k' s'. r = Ok (k', s') \<longrightarrow> prp_ok s' \<and> prp_data s' = prp_data s @ map of_nat (region_pages bpp (a, tb - n)))"
  using assms(3,4)
proof (induction "tb - n" arbitrary: n a k s rule: less_induct)
  case less
  show ?case
  proof (cases "n < tb")
    case False
    then show ?thesis using less.prems(1) by (simp add: prp_region.simps region_pages_nil)
  next
    case True
    show ?thesis
    proof (cases "prp_add a (k, s)")
      case (Ok ks)
      obtain k1 s1 where ks: "ks = (k1, s1)" by (cases ks)
      note add = prp_add_Ok [OF Ok [unfolded ks] less.prems(1)]
      have chk: "n + bpp < usize_bound" using True assms(2) by simp
      obtain r where r: "prp_region bpp tb (n + bpp) (pa_add a PAGE_SIZE) (k1, s1) = Some r"
        "\<forall>k' s'. r = Ok (k', s') \<longrightarrow> prp_ok s' \<and> prp_data s' =
           prp_data s1 @ map of_nat (region_pages bpp (pa_add a PAGE_SIZE, tb - (n + bpp)))"
        using less.hyps [of "n + bpp" s1 "pa_add a PAGE_SIZE" k1, OF diff_less_mono2] add pa_add_bound assms(1) True
        by auto
      moreover have "prp_region bpp tb n a (k, s) = Some r"
        using r(1) True Ok ks chk by (subst prp_region.simps) simp
      ultimately show ?thesis using add region_pages_step [OF assms(1) _ less.prems(2), of "tb - n"] True
        by simp
    qed (use True in \<open>simp_all add: prp_region.simps\<close>)
  qed
qed

lemma prp_regions_total:
  assumes "0 < bpp" "\<forall>(a, n)\<in>set regions. a < usize_bound \<and> n + bpp < usize_bound" "prp_ok s"
  shows "\<exists>r. prp_regions bpp regions (k, s) = Some r \<and>
     (\<forall>k' s'. r = Ok (k', s') \<longrightarrow>
        prp_ok s' \<and> prp_data s' = prp_data s @ map of_nat (concat (map (region_pages bpp) regions)))"
  using assms(2,3)
proof (induction regions arbitrary: k s)
  case Nil
  then show ?case by simp
next
  case (Cons x regions)
  obtain a n where x: "x = (a, n)" by (cases x)
  obtain r where r: "prp_region bpp n 0 a (k, s) = Some r"
    "\<forall>k' s'. r = Ok (k', s') \<longrightarrow> prp_ok s' \<and> prp_data s' = prp_data s @ map of_nat (region_pages bpp (a, n))"
    using prp_region_total [OF assms(1), of n s a 0 k] Cons.prems x by auto
  show ?case
  proof (cases r)
    case (Ok ks)
    obtain k1 s1 where ks: "ks = (k1, s1)" by (cases ks)
    then show ?thesis using r Ok Cons.IH [of s1 k1] Cons.prems(1) by (auto simp: x)
  qed (use r in \<open>simp_all add: x\<close>)
qed

text \<open>
  C34. Building the list of data pages ends and is right: for regions whose block counts do not
  overflow, \<open>set_data_ptrs\<close> returns, and when it succeeds, the entries read from the two entries of the
  command through the linked pages are exactly the pages of the regions, in order, every page but the
  last ends in the address of the next, and the other words of the command are untouched.
\<close>

theorem set_data_ptrs_correct:
  assumes "0 < bpp" "\<forall>(a, n)\<in>set regions. a < usize_bound \<and> n + bpp < usize_bound"
    "length (cmd_words c) = 16" "extra_data_ptr_buffers c = []"
  shows "\<exists>r. set_data_ptrs regions bpp k c = Some r \<and>
     (\<forall>k' c'. r = Ok (k', c') \<longrightarrow>
        (let prp_page = [qword_at 6 c', qword_at 8 c']; pages = extra_data_ptr_buffers c' in
           prp_linked prp_page pages \<and>
           (\<exists>off < length (last_page prp_page pages).
              prp_entries prp_page pages off = map of_nat (concat (map (region_pages bpp) regions)))) \<and>
        (\<forall>i\<in>{..<16} - {6..9}. cmd_words c' ! i = cmd_words c ! i))"
proof (cases "regions = []")
  case True
  then show ?thesis by (simp add: set_data_ptrs_def)
next
  case False
  let ?s = "\<lparr>prp_first = [qword_at 6 c, qword_at 8 c], prp_extra = extra_data_ptr_buffers c, prp_off = 0\<rparr>"
  have "prp_ok ?s" using assms(4) by (simp add: prp_ok_def prp_cur_def)
  with prp_regions_total [OF assms(1,2), of ?s k] obtain r where r: "prp_regions bpp regions (k, ?s) = Some r"
    "\<And>k' s'. r = Ok (k', s') \<Longrightarrow>
        prp_ok s' \<and> prp_data s' = map of_nat (concat (map (region_pages bpp) regions))"
    using assms(4) by auto
  show ?thesis
  proof (cases r)
    case (Ok ks)
    obtain k' s where ks: "ks = (k', s)" by (cases ks)
    note s = r(2) [OF Ok [unfolded ks]]
    have two: "prp_first s = [prp_first s ! 0, prp_first s ! 1]"
      using s by (auto simp: prp_ok_def length_Suc_conv numeral_2_eq_2)
    let ?ws = "(cmd_words c)[6 := ucast (prp_first s ! 0), 7 := ucast (drop_bit 32 (prp_first s ! 0)),
      8 := ucast (prp_first s ! 1), 9 := ucast (drop_bit 32 (prp_first s ! 1))]"
    let ?c = "c\<lparr>cmd_words := ?ws, extra_data_ptr_buffers := prp_extra s\<rparr>"
    have res: "set_data_ptrs regions bpp k c = Some (Ok (k', ?c))"
      using False r(1) Ok ks assms(3) by (simp add: set_data_ptrs_def set_qword_Ok)
    have "[qword_at 6 ?c, qword_at 8 ?c] = prp_first s"
      using assms(3) by (subst two) (simp add: qword_at_def qword_split)
    then show ?thesis using s res assms(3) unfolding prp_ok_def prp_cur_eq
      by (auto simp: Let_def)
  qed (use r(1) False in \<open>auto simp: set_data_ptrs_def outcome_simps\<close>)
qed

text \<open>A transfer of one page needs no page of entries.\<close>

lemma set_data_ptrs_one_page:
  "\<exists>c'. set_data_ptrs [(0x5000, 8)] 8 k empty_command = Some (Ok (k, c')) \<and> extra_data_ptr_buffers c' = []"
  by (simp add: set_data_ptrs_def empty_command_def prp_region.simps prp_add_def prp_write_def prp_cur_def
      add_checked_def set_qword_Ok)

theorem set_data_ptrs_correct_witness:
  "\<forall>k. \<exists>c'. set_data_ptrs [(0x5000, 8)] 8 k empty_command = Some (Ok (k, c')) \<and>
     (\<exists>off < 2. take off [qword_at 6 c', qword_at 8 c'] = [0x5000])"
proof
  fix k
  obtain c' where c': "set_data_ptrs [(0x5000, 8)] 8 k empty_command = Some (Ok (k, c'))"
    "extra_data_ptr_buffers c' = []" using set_data_ptrs_one_page by blast
  have "\<exists>off < 2. take off [qword_at 6 c', qword_at 8 c'] = [0x5000]"
    using set_data_ptrs_correct [of 8 "[(0x5000, 8)]" empty_command k] c'
    by (simp add: empty_command_def region_pages_def div_ceil_def pa_add_def saturating_add_def flip: numeral_2_eq_2)
  then show "\<exists>c'. set_data_ptrs [(0x5000, 8)] 8 k empty_command = Some (Ok (k, c')) \<and>
     (\<exists>off < 2. take off [qword_at 6 c', qword_at 8 c'] = [0x5000])" using c'(1) by blast
qed

end
