(* ===== verification/Nvme_Queue.thy ===== *)
theory Nvme_Queue
  imports Nvme_Command
begin

text \<open>
  Submission and completion queues of the NVMe driver (\<open>kernel/src/storage/nvme/queue.rs\<close>): rings in
  physical memory shared with the device. The head of a submission queue is a shared cell
  (\<open>Arc<Mutex<u16>>\<close>) that the completion queue updates; cells are indices into \<open>ne_cells\<close>. The device is
  the environment: it writes the slots of a completion queue and reads the doorbells.
\<close>

section \<open>Completions\<close>

record completion =
  cmp_cmd :: "32 word"
  cmp_res :: "32 word"
  cmp_head :: "16 word"
  cmp_sqid :: "16 word"
  cmp_id :: "16 word"
  cmp_status :: "16 word"

definition do_not_retry :: "16 word \<Rightarrow> bool" where "do_not_retry s = get_flag 15 s"
definition more :: "16 word \<Rightarrow> bool" where "more s = get_flag 14 s"
definition command_retry_delay :: "16 word \<Rightarrow> 16 word" where "command_retry_delay s = get_field 13 12 s"
definition status_code_type :: "16 word \<Rightarrow> 16 word" where "status_code_type s = get_field 11 9 s"
definition status_code :: "16 word \<Rightarrow> 16 word" where "status_code s = get_field 8 1 s"
definition phase_tag :: "16 word \<Rightarrow> bool" where "phase_tag s = get_flag 0 s"

datatype queue_create_error =
    QueueGeneric "16 word"
  | InvalidQueueId
  | InvalidQueueSize
  | InvalidInterruptVectorIndex
  | InvalidCompletionQueueId

datatype nvme_error = NvmeMemory memory_error | NvmeQueueCreate queue_create_error

section \<open>Queues\<close>

record submission_queue =
  sq_id :: "16 word"
  sq_memory :: physical_buffer
  sq_slots :: "32 word list list"
  sq_entry_count :: nat
  sq_tail :: nat
  sq_tail_doorbell :: virtual_address
  sq_doorbell_value :: nat
  sq_head :: nat
  sq_has_parent :: bool

record completion_queue =
  cq_id :: "16 word"
  cq_memory :: physical_buffer
  cq_slots :: "completion list"
  cq_entry_count :: nat
  cq_head :: nat
  cq_head_doorbell :: virtual_address
  cq_doorbell_value :: nat
  current_phase :: bool
  assoc_submit_queue_heads :: "16 word \<rightharpoonup> nat"
  cq_has_parent :: bool

text \<open>The state the queues of a device share: memory, the head cells, and the admin queues.\<close>

record nvme_env =
  ne_mem :: kmem
  ne_cells :: "nat list"
  ne_asq :: submission_queue
  ne_acq :: completion_queue

definition SUBMISSION_ENTRY_SIZE :: nat where "SUBMISSION_ENTRY_SIZE = 64"
definition COMPLETION_ENTRY_SIZE :: nat where "COMPLETION_ENTRY_SIZE = 16"

abbreviation default_options :: entry_options where
  "default_options \<equiv> \<lparr>read_only = False, el0_access = False\<rparr>"

text \<open>\<open>u16\<close> addition of the debug build.\<close>

definition add_u16 :: "nat \<Rightarrow> nat \<Rightarrow> ('e, nat) outcome" where
  "add_u16 a b = (if a + b < 2 ^ 16 then Ok (a + b) else Panic)"

text \<open>\<open>doorbell_base.add(index * (4 << doorbell_stride as usize))\<close>.\<close>

definition doorbell_address :: "virtual_address \<Rightarrow> nat \<Rightarrow> nat \<Rightarrow> ('e, virtual_address) outcome" where
  "doorbell_address doorbell_base index doorbell_stride =
     (if doorbell_stride < 64
      then bind_outcome (mul_checked index (4 * 2 ^ doorbell_stride mod usize_bound)) (\<lambda>off. Ok (va_add doorbell_base off))
      else Panic)"

definition zero_completion :: completion where
  "zero_completion = \<lparr>cmp_cmd = 0, cmp_res = 0, cmp_head = 0, cmp_sqid = 0, cmp_id = 0, cmp_status = 0\<rparr>"

subsection \<open>Submission queue\<close>

definition sq_new ::
  "16 word \<Rightarrow> nat \<Rightarrow> virtual_address \<Rightarrow> nat \<Rightarrow> completion_queue \<Rightarrow> bool \<Rightarrow> nvme_env \<Rightarrow>
   (memory_error \<times> nvme_env \<times> completion_queue, nvme_env \<times> completion_queue \<times> submission_queue) outcome" where
  "sq_new i entry_count doorbell_base doorbell_stride cq has_parent env =
     bind_outcome (doorbell_address doorbell_base (2 * unat i) doorbell_stride) (\<lambda>tail_doorbell.
     let head = length (ne_cells env);
         env = env\<lparr>ne_cells := ne_cells env @ [0]\<rparr>;
         cq = cq\<lparr>assoc_submit_queue_heads := (assoc_submit_queue_heads cq)(i \<mapsto> head)\<rparr>;
         page_count = div_ceil (entry_count * SUBMISSION_ENTRY_SIZE) PAGE_SIZE in
     bind_outcome (map_outcome_err (\<lambda>(e, k). (e, env\<lparr>ne_mem := k\<rparr>, cq))
         (pb_alloc_zeroed page_count default_options (ne_mem env))) (\<lambda>(k, b).
     Ok (env\<lparr>ne_mem := k\<rparr>, cq,
       \<lparr>sq_id = i, sq_memory = b, sq_slots = replicate (page_count * PAGE_SIZE div SUBMISSION_ENTRY_SIZE) (replicate 16 0),
        sq_entry_count = entry_count, sq_tail = 0, sq_tail_doorbell = tail_doorbell, sq_doorbell_value = 0,
        sq_head = head, sq_has_parent = has_parent\<rparr>)))"

definition sq_new_admin where
  "sq_new_admin entry_count doorbell_base doorbell_stride cq env =
     sq_new 0 entry_count doorbell_base doorbell_stride cq False env"

definition sq_full :: "submission_queue \<Rightarrow> nat list \<Rightarrow> ('e, bool) outcome" where
  "sq_full q cells = bind_outcome (add_u16 (sq_tail q) 1) (\<lambda>t. Ok (cells ! sq_head q = t))"

text \<open>A command owns the slot at the tail until it is submitted; the slot is cleared first.\<close>

definition sq_begin :: "submission_queue \<Rightarrow> nat list \<Rightarrow> ('e, nvme_command option) outcome" where
  "sq_begin q cells =
     bind_outcome (sq_full q cells) (\<lambda>full.
     if full then Ok None
     else if length (sq_slots q) \<le> sq_tail q then Panic
     else bind_outcome (add_u16 (sq_tail q) 1) (\<lambda>t.
       if sq_entry_count q = 0 then Panic
       else Ok (Some \<lparr>cmd_words = replicate 16 0, cmd_new_tail = t mod sq_entry_count q, extra_data_ptr_buffers = []\<rparr>)))"

definition cmd_submit ::
  "nvme_command \<Rightarrow> submission_queue \<Rightarrow> submission_queue \<times> (physical_buffer \<times> 64 word list) list" where
  "cmd_submit c q =
     (q\<lparr>sq_slots := (sq_slots q)[sq_tail q := cmd_words c], sq_tail := cmd_new_tail c, sq_doorbell_value := cmd_new_tail c\<rparr>,
      extra_data_ptr_buffers c)"

text \<open>\<open>begin().expect(..)\<close>, the setters \<open>f\<close> and \<open>submit()\<close> on the admin queue.\<close>

definition admin_command :: "(nvme_command \<Rightarrow> ('e, nvme_command) outcome) \<Rightarrow> nvme_env \<Rightarrow> ('e, nvme_env) outcome" where
  "admin_command f env =
     bind_outcome (sq_begin (ne_asq env) (ne_cells env)) (\<lambda>r.
     case r of None \<Rightarrow> Panic
     | Some c \<Rightarrow> bind_outcome (f c) (\<lambda>c. Ok (env\<lparr>ne_asq := fst (cmd_submit c (ne_asq env))\<rparr>)))"

definition sq_drop :: "submission_queue \<Rightarrow> nvme_env \<Rightarrow> ('e, nvme_env) outcome" where
  "sq_drop q env =
     (if sq_has_parent q then
        bind_outcome (admin_command (delete_io_submission_queue (sq_id q)) env) (\<lambda>env.
        bind_outcome (expect_ok (pb_drop (sq_memory q) (ne_mem env))) (\<lambda>k. Ok (env\<lparr>ne_mem := k\<rparr>)))
      else Panic)"

subsection \<open>Completion queue\<close>

definition cq_new ::
  "16 word \<Rightarrow> nat \<Rightarrow> virtual_address \<Rightarrow> nat \<Rightarrow> bool \<Rightarrow> kmem \<Rightarrow> (kmem \<times> completion_queue) km_outcome" where
  "cq_new i entry_count doorbell_base doorbell_stride has_parent k =
     bind_outcome (doorbell_address doorbell_base (2 * unat i + 1) doorbell_stride) (\<lambda>head_doorbell.
     let page_count = div_ceil (entry_count * COMPLETION_ENTRY_SIZE) PAGE_SIZE in
     bind_outcome (pb_alloc_zeroed page_count default_options k) (\<lambda>(k, b).
     Ok (k, \<lparr>cq_id = i, cq_memory = b, cq_slots = replicate (page_count * PAGE_SIZE div COMPLETION_ENTRY_SIZE) zero_completion,
        cq_entry_count = entry_count, cq_head = 0, cq_head_doorbell = head_doorbell, cq_doorbell_value = 0,
        current_phase = True, assoc_submit_queue_heads = Map.empty, cq_has_parent = has_parent\<rparr>)))"

definition cq_new_admin where
  "cq_new_admin entry_count doorbell_base doorbell_stride k = cq_new 0 entry_count doorbell_base doorbell_stride False k"

text \<open>The part of \<open>pop\<close> that advances the head: the phase flips when the head wraps around.\<close>

definition cq_advance :: "completion_queue \<Rightarrow> ('e, completion_queue) outcome" where
  "cq_advance q =
     bind_outcome (add_u16 (cq_head q) 1) (\<lambda>h.
     Ok (if cq_entry_count q \<le> h then q\<lparr>cq_head := 0, current_phase := \<not> current_phase q\<rparr> else q\<lparr>cq_head := h\<rparr>))"

definition cq_pop ::
  "completion_queue \<Rightarrow> nat list \<Rightarrow> ('e, completion option \<times> completion_queue \<times> nat list) outcome" where
  "cq_pop q cells =
     (if length (cq_slots q) \<le> cq_head q then Panic
      else
        let cmp = cq_slots q ! cq_head q in
        if phase_tag (cmp_status cmp) = current_phase q then
          bind_outcome (cq_advance q) (\<lambda>q.
          case assoc_submit_queue_heads q (cmp_sqid cmp) of
            None \<Rightarrow> Panic
          | Some cell \<Rightarrow>
              Ok (Some cmp, q\<lparr>cq_doorbell_value := cq_head q\<rparr>, cells[cell := unat (cmp_head cmp)]))
        else Ok (None, q, cells))"

text \<open>
  Between two looks at the queue the device may write its slots: \<open>dev t\<close> is what it does before the
  look number \<open>t\<close>.
\<close>

type_synonym cq_writes = "nat \<Rightarrow> completion list \<Rightarrow> completion list"

partial_function (option) busy_wait_for_completion ::
  "cq_writes \<Rightarrow> nat \<Rightarrow> completion_queue \<Rightarrow> nat list \<Rightarrow>
   (unit, completion \<times> completion_queue \<times> nat list) outcome option" where
  "busy_wait_for_completion dev t q cells =
     (case cq_pop (q\<lparr>cq_slots := dev t (cq_slots q)\<rparr>) cells of
        Ok (Some c, q', cells') \<Rightarrow> Some (Ok (c, q', cells'))
      | Ok (None, q', cells') \<Rightarrow> busy_wait_for_completion dev (t + 1) q' cells'
      | Err e \<Rightarrow> Some (Err e)
      | Panic \<Rightarrow> Some Panic)"

definition cq_drop :: "completion_queue \<Rightarrow> nvme_env \<Rightarrow> ('e, nvme_env) outcome" where
  "cq_drop q env =
     (if cq_has_parent q then
        bind_outcome (admin_command (delete_io_completion_queue (cq_id q)) env) (\<lambda>env.
        bind_outcome (expect_ok (pb_drop (cq_memory q) (ne_mem env))) (\<lambda>k. Ok (env\<lparr>ne_mem := k\<rparr>)))
      else Panic)"

subsection \<open>Creating I/O queues\<close>

definition wait_admin :: "cq_writes \<Rightarrow> nvme_env \<Rightarrow> (unit, completion \<times> nvme_env) outcome option" where
  "wait_admin dev env =
     map_option (\<lambda>r. bind_outcome r (\<lambda>(c, q, cells). Ok (c, env\<lparr>ne_acq := q, ne_cells := cells\<rparr>)))
       (busy_wait_for_completion dev 0 (ne_acq env) (ne_cells env))"

text \<open>How the completion of a create command is read; \<open>None\<close> is the panic on an unexpected status.\<close>

definition create_status ::
  "(16 word \<Rightarrow> queue_create_error option) \<Rightarrow> completion \<Rightarrow> queue_create_error option option" where
  "create_status specific cmp =
     (let t = status_code_type (cmp_status cmp); code = status_code (cmp_status cmp) in
      if t = 0 then (if code = 0 then Some None else Some (Some (QueueGeneric code)))
      else if t = 1 then map_option Some (specific code)
      else None)"

definition sq_status :: "16 word \<Rightarrow> queue_create_error option" where
  "sq_status code = (if code = 1 then Some InvalidCompletionQueueId else if code = 2 then Some InvalidQueueId
     else if code = 8 then Some InvalidQueueSize else None)"

definition cq_status :: "16 word \<Rightarrow> queue_create_error option" where
  "cq_status code = (if code = 1 then Some InvalidQueueId else if code = 2 then Some InvalidQueueSize
     else if code = 8 then Some InvalidInterruptVectorIndex else None)"

text \<open>A queue whose creation the device refused goes out of scope: its destructor runs.\<close>

definition finish_create ::
  "(16 word \<Rightarrow> queue_create_error option) \<Rightarrow> (nvme_env \<Rightarrow> (unit, nvme_env) outcome) \<Rightarrow> 'q \<Rightarrow>
   (unit, completion \<times> nvme_env) outcome \<Rightarrow> (nvme_error \<times> nvme_env, nvme_env \<times> 'q) outcome" where
  "finish_create specific drop_queue q r =
     bind_outcome (expect_ok r) (\<lambda>(cmp, env).
     case create_status specific cmp of
       Some None \<Rightarrow> Ok (env, q)
     | Some (Some e) \<Rightarrow> bind_outcome (expect_ok (drop_queue env)) (\<lambda>env. Err (NvmeQueueCreate e, env))
     | None \<Rightarrow> Panic)"

definition sq_new_io ::
  "16 word \<Rightarrow> nat \<Rightarrow> virtual_address \<Rightarrow> nat \<Rightarrow> completion_queue \<Rightarrow> queue_priority \<Rightarrow> cq_writes \<Rightarrow> nvme_env \<Rightarrow>
   (nvme_error \<times> nvme_env \<times> completion_queue, nvme_env \<times> completion_queue \<times> submission_queue) outcome option" where
  "sq_new_io i entry_count doorbell_base doorbell_stride cq priority dev env =
     (case bind_outcome (ensure (i > 0)) (\<lambda>_.
           bind_outcome (map_outcome_err (\<lambda>(e, env, cq). (NvmeMemory e, env, cq))
             (sq_new i entry_count doorbell_base doorbell_stride cq True env)) (\<lambda>(env, cq, s).
           bind_outcome (admin_command (\<lambda>c.
             bind_outcome (create_io_submission_queue i (sq_entry_count s) (cq_id cq) priority True c)
               (set_data_ptr_single (pb_phy_addr (sq_memory s)))) env) (\<lambda>env. Ok (env, cq, s)))) of
        Ok (env, cq, s) \<Rightarrow>
          map_option (\<lambda>r. map_outcome_err (\<lambda>(e, env). (e, env, cq)) (finish_create sq_status (sq_drop s) (cq, s) r))
            (wait_admin dev env)
      | Err e \<Rightarrow> Some (Err e)
      | Panic \<Rightarrow> Some Panic)"

definition cq_new_io ::
  "16 word \<Rightarrow> nat \<Rightarrow> virtual_address \<Rightarrow> nat \<Rightarrow> nat option \<Rightarrow> cq_writes \<Rightarrow> nvme_env \<Rightarrow>
   (nvme_error \<times> nvme_env, nvme_env \<times> completion_queue) outcome option" where
  "cq_new_io i entry_count doorbell_base doorbell_stride interrupt_index dev env =
     (case bind_outcome (ensure (i > 0)) (\<lambda>_.
           bind_outcome (map_outcome_err (\<lambda>(e, k). (NvmeMemory e, env\<lparr>ne_mem := k\<rparr>))
             (cq_new i entry_count doorbell_base doorbell_stride True (ne_mem env))) (\<lambda>(k, s).
           bind_outcome (admin_command (\<lambda>c.
             bind_outcome (create_io_completion_queue i (cq_entry_count s)
                 (of_nat (case interrupt_index of None \<Rightarrow> 0 | Some v \<Rightarrow> v)) (interrupt_index \<noteq> None) True c)
               (set_data_ptr_single (pb_phy_addr (cq_memory s)))) (env\<lparr>ne_mem := k\<rparr>)) (\<lambda>env. Ok (env, s)))) of
        Ok (env, s) \<Rightarrow> map_option (finish_create cq_status (cq_drop s) s) (wait_admin dev env)
      | Err e \<Rightarrow> Some (Err e)
      | Panic \<Rightarrow> Some Panic)"


section \<open>The device and the completion queue\<close>

text \<open>
  What the device does to a completion queue (NVMe base specification, completion queues): it writes
  the slot at its tail with its phase, advances, flips the phase at the end of the ring, and it posts
  only while the ring is not full as seen from the head doorbell.
\<close>

record cq_device =
  dev_tail :: nat
  dev_phase :: bool

definition device_full :: "cq_device \<Rightarrow> completion_queue \<Rightarrow> bool" where
  "device_full d q \<longleftrightarrow> (dev_tail d + 1) mod cq_entry_count q = cq_doorbell_value q"

definition tag_phase :: "cq_device \<Rightarrow> completion \<Rightarrow> completion" where
  "tag_phase d c = c\<lparr>cmp_status := set_flag 0 (dev_phase d) (cmp_status c)\<rparr>"

definition device_advance :: "nat \<Rightarrow> cq_device \<Rightarrow> cq_device" where
  "device_advance n d =
     (if dev_tail d + 1 = n then \<lparr>dev_tail = 0, dev_phase = (\<not> dev_phase d)\<rparr> else d\<lparr>dev_tail := dev_tail d + 1\<rparr>)"

text \<open>A completion queue just created, and its associated submission queues.\<close>

definition cq_fresh :: "completion_queue \<Rightarrow> nat list \<Rightarrow> bool" where
  "cq_fresh q cells \<longleftrightarrow> 0 < cq_entry_count q \<and> cq_entry_count q < 2 ^ 16 \<and> cq_entry_count q \<le> length (cq_slots q) \<and>
     (\<forall>c\<in>set (cq_slots q). \<not> phase_tag (cmp_status c)) \<and> cq_head q = 0 \<and> cq_doorbell_value q = 0 \<and> current_phase q"

text \<open>
  The queue shared by the driver and the device: the queue and its head cells, the device, what was
  posted so far and what was popped so far.
\<close>

inductive cq_reach ::
  "completion_queue \<Rightarrow> completion_queue \<Rightarrow> nat list \<Rightarrow> cq_device \<Rightarrow> completion list \<Rightarrow> completion list \<Rightarrow> bool"
  for q0 where
  created: "cq_fresh q0 cells \<Longrightarrow> cq_reach q0 q0 cells \<lparr>dev_tail = 0, dev_phase = True\<rparr> [] []"
| posted: "cq_reach q0 q cells d posted popped \<Longrightarrow> \<not> device_full d q \<Longrightarrow>
    cmp_sqid c \<in> dom (assoc_submit_queue_heads q) \<Longrightarrow>
    cq_reach q0 (q\<lparr>cq_slots := (cq_slots q)[dev_tail d := tag_phase d c]\<rparr>) cells
      (device_advance (cq_entry_count q) d) (posted @ [tag_phase d c]) popped"
| popped: "cq_reach q0 q cells d posted popped \<Longrightarrow>
    cq_pop q cells = (Ok (Some c, q', cells') :: (unit, completion option \<times> completion_queue \<times> nat list) outcome) \<Longrightarrow>
    cq_reach q0 q' cells' d posted (popped @ [c])"

text \<open>
  The invariant: both sides are where the number of completions they handled says, and the slots hold
  the last completions with the phase of their round.
\<close>

definition cq_inv :: "completion_queue \<Rightarrow> cq_device \<Rightarrow> completion list \<Rightarrow> completion list \<Rightarrow> bool" where
  "cq_inv q d posted popped \<longleftrightarrow>
     (let n = cq_entry_count q; P = length posted; C = length popped in
      0 < n \<and> n < 2 ^ 16 \<and> n \<le> length (cq_slots q) \<and> popped = take C posted \<and> C \<le> P \<and> P - C < n \<and>
      cq_head q = C mod n \<and> current_phase q = even (C div n) \<and> cq_doorbell_value q = C mod n \<and>
      dev_tail d = P mod n \<and> dev_phase d = even (P div n) \<and>
      (\<forall>j < P. P \<le> j + n \<longrightarrow> cq_slots q ! (j mod n) = posted ! j) \<and>
      (\<forall>j < P. phase_tag (cmp_status (posted ! j)) = even (j div n)) \<and>
      (\<forall>i. P \<le> i \<and> i < n \<longrightarrow> \<not> phase_tag (cmp_status (cq_slots q ! i))) \<and>
      (\<forall>c\<in>set posted. cmp_sqid c \<in> dom (assoc_submit_queue_heads q)))"

lemma Suc_mod_div:
  assumes "0 < (n :: nat)"
  shows "Suc k mod n = (if Suc (k mod n) = n then 0 else Suc (k mod n))"
    "Suc k div n = (if Suc (k mod n) = n then Suc (k div n) else k div n)"
  using assms by (auto simp: mod_Suc div_Suc)

lemma window_mod_le:
  assumes "i \<le> j" "j < i + n" "i mod n = j mod (n :: nat)"
  shows "i = j"
proof -
  have "n dvd j - i" using assms(1,3) mod_eq_dvd_iff_nat [of i j n] by simp
  then have "j - i = 0" using assms(1,2) nat_dvd_not_less [of "j - i" n] by linarith
  then show ?thesis using assms(1) by simp
qed

lemma window_mod_inj: "i < j + n \<Longrightarrow> j < i + n \<Longrightarrow> i mod n = j mod n \<Longrightarrow> i = (j :: nat)"
  using window_mod_le [of i j n] window_mod_le [of j i n] by linarith

lemma phase_tag_tag_phase [simp]: "phase_tag (cmp_status (tag_phase d c)) = dev_phase d"
  by (simp add: phase_tag_def tag_phase_def get_flag_def bit_set_flag)

lemma cmp_sqid_tag_phase [simp]: "cmp_sqid (tag_phase d c) = cmp_sqid c"
  by (simp add: tag_phase_def)

lemma cq_inv_created: "cq_fresh q cells \<Longrightarrow> cq_inv q \<lparr>dev_tail = 0, dev_phase = True\<rparr> [] []"
  by (auto simp: cq_fresh_def cq_inv_def Let_def)

lemma cq_inv_posted:
  assumes inv: "cq_inv q d posted popped" and "\<not> device_full d q" "cmp_sqid c \<in> dom (assoc_submit_queue_heads q)"
  shows "cq_inv (q\<lparr>cq_slots := (cq_slots q)[dev_tail d := tag_phase d c]\<rparr>) (device_advance (cq_entry_count q) d)
     (posted @ [tag_phase d c]) popped"
proof -
  let ?n = "cq_entry_count q" and ?P = "length posted" and ?C = "length popped"
  let ?slots = "(cq_slots q)[dev_tail d := tag_phase d c]"
  have n: "0 < ?n" "?n \<le> length (cq_slots q)" and PC: "?C \<le> ?P" "?P - ?C < ?n"
    and d: "dev_tail d = ?P mod ?n" "dev_phase d = even (?P div ?n)" "cq_doorbell_value q = ?C mod ?n"
    and slots: "\<And>j. j < ?P \<Longrightarrow> ?P \<le> j + ?n \<Longrightarrow> cq_slots q ! (j mod ?n) = posted ! j"
    using inv by (simp_all add: cq_inv_def Let_def)
  have "Suc ?P mod ?n \<noteq> ?C mod ?n"
    using assms(2) d(1,3) by (simp add: device_full_def mod_Suc_eq)
  then have room: "Suc ?P - ?C < ?n" using PC by (metis Suc_diff_le Suc_lessI le_add_diff_inverse le_SucI mod_add_self2)
  have adv: "dev_tail (device_advance ?n d) = Suc ?P mod ?n" "dev_phase (device_advance ?n d) = even (Suc ?P div ?n)"
    using Suc_mod_div [OF n(1), of ?P] d by (auto simp: device_advance_def)
  have "?P mod ?n < length (cq_slots q)" using n mod_less_divisor [OF n(1), of ?P] by linarith
  moreover have "?slots ! (j mod ?n) = posted ! j" if "j < ?P" "Suc ?P \<le> j + ?n" for j
  proof -
    have "j mod ?n \<noteq> dev_tail d" using window_mod_inj [of j ?P ?n] that d(1) by auto
    then show ?thesis using slots [of j] that by simp
  qed
  ultimately have new: "\<forall>j < Suc ?P. Suc ?P \<le> j + ?n \<longrightarrow> ?slots ! (j mod ?n) = (posted @ [tag_phase d c]) ! j"
    using d(1) by (auto simp: nth_append less_Suc_eq)
  have old: "\<forall>i. Suc ?P \<le> i \<and> i < ?n \<longrightarrow> \<not> phase_tag (cmp_status (?slots ! i))"
    using inv d(1) by (auto simp: cq_inv_def Let_def)
  show ?thesis using inv assms(3) PC d room adv new old
    unfolding cq_inv_def by (auto simp: Let_def nth_append less_Suc_eq)
qed

lemma cq_pop_pending:
  assumes inv: "cq_inv q d posted popped" and pending: "length popped < length posted"
  defines "c \<equiv> posted ! length popped"
  shows "\<exists>q'. cq_pop q cells =
     (Ok (Some c, q', cells[the (assoc_submit_queue_heads q (cmp_sqid c)) := unat (cmp_head c)])
       :: ('e, completion option \<times> completion_queue \<times> nat list) outcome) \<and>
     cq_inv q' d posted (popped @ [c])"
proof -
  let ?n = "cq_entry_count q" and ?P = "length posted" and ?C = "length popped"
  have n: "0 < ?n" "?n < 2 ^ 16" "?n \<le> length (cq_slots q)" and PC: "?P - ?C < ?n"
    and h: "cq_head q = ?C mod ?n" "current_phase q = even (?C div ?n)"
    and slots: "\<And>j. j < ?P \<Longrightarrow> ?P \<le> j + ?n \<Longrightarrow> cq_slots q ! (j mod ?n) = posted ! j"
    and phase: "phase_tag (cmp_status c) = even (?C div ?n)"
    and dom: "cmp_sqid c \<in> dom (assoc_submit_queue_heads q)"
    using inv pending by (simp_all add: cq_inv_def Let_def c_def)
  have c: "cq_slots q ! cq_head q = c" using slots [of ?C] pending PC h(1) by (simp add: c_def)
  have lt: "?C mod ?n < ?n" using n(1) by simp
  have small: "?C mod ?n + 1 < 2 ^ 16" using lt n(2) by linarith
  have bound: "?C mod ?n < length (cq_slots q)" using lt n(3) by linarith
  let ?q = "if ?n \<le> ?C mod ?n + 1 then q\<lparr>cq_head := 0, current_phase := \<not> current_phase q\<rparr> else q\<lparr>cq_head := ?C mod ?n + 1\<rparr>"
  have adv: "cq_advance q = (Ok ?q :: ('e, completion_queue) outcome)"
    using small h(1) by (simp add: cq_advance_def add_u16_def)
  obtain cell where cell: "assoc_submit_queue_heads q (cmp_sqid c) = Some cell" using dom by blast
  have pop: "cq_pop q cells = (Ok (Some c, ?q\<lparr>cq_doorbell_value := cq_head ?q\<rparr>, cells[cell := unat (cmp_head c)])
      :: ('e, completion option \<times> completion_queue \<times> nat list) outcome)"
    using adv c bound h phase cell by (auto simp: cq_pop_def Let_def)
  have "popped @ [c] = take (Suc ?C) posted"
    using inv pending by (simp add: cq_inv_def Let_def c_def take_Suc_conv_app_nth)
  moreover have "cq_head ?q = Suc ?C mod ?n" "current_phase ?q = even (Suc ?C div ?n)"
    using Suc_mod_div [OF n(1), of ?C] lt h by auto
  ultimately have "cq_inv (?q\<lparr>cq_doorbell_value := cq_head ?q\<rparr>) d posted (popped @ [c])"
    using inv pending PC by (auto simp: cq_inv_def Let_def)
  then show ?thesis using pop cell by auto
qed

lemma cq_pop_empty:
  assumes inv: "cq_inv q d posted popped" and none: "length popped = length posted"
  shows "cq_pop q cells = (Ok (None, q, cells) :: ('e, completion option \<times> completion_queue \<times> nat list) outcome)"
proof -
  let ?n = "cq_entry_count q" and ?P = "length posted"
  have n: "0 < ?n" "?n \<le> length (cq_slots q)" and h: "cq_head q = ?P mod ?n" "current_phase q = even (?P div ?n)"
    using inv none by (simp_all add: cq_inv_def Let_def)
  have "phase_tag (cmp_status (cq_slots q ! (?P mod ?n))) \<noteq> even (?P div ?n)"
  proof (cases "?P < ?n")
    case True
    then show ?thesis using inv by (simp add: cq_inv_def Let_def)
  next
    case False
    then obtain j where j: "?P = j + ?n" by (metis add.commute le_add_diff_inverse not_less)
    have "cq_slots q ! (j mod ?n) = posted ! j" "phase_tag (cmp_status (posted ! j)) = even (j div ?n)"
      using inv n(1) j by (simp_all add: cq_inv_def Let_def)
    then show ?thesis using n(1) by (simp add: j div_add_self2)
  qed
  moreover have "?P mod ?n < length (cq_slots q)" using n mod_less_divisor [OF n(1), of ?P] by linarith
  ultimately show ?thesis using h by (simp add: cq_pop_def Let_def)
qed

lemma cq_reach_inv: "cq_reach q0 q cells d posted popped \<Longrightarrow> cq_inv q d posted popped"
proof (induction rule: cq_reach.induct)
  case (popped q cells d posted popped c q' cells')
  show ?case
  proof (cases "length popped < length posted")
    case True
    then show ?thesis using cq_pop_pending [where ?'e = unit, OF popped.IH True, of cells] popped.hyps(2) by auto
  next
    case False
    then have "length popped = length posted" using popped.IH by (simp add: cq_inv_def Let_def)
    then show ?thesis using cq_pop_empty [where ?'e = unit, OF popped.IH, of cells] popped.hyps(2) by simp
  qed
qed (blast intro: cq_inv_created cq_inv_posted)+

text \<open>The queue a driver creates is fresh, and associating submission queues keeps it so.\<close>

lemma cq_new_fresh:
  assumes "cq_new i n base stride par k = Ok (k', q)" "0 < n" "n < 2 ^ 16"
  shows "cq_fresh q cells"
proof -
  let ?m = "div_ceil (n * COMPLETION_ENTRY_SIZE) PAGE_SIZE"
  have "n * 16 \<le> ?m * PAGE_SIZE"
    using div_ceil_bounds(1) [of PAGE_SIZE "n * 16"] by (simp add: PAGE_SIZE_def COMPLETION_ENTRY_SIZE_def)
  then have "n \<le> ?m * PAGE_SIZE div 16" by (simp add: less_eq_div_iff_mult_less_eq)
  then show ?thesis using assms
    by (auto simp: cq_new_def cq_fresh_def outcome_simps Let_def zero_completion_def phase_tag_def get_flag_def
        COMPLETION_ENTRY_SIZE_def)
qed

lemma sq_new_keeps_fresh:
  "sq_new i n base stride q par env = Ok (env', q', s) \<Longrightarrow> cq_fresh q cells \<Longrightarrow> cq_fresh q' cells'"
  by (auto simp: sq_new_def cq_fresh_def outcome_simps Let_def)

text \<open>
  C32. The completion ring with its phase bit is a queue: whatever the device posts and the driver pops, in
  any order of steps from a queue just created, the completions popped are the first ones posted, fewer
  than the size of the ring are waiting, and \<open>pop\<close> never panics: it returns the oldest waiting completion
  and stores the head the completion reports in the cell of its submission queue, or nothing when none
  is waiting.
\<close>

theorem completion_queue_fifo:
  assumes "cq_reach q0 q cells d posted popped"
  shows "\<exists>waiting q'. posted = popped @ waiting \<and> length waiting < cq_entry_count q \<and>
     cq_pop q cells =
       (Ok (case waiting of
              [] \<Rightarrow> (None, q, cells)
            | c # _ \<Rightarrow> (Some c, q', cells[the (assoc_submit_queue_heads q (cmp_sqid c)) := unat (cmp_head c)]))
          :: ('e, completion option \<times> completion_queue \<times> nat list) outcome)"
proof -
  note inv = cq_reach_inv [OF assms]
  have "popped = take (length popped) posted" using inv by (simp add: cq_inv_def Let_def)
  then obtain waiting where w: "posted = popped @ waiting" by (metis append_take_drop_id)
  then have len: "length waiting < cq_entry_count q" using inv by (simp add: cq_inv_def Let_def)
  show ?thesis
  proof (cases waiting)
    case Nil
    then show ?thesis using cq_pop_empty [where ?'e = 'e, OF inv, of cells] w len by auto
  next
    case (Cons c rest)
    then show ?thesis using cq_pop_pending [where ?'e = 'e, OF inv, of cells] w len by auto
  qed
qed

definition example_cq :: completion_queue where
  "example_cq = \<lparr>cq_id = 1, cq_memory = \<lparr>pb_phy_addr = 0, pb_vir_addr = 0, pb_page_count = 1\<rparr>,
     cq_slots = replicate 4 zero_completion, cq_entry_count = 2, cq_head = 0, cq_head_doorbell = 0, cq_doorbell_value = 0,
     current_phase = True, assoc_submit_queue_heads = [1 \<mapsto> 0], cq_has_parent = True\<rparr>"

lemma example_cq_fresh: "cq_fresh example_cq cells"
  by (simp add: cq_fresh_def example_cq_def zero_completion_def phase_tag_def get_flag_def)

theorem completion_queue_fifo_witness:
  "\<exists>q' cells. cq_pop (example_cq\<lparr>cq_slots := (cq_slots example_cq)[0 := zero_completion\<lparr>cmp_sqid := 1, cmp_status := 1\<rparr>]\<rparr>) [0] =
     (Ok (Some (zero_completion\<lparr>cmp_sqid := 1, cmp_status := 1\<rparr>), q', cells)
       :: (unit, completion option \<times> completion_queue \<times> nat list) outcome)"
proof -
  let ?d = "\<lparr>dev_tail = 0, dev_phase = True\<rparr>"
  have tag: "tag_phase ?d (zero_completion\<lparr>cmp_sqid := 1\<rparr>) = zero_completion\<lparr>cmp_sqid := 1, cmp_status := 1\<rparr>"
    by (simp add: tag_phase_def zero_completion_def set_flag_def set_bit_eq)
  have "cq_reach example_cq
      (example_cq\<lparr>cq_slots := (cq_slots example_cq)[dev_tail ?d := tag_phase ?d (zero_completion\<lparr>cmp_sqid := 1\<rparr>)]\<rparr>) [0]
      (device_advance (cq_entry_count example_cq) ?d) ([] @ [tag_phase ?d (zero_completion\<lparr>cmp_sqid := 1\<rparr>)]) []"
    by (rule cq_reach.posted [OF cq_reach.created [OF example_cq_fresh]])
      (simp_all add: device_full_def example_cq_def)
  from completion_queue_fifo [where ?'e = unit, OF this] show ?thesis by (auto simp: tag)
qed

section \<open>Filling a submission queue\<close>

text \<open>Commands with the given words submitted one after the other, while no completion arrives.\<close>

fun submit_all :: "32 word list list \<Rightarrow> submission_queue \<Rightarrow> nat list \<Rightarrow> ('e, submission_queue option) outcome" where
  "submit_all [] q cells = Ok (Some q)"
| "submit_all (ws # wss) q cells =
     bind_outcome (sq_begin q cells) (\<lambda>r.
     case r of None \<Rightarrow> Ok None
     | Some c \<Rightarrow> submit_all wss (fst (cmd_submit (c\<lparr>cmd_words := ws\<rparr>) q)) cells)"

lemma submit_all_from:
  assumes "2 \<le> sq_entry_count q" "sq_entry_count q < 2 ^ 16" "sq_entry_count q \<le> length (sq_slots q)"
    "cells ! sq_head q = 0" "sq_tail q + length wss \<le> sq_entry_count q"
  shows "\<exists>q'. submit_all wss q cells = (Ok (Some q') :: ('e, submission_queue option) outcome) \<and>
     sq_tail q' = (if wss = [] then sq_tail q else (sq_tail q + length wss) mod sq_entry_count q) \<and>
     (wss \<noteq> [] \<longrightarrow> sq_doorbell_value q' = sq_tail q') \<and>
     sq_slots q' = take (sq_tail q) (sq_slots q) @ wss @ drop (sq_tail q + length wss) (sq_slots q) \<and>
     sq_head q' = sq_head q \<and> sq_entry_count q' = sq_entry_count q"
  using assms
proof (induction wss arbitrary: q)
  case Nil
  then show ?case by simp
next
  case (Cons ws wss)
  let ?n = "sq_entry_count q" and ?t = "sq_tail q"
  let ?q = "q\<lparr>sq_slots := (sq_slots q)[?t := ws], sq_tail := Suc ?t mod ?n, sq_doorbell_value := Suc ?t mod ?n\<rparr>"
  have t: "?t < ?n" "?t < length (sq_slots q)" "Suc ?t < 2 ^ 16" using Cons.prems by simp_all
  have step: "submit_all (ws # wss) q cells = (submit_all wss ?q cells :: ('e, submission_queue option) outcome)"
    using Cons.prems t by (simp add: sq_begin_def sq_full_def add_u16_def cmd_submit_def)
  have slot: "take (Suc ?t) ((sq_slots q)[?t := ws]) = take ?t (sq_slots q) @ [ws]"
    using t(2) by (simp add: take_Suc_conv_app_nth)
  show ?case
  proof (cases "wss = []")
    case True
    then show ?thesis using step t(2) by (simp add: upd_conv_take_nth_drop del: submit_all.simps(2))
  next
    case False
    then have "Suc ?t < ?n" using Cons.prems(5) by (cases wss) simp_all
    then show ?thesis using Cons.IH [of ?q] Cons.prems step slot False
      by (simp del: submit_all.simps)
  qed
qed

text \<open>
  C33. Commands submitted to a queue just created land in its slots in order and the doorbell follows the
  tail, up to the size of the queue. The last of them, which fills the ring, is accepted as well: the
  test for a full queue does not wrap around, so the tail meets the head and the ring reads as empty.
\<close>

theorem submission_queue_fills:
  assumes "2 \<le> sq_entry_count q" "sq_entry_count q < 2 ^ 16" "sq_entry_count q \<le> length (sq_slots q)"
    "sq_tail q = 0" "cells ! sq_head q = 0" "wss \<noteq> []" "length wss \<le> sq_entry_count q"
  shows "\<exists>q'. submit_all wss q cells = (Ok (Some q') :: ('e, submission_queue option) outcome) \<and>
     take (length wss) (sq_slots q') = wss \<and> sq_doorbell_value q' = sq_tail q' \<and>
     sq_tail q' = (if length wss = sq_entry_count q then cells ! sq_head q else length wss)"
  using submit_all_from [of q cells wss, where ?'e = 'e] assms by auto

definition example_sq :: submission_queue where
  "example_sq = \<lparr>sq_id = 1, sq_memory = \<lparr>pb_phy_addr = 0, pb_vir_addr = 0, pb_page_count = 1\<rparr>,
     sq_slots = replicate 4 (replicate 16 0), sq_entry_count = 2, sq_tail = 0, sq_tail_doorbell = 0, sq_doorbell_value = 0,
     sq_head = 0, sq_has_parent = True\<rparr>"

theorem submission_queue_fills_witness:
  "\<exists>q'. submit_all [replicate 16 1, replicate 16 2] example_sq [0] = (Ok (Some q') :: (unit, submission_queue option) outcome)
     \<and> sq_tail q' = 0"
  using submission_queue_fills [where ?'e = unit, of example_sq "[0]" "[replicate 16 1, replicate 16 2]"]
  by (auto simp: example_sq_def simp del: submit_all.simps)

end
