(* ===== verification/Nvme_Interrupt.thy ===== *)
theory Nvme_Interrupt
  imports Nvme_Queue "HOL-Library.Multiset"
begin

text \<open>
  From an I/O request to its completion (\<open>kernel/src/storage/nvme/interrupt.rs\<close> and \<open>block_store.rs\<close>): command
  identifiers, the futures that wait for them, the interrupt handler that hands completions over, and
  the block store on top. The table of pending completions is a \<open>CHashMap\<close>, which refines a finite map
  (theory \<open>Shard_Map\<close>), and is modelled as that map. Polling and the handler run with interrupts disabled
  on one core, so each is one step.
\<close>

section \<open>Futures and the interrupt handler\<close>

datatype pending_completion = PC_waiting nat | PC_ready completion

type_synonym pending_map = "16 word \<rightharpoonup> pending_completion"

record completion_future =
  fut_cmd_id :: "16 word"
  extra_data_ptr_pages_to_drop :: "(physical_buffer \<times> 64 word list) list"

text \<open>\<open>poll\<close> with the waker of its context; \<open>None\<close> is \<open>Poll::Pending\<close>.\<close>

definition future_poll :: "nat \<Rightarrow> completion_future \<Rightarrow> pending_map \<Rightarrow> completion option \<times> pending_map" where
  "future_poll waker f pm =
     (let i = fut_cmd_id f; pc = pm i; pm = pm(i := None) in
      case pc of
        None \<Rightarrow> (None, pm(i \<mapsto> PC_waiting waker))
      | Some (PC_waiting _) \<Rightarrow> (None, pm(i \<mapsto> PC_waiting waker))
      | Some (PC_ready cmp) \<Rightarrow> (Some cmp, pm))"

record completion_queue_handle =
  next_cmd_id :: "16 word"
  cqh_int_id :: nat

definition wait_for_completion ::
  "completion_queue_handle \<Rightarrow> nvme_command \<Rightarrow> submission_queue \<Rightarrow>
   ('e, completion_queue_handle \<times> submission_queue \<times> completion_future) outcome" where
  "wait_for_completion h cmd q =
     (let cmd_id = next_cmd_id h; h = h\<lparr>next_cmd_id := next_cmd_id h + 1\<rparr> in
      bind_outcome (set_command_id cmd_id cmd) (\<lambda>cmd.
      let (q, pages) = cmd_submit cmd q in
      Ok (h, q, \<lparr>fut_cmd_id = cmd_id, extra_data_ptr_pages_to_drop = pages\<rparr>)))"

text \<open>The handler; the wakers it wakes are its last result.\<close>

definition handle_interrupt ::
  "completion_queue \<Rightarrow> nat list \<Rightarrow> pending_map \<Rightarrow>
   ('e, completion_queue \<times> nat list \<times> pending_map \<times> nat list) outcome" where
  "handle_interrupt q cells pm =
     bind_outcome (cq_pop q cells) (\<lambda>(r, q, cells).
     case r of
       None \<Rightarrow> Ok (q, cells, pm, [])
     | Some cmp \<Rightarrow>
         (case pm (cmp_id cmp) of
            Some (PC_waiting w) \<Rightarrow> Ok (q, cells, pm(cmp_id cmp \<mapsto> PC_ready cmp), [w])
          | Some (PC_ready _) \<Rightarrow> Panic
          | None \<Rightarrow> Ok (q, cells, pm(cmp_id cmp \<mapsto> PC_ready cmp), [])))"

text \<open>
  Registering a completion queue: the handler table maps the interrupt to the queue and its pending
  table, and the interrupt controller receives a list of calls.
\<close>

datatype ic_call =
    Set_target_cpu nat nat
  | Set_priority nat nat
  | Set_config_edge nat
  | Clear_pending nat
  | Set_enable nat bool

definition enable_interrupts :: "nat \<Rightarrow> ic_call list" where
  "enable_interrupts int_id =
     [Set_target_cpu int_id 1, Set_priority int_id 0, Set_config_edge int_id, Clear_pending int_id, Set_enable int_id True]"

type_synonym handler_table = "nat \<rightharpoonup> completion_queue \<times> pending_map"

text \<open>A handler that is replaced or removed takes its completion queue with it.\<close>

definition drop_handler :: "nat \<Rightarrow> handler_table \<Rightarrow> nvme_env \<Rightarrow> ('e, nvme_env) outcome" where
  "drop_handler int_id handlers env =
     (case handlers int_id of None \<Rightarrow> Ok env | Some (q, _) \<Rightarrow> cq_drop q env)"

definition register_completion_queue ::
  "nat \<Rightarrow> completion_queue \<Rightarrow> handler_table \<Rightarrow> nvme_env \<Rightarrow>
   ('e, handler_table \<times> nvme_env \<times> ic_call list \<times> completion_queue_handle) outcome" where
  "register_completion_queue int_id qu handlers env =
     bind_outcome (drop_handler int_id handlers env) (\<lambda>env.
     Ok (handlers(int_id \<mapsto> (qu, Map.empty)), env, enable_interrupts int_id, \<lparr>next_cmd_id = 0, cqh_int_id = int_id\<rparr>))"

definition cqh_drop :: "completion_queue_handle \<Rightarrow> handler_table \<Rightarrow> nvme_env \<Rightarrow> ('e, handler_table \<times> nvme_env) outcome" where
  "cqh_drop h handlers env =
     bind_outcome (drop_handler (cqh_int_id h) handlers env) (\<lambda>env. Ok (handlers(cqh_int_id h := None), env))"

section \<open>The block store of a namespace\<close>

record namespace_block_store =
  nbs_total_size :: nat
  nbs_capacity :: nat
  nbs_utilitization :: nat
  nbs_namespace_id :: "32 word"
  supported_block_size :: nat
  io_sq :: submission_queue
  io_cq :: completion_queue_handle

fun sum_checked :: "nat list \<Rightarrow> ('e, nat) outcome" where
  "sum_checked [] = Ok 0"
| "sum_checked (n # ns) = bind_outcome (sum_checked ns) (add_checked n)"

text \<open>
  A request up to its \<open>await\<close>: the block count, the command with its data pages, and the future of its
  completion. \<open>enc\<close> encodes the command for the total number of blocks.
\<close>

definition start_io ::
  "(16 word \<Rightarrow> nvme_command \<Rightarrow> (storage_error \<times> kmem, nvme_command) outcome) \<Rightarrow> (physical_address \<times> nat) list \<Rightarrow>
   nat list \<Rightarrow> kmem \<Rightarrow> namespace_block_store \<Rightarrow>
   (storage_error \<times> kmem, nat \<times> kmem \<times> namespace_block_store \<times> completion_future) outcome option" where
  "start_io enc addrs cells k bs =
     (case bind_outcome (sum_checked (map snd addrs)) (\<lambda>total_num_blocks.
           if 2 ^ 16 \<le> total_num_blocks
           then Err (BadVector ''cannot read more than 2^16 total blocks from NVMe device'' None, k)
           else bind_outcome (sq_begin (io_sq bs) cells) (\<lambda>r.
             case r of None \<Rightarrow> Panic
             | Some c \<Rightarrow> bind_outcome (set_namespace_id (nbs_namespace_id bs) c) (\<lambda>c.
                 if supported_block_size bs = 0 then Panic else Ok (total_num_blocks, c)))) of
        Ok (total_num_blocks, c) \<Rightarrow>
          map_option (\<lambda>r. bind_outcome r (\<lambda>(k, c).
              bind_outcome (enc (of_nat total_num_blocks) c) (\<lambda>c.
              bind_outcome (wait_for_completion (io_cq bs) c (io_sq bs)) (\<lambda>(h, q, f).
              Ok (total_num_blocks, k, bs\<lparr>io_sq := q, io_cq := h\<rparr>, f)))))
            (set_data_ptrs addrs (PAGE_SIZE div supported_block_size bs) k c)
      | Err e \<Rightarrow> Some (Err e)
      | Panic \<Rightarrow> Some Panic)"

definition read_blocks_start where
  "read_blocks_start source_addr destination_addrs = start_io (cmd_read source_addr) destination_addrs"

definition write_blocks_start where
  "write_blocks_start source_addrs destination_addr = start_io (cmd_write destination_addr) source_addrs"

text \<open>After the \<open>await\<close>.\<close>

definition finish_io :: "nat \<Rightarrow> completion \<Rightarrow> (storage_error, nat) outcome" where
  "finish_io total_num_blocks cmp =
     (if status_code_type (cmp_status cmp) = 0 \<and> status_code (cmp_status cmp) = 0
      then Ok total_num_blocks else Err DeviceError)"

section \<open>Commands in flight\<close>

text \<open>
  The driver and the device together. \<open>ios_device\<close> are the commands the device works on, \<open>ios_futures\<close> the
  live futures, \<open>ios_delivered\<close> what the futures returned.
\<close>

record io_sys =
  ios_handle :: completion_queue_handle
  ios_sq :: submission_queue
  ios_cq :: completion_queue
  ios_cells :: "nat list"
  ios_dev :: cq_device
  ios_pending :: pending_map
  ios_device :: "16 word set"
  ios_futures :: "16 word set"
  ios_posted :: "completion list"
  ios_popped :: "completion list"
  ios_delivered :: "(16 word \<times> completion) list"

definition ios_init :: "completion_queue \<Rightarrow> submission_queue \<Rightarrow> nat list \<Rightarrow> nat \<Rightarrow> io_sys" where
  "ios_init cq q cells int_id =
     \<lparr>ios_handle = \<lparr>next_cmd_id = 0, cqh_int_id = int_id\<rparr>, ios_sq = q, ios_cq = cq, ios_cells = cells,
      ios_dev = \<lparr>dev_tail = 0, dev_phase = True\<rparr>, ios_pending = Map.empty, ios_device = {}, ios_futures = {},
      ios_posted = [], ios_popped = [], ios_delivered = []\<rparr>"

text \<open>
  The steps: a request takes the next identifier, which no live future has; the device posts one
  completion for a command it works on; the interrupt handler runs; a future is polled.
\<close>

inductive io_reach :: "completion_queue \<Rightarrow> io_sys \<Rightarrow> bool" for cq0 where
  io_start: "cq_fresh cq0 cells \<Longrightarrow> io_reach cq0 (ios_init cq0 q cells int_id)"
| io_submit: "io_reach cq0 s \<Longrightarrow> next_cmd_id (ios_handle s) \<notin> ios_futures s \<Longrightarrow>
    wait_for_completion (ios_handle s) c (ios_sq s) =
      (Ok (h, q, f) :: (unit, completion_queue_handle \<times> submission_queue \<times> completion_future) outcome) \<Longrightarrow>
    io_reach cq0 (s\<lparr>ios_handle := h, ios_sq := q, ios_device := insert (fut_cmd_id f) (ios_device s),
      ios_futures := insert (fut_cmd_id f) (ios_futures s)\<rparr>)"
| io_post: "io_reach cq0 s \<Longrightarrow> \<not> device_full (ios_dev s) (ios_cq s) \<Longrightarrow>
    cmp_sqid c \<in> dom (assoc_submit_queue_heads (ios_cq s)) \<Longrightarrow> cmp_id c \<in> ios_device s \<Longrightarrow>
    io_reach cq0 (s\<lparr>ios_cq := (ios_cq s)\<lparr>cq_slots := (cq_slots (ios_cq s))[dev_tail (ios_dev s) := tag_phase (ios_dev s) c]\<rparr>,
      ios_dev := device_advance (cq_entry_count (ios_cq s)) (ios_dev s),
      ios_device := ios_device s - {cmp_id c}, ios_posted := ios_posted s @ [tag_phase (ios_dev s) c]\<rparr>)"
| io_interrupt: "io_reach cq0 s \<Longrightarrow>
    handle_interrupt (ios_cq s) (ios_cells s) (ios_pending s) =
      (Ok (cq, cells, pm, woken) :: (unit, completion_queue \<times> nat list \<times> pending_map \<times> nat list) outcome) \<Longrightarrow>
    cq_pop (ios_cq s) (ios_cells s) =
      (Ok (r, cq1, cells1) :: (unit, completion option \<times> completion_queue \<times> nat list) outcome) \<Longrightarrow>
    io_reach cq0 (s\<lparr>ios_cq := cq, ios_cells := cells, ios_pending := pm,
      ios_popped := ios_popped s @ (case r of None \<Rightarrow> [] | Some c \<Rightarrow> [c])\<rparr>)"
| io_poll: "io_reach cq0 s \<Longrightarrow> fut_cmd_id f \<in> ios_futures s \<Longrightarrow>
    future_poll waker f (ios_pending s) = (r, pm) \<Longrightarrow>
    io_reach cq0 (case r of
        None \<Rightarrow> s\<lparr>ios_pending := pm\<rparr>
      | Some c \<Rightarrow> s\<lparr>ios_pending := pm, ios_futures := ios_futures s - {fut_cmd_id f},
          ios_delivered := ios_delivered s @ [(fut_cmd_id f, c)]\<rparr>)"

text \<open>The completions waiting in the table for their future.\<close>

definition ready_ids :: "pending_map \<Rightarrow> 16 word set" where
  "ready_ids pm = {i. \<exists>c. pm i = Some (PC_ready c)}"

definition ready_completion :: "pending_completion option \<Rightarrow> completion" where
  "ready_completion p = (case p of Some (PC_ready c) \<Rightarrow> c | _ \<Rightarrow> zero_completion)"

definition ready_mset :: "pending_map \<Rightarrow> completion multiset" where
  "ready_mset pm = {# ready_completion (pm i). i \<in># mset_set (ready_ids pm) #}"

lemma ready_ids_simps [simp]:
  "ready_ids Map.empty = {}"
  "ready_ids (pm(i \<mapsto> PC_ready c)) = insert i (ready_ids pm)"
  "ready_ids (pm(i \<mapsto> PC_waiting w)) = ready_ids pm - {i}"
  "ready_ids (pm(i := None)) = ready_ids pm - {i}"
  by (auto simp: ready_ids_def)

lemma ready_mset_other: "i \<notin> ready_ids pm \<Longrightarrow> i \<notin> ready_ids (pm(i := v)) \<Longrightarrow> ready_mset (pm(i := v)) = ready_mset pm"
proof -
  assume i: "i \<notin> ready_ids pm" "i \<notin> ready_ids (pm(i := v))"
  then have "ready_ids (pm(i := v)) = ready_ids pm" by (auto simp: ready_ids_def split: if_splits)
  then show ?thesis using i(1) by (auto simp: ready_mset_def intro!: image_mset_cong)
qed

lemma ready_mset_ready: "i \<notin> ready_ids pm \<Longrightarrow> ready_mset (pm(i \<mapsto> PC_ready c)) = add_mset c (ready_mset pm)"
  by (auto simp: ready_mset_def ready_completion_def intro!: image_mset_cong)

lemma ready_mset_remove:
  assumes "pm i = Some (PC_ready c)"
  shows "ready_mset pm = add_mset c (ready_mset (pm(i := None)))"
proof -
  have "pm = (pm(i := None))(i \<mapsto> PC_ready c)" using assms by auto
  then show ?thesis using ready_mset_ready [of i "pm(i := None)" c] by simp
qed

text \<open>
  The invariant: the live futures are split into the commands at the device, those whose completion
  waits in the ring, and those whose completion is in the table; and no completion is lost.
\<close>

definition io_inv_with :: "io_sys \<Rightarrow> completion list \<Rightarrow> bool" where
  "io_inv_with s waiting \<longleftrightarrow>
     cq_inv (ios_cq s) (ios_dev s) (ios_posted s) (ios_popped s) \<and> ios_posted s = ios_popped s @ waiting \<and>
     distinct (map cmp_id waiting) \<and> ios_device s \<inter> cmp_id ` set waiting = {} \<and>
     ready_ids (ios_pending s) \<inter> (ios_device s \<union> cmp_id ` set waiting) = {} \<and>
     ios_futures s = ios_device s \<union> cmp_id ` set waiting \<union> ready_ids (ios_pending s) \<and>
     (\<forall>i c. ios_pending s i = Some (PC_ready c) \<longrightarrow> cmp_id c = i) \<and>
     dom (ios_pending s) \<subseteq> ios_futures s \<and>
     (\<forall>(i, c)\<in>set (ios_delivered s). cmp_id c = i) \<and>
     mset (ios_popped s) = ready_mset (ios_pending s) + mset (map snd (ios_delivered s))"

lemma io_inv_submit:
  assumes "io_inv_with s waiting" "i \<notin> ios_futures s"
  shows "io_inv_with (s\<lparr>ios_handle := h, ios_sq := q, ios_device := insert i (ios_device s),
      ios_futures := insert i (ios_futures s)\<rparr>) waiting"
  using assms by (auto simp: io_inv_with_def)

lemma io_inv_post:
  assumes "io_inv_with s waiting" "\<not> device_full (ios_dev s) (ios_cq s)"
    "cmp_sqid c \<in> dom (assoc_submit_queue_heads (ios_cq s))" "cmp_id c \<in> ios_device s"
  shows "io_inv_with (s\<lparr>ios_cq := (ios_cq s)\<lparr>cq_slots := (cq_slots (ios_cq s))[dev_tail (ios_dev s) := tag_phase (ios_dev s) c]\<rparr>,
      ios_dev := device_advance (cq_entry_count (ios_cq s)) (ios_dev s),
      ios_device := ios_device s - {cmp_id c}, ios_posted := ios_posted s @ [tag_phase (ios_dev s) c]\<rparr>)
    (waiting @ [tag_phase (ios_dev s) c])"
proof -
  have "cmp_id (tag_phase (ios_dev s) c) = cmp_id c" by (simp add: tag_phase_def)
  then show ?thesis
    using assms cq_inv_posted [of "ios_cq s" "ios_dev s" "ios_posted s" "ios_popped s" c] by (auto simp: io_inv_with_def)
qed

text \<open>What the handler does to a waiting completion.\<close>

lemma handle_interrupt_waiting:
  assumes "io_inv_with s (c # waiting)"
  shows "\<exists>cq cells. cq_pop (ios_cq s) (ios_cells s) =
      (Ok (Some c, cq, cells) :: ('e, completion option \<times> completion_queue \<times> nat list) outcome) \<and>
    handle_interrupt (ios_cq s) (ios_cells s) (ios_pending s) =
      (Ok (cq, cells, (ios_pending s)(cmp_id c \<mapsto> PC_ready c),
        case ios_pending s (cmp_id c) of Some (PC_waiting w) \<Rightarrow> [w] | _ \<Rightarrow> [])
        :: ('e, completion_queue \<times> nat list \<times> pending_map \<times> nat list) outcome) \<and>
    io_inv_with (s\<lparr>ios_cq := cq, ios_cells := cells, ios_pending := (ios_pending s)(cmp_id c \<mapsto> PC_ready c),
      ios_popped := ios_popped s @ [c]\<rparr>) waiting"
proof -
  have inv: "cq_inv (ios_cq s) (ios_dev s) (ios_posted s) (ios_popped s)" "ios_posted s = ios_popped s @ c # waiting"
    using assms unfolding io_inv_with_def by blast+
  obtain cq cells where pop: "cq_pop (ios_cq s) (ios_cells s) =
      (Ok (Some c, cq, cells) :: ('e, completion option \<times> completion_queue \<times> nat list) outcome)"
    "cq_inv cq (ios_dev s) (ios_posted s) (ios_popped s @ [c])"
    using cq_pop_pending [where ?'e = 'e, OF inv(1), of "ios_cells s"] inv(2) by auto
  have notready: "cmp_id c \<notin> ready_ids (ios_pending s)" using assms by (auto simp: io_inv_with_def)
  then have "handle_interrupt (ios_cq s) (ios_cells s) (ios_pending s) =
      (Ok (cq, cells, (ios_pending s)(cmp_id c \<mapsto> PC_ready c),
        case ios_pending s (cmp_id c) of Some (PC_waiting w) \<Rightarrow> [w] | _ \<Rightarrow> [])
        :: ('e, completion_queue \<times> nat list \<times> pending_map \<times> nat list) outcome)"
    using pop(1) by (auto simp: handle_interrupt_def ready_ids_def split: option.split pending_completion.split)
  moreover have "io_inv_with (s\<lparr>ios_cq := cq, ios_cells := cells, ios_pending := (ios_pending s)(cmp_id c \<mapsto> PC_ready c),
      ios_popped := ios_popped s @ [c]\<rparr>) waiting"
    using assms pop(2) ready_mset_ready [OF notready, of c] by (auto simp: io_inv_with_def)
  ultimately show ?thesis using pop(1) by blast
qed

lemma handle_interrupt_idle:
  assumes "io_inv_with s []"
  shows "cq_pop (ios_cq s) (ios_cells s) =
      (Ok (None, ios_cq s, ios_cells s) :: ('e, completion option \<times> completion_queue \<times> nat list) outcome)"
    "handle_interrupt (ios_cq s) (ios_cells s) (ios_pending s) =
      (Ok (ios_cq s, ios_cells s, ios_pending s, []) :: ('e, completion_queue \<times> nat list \<times> pending_map \<times> nat list) outcome)"
proof -
  have inv: "cq_inv (ios_cq s) (ios_dev s) (ios_posted s) (ios_popped s)" "ios_posted s = ios_popped s"
    using assms unfolding io_inv_with_def by auto
  show pop: "cq_pop (ios_cq s) (ios_cells s) =
      (Ok (None, ios_cq s, ios_cells s) :: ('e, completion option \<times> completion_queue \<times> nat list) outcome)"
    using cq_pop_empty [where ?'e = 'e, OF inv(1)] inv(2) by simp
  show "handle_interrupt (ios_cq s) (ios_cells s) (ios_pending s) =
      (Ok (ios_cq s, ios_cells s, ios_pending s, []) :: ('e, completion_queue \<times> nat list \<times> pending_map \<times> nat list) outcome)"
    by (simp add: handle_interrupt_def pop)
qed

lemma io_inv_interrupt:
  assumes inv: "io_inv_with s waiting"
    and h: "handle_interrupt (ios_cq s) (ios_cells s) (ios_pending s) =
      (Ok (cq, cells, pm, woken) :: (unit, completion_queue \<times> nat list \<times> pending_map \<times> nat list) outcome)"
    and p: "cq_pop (ios_cq s) (ios_cells s) =
      (Ok (r, cq1, cells1) :: (unit, completion option \<times> completion_queue \<times> nat list) outcome)"
  shows "\<exists>waiting'. io_inv_with (s\<lparr>ios_cq := cq, ios_cells := cells, ios_pending := pm,
      ios_popped := ios_popped s @ (case r of None \<Rightarrow> [] | Some c \<Rightarrow> [c])\<rparr>) waiting'"
proof (cases waiting)
  case Nil
  then show ?thesis using inv handle_interrupt_idle [where ?'e = unit, of s] h p by auto
next
  case (Cons c rest)
  then show ?thesis using inv handle_interrupt_waiting [where ?'e = unit, of s c rest] h p by auto
qed

lemma io_inv_poll:
  assumes inv: "io_inv_with s waiting" and f: "fut_cmd_id f \<in> ios_futures s"
    and poll: "future_poll waker f (ios_pending s) = (r, pm)"
  shows "io_inv_with (case r of
        None \<Rightarrow> s\<lparr>ios_pending := pm\<rparr>
      | Some c \<Rightarrow> s\<lparr>ios_pending := pm, ios_futures := ios_futures s - {fut_cmd_id f},
          ios_delivered := ios_delivered s @ [(fut_cmd_id f, c)]\<rparr>) waiting"
proof (cases "\<exists>c. ios_pending s (fut_cmd_id f) = Some (PC_ready c)")
  case True
  then obtain c where c: "ios_pending s (fut_cmd_id f) = Some (PC_ready c)" by blast
  then have "r = Some c" "pm = (ios_pending s)(fut_cmd_id f := None)" using poll by (auto simp: future_poll_def Let_def)
  moreover have "fut_cmd_id f \<in> ready_ids (ios_pending s)" using c by (auto simp: ready_ids_def)
  ultimately show ?thesis using inv ready_mset_remove [of "ios_pending s" "fut_cmd_id f" c, OF c] c by (auto simp: io_inv_with_def)
next
  case False
  then have "r = None" "pm = (ios_pending s)(fut_cmd_id f \<mapsto> PC_waiting waker)" using poll
    by (auto simp: future_poll_def Let_def split: option.splits pending_completion.splits)
  moreover have "fut_cmd_id f \<notin> ready_ids (ios_pending s)" using False by (auto simp: ready_ids_def)
  ultimately show ?thesis using inv f ready_mset_other [of "fut_cmd_id f" "ios_pending s" "Some (PC_waiting waker)"]
    by (auto simp: io_inv_with_def)
qed

lemma io_reach_inv: "io_reach cq0 s \<Longrightarrow> \<exists>waiting. io_inv_with s waiting"
proof (induction rule: io_reach.induct)
  case (io_start cells q int_id)
  then show ?case using cq_inv_created [OF io_start]
    by (intro exI [of _ "[]"]) (simp add: io_inv_with_def ios_init_def ready_mset_def)
next
  case (io_submit s c h q f)
  have "fut_cmd_id f = next_cmd_id (ios_handle s)"
    using io_submit.hyps(3) by (auto simp: wait_for_completion_def cmd_submit_def Let_def outcome_simps)
  then show ?case using io_submit.IH io_submit.hyps(2) io_inv_submit by metis
next
  case (io_post s c)
  then show ?case using io_inv_post by blast
next
  case (io_interrupt s cq cells pm woken r cq1 cells1)
  then show ?case using io_inv_interrupt by blast
next
  case (io_poll s f waker r pm)
  then show ?case using io_inv_poll by blast
qed

text \<open>
  C31. Every command gets its own completion, exactly once: along any interleaving of requests, the device,
  interrupts and polls, the completions the device posted are exactly those in the ring, in the table of
  pending completions, or already returned by a future, each once; a future returns only a completion
  with its identifier; a live future's command is at the device, in the ring or in the table; and the
  handler never panics, moving the oldest completion of the ring to the table and waking the waker that
  waits for it.
\<close>

theorem completion_delivery:
  assumes "io_reach cq0 s"
  shows "\<exists>waiting. ios_posted s = ios_popped s @ waiting \<and>
     mset (ios_posted s) = mset waiting + ready_mset (ios_pending s) + mset (map snd (ios_delivered s)) \<and>
     (\<forall>(i, c)\<in>set (ios_delivered s). cmp_id c = i) \<and>
     ios_futures s = ios_device s \<union> cmp_id ` set waiting \<union> ready_ids (ios_pending s) \<and>
     (\<exists>cq cells. handle_interrupt (ios_cq s) (ios_cells s) (ios_pending s) =
       (Ok (case waiting of
            [] \<Rightarrow> (cq, cells, ios_pending s, [])
          | c # _ \<Rightarrow> (cq, cells, (ios_pending s)(cmp_id c \<mapsto> PC_ready c),
              case ios_pending s (cmp_id c) of Some (PC_waiting w) \<Rightarrow> [w] | _ \<Rightarrow> []))
        :: ('e, completion_queue \<times> nat list \<times> pending_map \<times> nat list) outcome))"
proof -
  obtain waiting where inv: "io_inv_with s waiting" using io_reach_inv [OF assms] by blast
  have "\<exists>cq cells. handle_interrupt (ios_cq s) (ios_cells s) (ios_pending s) =
       (Ok (case waiting of
            [] \<Rightarrow> (cq, cells, ios_pending s, [])
          | c # _ \<Rightarrow> (cq, cells, (ios_pending s)(cmp_id c \<mapsto> PC_ready c),
              case ios_pending s (cmp_id c) of Some (PC_waiting w) \<Rightarrow> [w] | _ \<Rightarrow> []))
        :: ('e, completion_queue \<times> nat list \<times> pending_map \<times> nat list) outcome)"
  proof (cases waiting)
    case Nil
    then show ?thesis using inv handle_interrupt_idle(2) [where ?'e = 'e, of s] by auto
  next
    case (Cons c rest)
    then show ?thesis using inv handle_interrupt_waiting [where ?'e = 'e, of s c rest] by auto
  qed
  then show ?thesis using inv by (intro exI [of _ waiting]) (auto simp: io_inv_with_def)
qed

text \<open>A command in flight, its completion in the ring.\<close>

definition example_io :: io_sys where
  "example_io =
     (let s = ios_init example_cq example_sq [0] 48; c = tag_phase (ios_dev s) (zero_completion\<lparr>cmp_sqid := 1\<rparr>) in
      s\<lparr>ios_handle := \<lparr>next_cmd_id = 1, cqh_int_id = 48\<rparr>, ios_sq := fst (cmd_submit empty_command example_sq),
        ios_cq := example_cq\<lparr>cq_slots := (cq_slots example_cq)[0 := c]\<rparr>,
        ios_dev := \<lparr>dev_tail = 1, dev_phase = True\<rparr>, ios_device := {}, ios_futures := {0}, ios_posted := [c]\<rparr>)"

lemma replicate_update_same: "(replicate n x)[i := x] = replicate n x"
  by (induction n arbitrary: i) (auto split: nat.split)

lemma example_io_reach: "io_reach example_cq example_io"
proof -
  let ?s = "ios_init example_cq example_sq [0] 48"
  let ?f = "\<lparr>fut_cmd_id = 0, extra_data_ptr_pages_to_drop = []\<rparr>"
  let ?h = "\<lparr>next_cmd_id = 1, cqh_int_id = 48\<rparr>" and ?q = "fst (cmd_submit empty_command example_sq)"
  have "wait_for_completion (ios_handle ?s) empty_command (ios_sq ?s) =
      (Ok (?h, ?q, ?f) :: (unit, completion_queue_handle \<times> submission_queue \<times> completion_future) outcome)"
    by (simp add: wait_for_completion_def ios_init_def empty_command_def set_command_id_def set_cmd_bits_Ok
        cmd_submit_def set_field_def list_update_same_conv replicate_update_same)
  from io_submit [OF io_start [OF example_cq_fresh] _ this]
  have s1: "io_reach example_cq (?s\<lparr>ios_handle := ?h, ios_sq := ?q, ios_device := {0}, ios_futures := {0}\<rparr>)"
    by (simp add: ios_init_def)
  show ?thesis using io_post [OF s1, of "zero_completion\<lparr>cmp_sqid := 1\<rparr>"]
    by (simp add: example_io_def ios_init_def Let_def device_full_def device_advance_def zero_completion_def example_cq_def)
qed

theorem completion_delivery_witness:
  "\<exists>cq cells c. handle_interrupt (ios_cq example_io) (ios_cells example_io) (ios_pending example_io) =
     (Ok (cq, cells, [0 \<mapsto> PC_ready c], []) :: (unit, completion_queue \<times> nat list \<times> pending_map \<times> nat list) outcome)"
  using completion_delivery [where ?'e = unit, OF example_io_reach]
  by (auto simp: example_io_def ios_init_def Let_def tag_phase_def zero_completion_def)

end
