(* ===== verification/Block_Cache.thy ===== *)
theory Block_Cache
  imports Nvme_Command
begin

text \<open>
  The block cache (\<open>kernel/src/storage/block_cache.rs\<close>): chunks of blocks of a block store kept in a buffer,
  found by the tag and the chunk number of a block address. The store is a parameter, a record of its
  operations; the cache and its store are used by one task at a time here. An error carries the cache as
  the failed operation leaves it.
\<close>

unbundle bit_operations_syntax

section \<open>The block store\<close>

text \<open>
  \<open>so_read\<close> returns the bytes of a number of blocks from an address, \<open>so_write\<close> writes the bytes of whole
  blocks there; both return the store after the operation, also with an error.
\<close>

record 's store_ops =
  so_block_size :: nat
  so_read :: "nat \<Rightarrow> nat \<Rightarrow> 's \<Rightarrow> (storage_error \<times> 's, 8 word list \<times> 's) outcome"
  so_write :: "8 word list \<Rightarrow> nat \<Rightarrow> 's \<Rightarrow> (storage_error \<times> 's, 's) outcome"

section \<open>The cache\<close>

type_synonym chunk_metadata = "64 word"

definition md_tag :: "chunk_metadata \<Rightarrow> nat" where "md_tag md = unat (get_field 63 2 md)"
definition set_md_tag :: "nat \<Rightarrow> chunk_metadata \<Rightarrow> chunk_metadata" where "set_md_tag t = set_field 63 2 (of_nat t)"
definition md_occupied :: "chunk_metadata \<Rightarrow> bool" where "md_occupied md = get_flag 1 md"
definition set_md_occupied :: "bool \<Rightarrow> chunk_metadata \<Rightarrow> chunk_metadata" where "set_md_occupied b = set_flag 1 b"
definition md_dirty :: "chunk_metadata \<Rightarrow> bool" where "md_dirty md = get_flag 0 md"
definition set_md_dirty :: "bool \<Rightarrow> chunk_metadata \<Rightarrow> chunk_metadata" where "set_md_dirty b = set_flag 0 b"

record 's block_cache =
  bc_store :: 's
  block_offset_bits :: nat
  chunk_id_bits :: nat
  bc_block_size :: nat
  chunk_size :: nat
  blocks_per_chunk :: nat
  num_chunks :: nat
  bc_metadata :: "chunk_metadata list"
  bc_buffer :: "8 word list"
  bc_buffer_pa :: physical_address

text \<open>\<open>usize::ilog2\<close>, which panics on 0.\<close>

fun log2_floor :: "nat \<Rightarrow> nat" where
  "log2_floor n = (if n < 2 then 0 else Suc (log2_floor (n div 2)))"

declare log2_floor.simps [simp del]

definition ilog2 :: "nat \<Rightarrow> ('e, nat) outcome" where
  "ilog2 n = (if n = 0 then Panic else Ok (log2_floor n))"

text \<open>The bytes of the buffer are what its pages hold when they are allocated.\<close>

definition block_cache_new ::
  "'s store_ops \<Rightarrow> 's \<Rightarrow> nat \<Rightarrow> kmem \<Rightarrow> (memory_error \<times> kmem, kmem \<times> 's block_cache) outcome" where
  "block_cache_new ops store max_size_in_pages k =
     (let bsz = so_block_size ops in
      bind_outcome
        (if bsz < PAGE_SIZE then (if bsz = 0 then Panic else Ok (PAGE_SIZE div bsz, max_size_in_pages, PAGE_SIZE))
         else bind_outcome (ensure (bsz mod PAGE_SIZE = 0)) (\<lambda>_. Ok (1, max_size_in_pages div bsz, bsz)))
        (\<lambda>(bpc, nc, csz).
      bind_outcome (ilog2 nc) (\<lambda>cbits.
      bind_outcome (ilog2 bpc) (\<lambda>obits.
      bind_outcome (pb_alloc max_size_in_pages \<lparr>read_only = False, el0_access = False\<rparr> k) (\<lambda>(k, b).
      Ok (k, \<lparr>bc_store = store, block_offset_bits = obits, chunk_id_bits = cbits, bc_block_size = bsz, chunk_size = csz,
        blocks_per_chunk = bpc, num_chunks = nc, bc_metadata = replicate nc 0,
        bc_buffer = map (\<lambda>i. km_ram k (pb_phy_addr b + i)) [0..<max_size_in_pages * PAGE_SIZE],
        bc_buffer_pa = pb_phy_addr b\<rparr>))))))"

text \<open>\<open>u64::bit_range(hi, lo)\<close>.\<close>

definition bit_range :: "nat \<Rightarrow> nat \<Rightarrow> nat \<Rightarrow> nat" where
  "bit_range hi lo a = a div 2 ^ lo mod 2 ^ (hi + 1 - lo)"

definition decompose_address :: "'s block_cache \<Rightarrow> nat \<Rightarrow> ('e, nat \<times> nat \<times> nat) outcome" where
  "decompose_address c address =
     (let tag = bit_range 63 (chunk_id_bits c + block_offset_bits c) address;
          chunk_id = (if chunk_id_bits c = 0 then 0
            else bit_range (chunk_id_bits c + block_offset_bits c - 1) (block_offset_bits c) address) in
      bind_outcome (sub_checked (block_offset_bits c) 1) (\<lambda>hi.
      let block_offset = bit_range hi 0 address in
      bind_outcome (ensure (chunk_id < num_chunks c)) (\<lambda>_.
      bind_outcome (ensure (block_offset < bc_block_size c)) (\<lambda>_.
      Ok (tag, chunk_id, block_offset)))))"

definition compose_address :: "'s block_cache \<Rightarrow> nat \<Rightarrow> nat \<Rightarrow> nat" where
  "compose_address c tag chunk_id =
     (take_bit 64 (push_bit (chunk_id_bits c + block_offset_bits c) tag) OR take_bit 64 (push_bit (block_offset_bits c) chunk_id))"

text \<open>The place of a chunk in the buffer: its physical address is this far from the start of the buffer.\<close>

definition chunk_phy_addr :: "'s block_cache \<Rightarrow> nat \<Rightarrow> ('e, physical_address) outcome" where
  "chunk_phy_addr c chunk_id =
     bind_outcome (mul_checked chunk_id (chunk_size c)) (\<lambda>off.
     Ok (pa_offset (bc_buffer_pa c) (if off < 2 ^ 63 then int off else int off - 2 ^ 64)))"

definition chunk_bytes :: "'s block_cache \<Rightarrow> nat \<Rightarrow> ('e, 8 word list) outcome" where
  "chunk_bytes c chunk_id =
     bind_outcome (chunk_phy_addr c chunk_id) (\<lambda>pa.
     bind_outcome (sub_checked pa (bc_buffer_pa c)) (\<lambda>i.
     slice_range (bc_buffer c) i (i + blocks_per_chunk c * bc_block_size c)))"

text \<open>\<open>xs[i..i + ys.len()].copy_from_slice(ys)\<close>.\<close>

definition write_slice :: "'a list \<Rightarrow> nat \<Rightarrow> 'a list \<Rightarrow> ('e, 'a list) outcome" where
  "write_slice xs i ys =
     (if i + length ys \<le> length xs then Ok (take i xs @ ys @ drop (i + length ys) xs) else Panic)"

text \<open>The store writes the blocks it read into memory; outside the buffer this would be another's memory.\<close>

definition put_chunk :: "'s block_cache \<Rightarrow> nat \<Rightarrow> 8 word list \<Rightarrow> ('e, 's block_cache) outcome" where
  "put_chunk c chunk_id bytes =
     bind_outcome (chunk_phy_addr c chunk_id) (\<lambda>pa.
     bind_outcome (sub_checked pa (bc_buffer_pa c)) (\<lambda>i.
     bind_outcome (write_slice (bc_buffer c) i bytes) (\<lambda>b. Ok (c\<lparr>bc_buffer := b\<rparr>))))"

type_synonym ('s, 'a) cache_outcome = "(storage_error \<times> 's block_cache, 'a) outcome"

definition write_back :: "'s store_ops \<Rightarrow> nat \<Rightarrow> nat \<Rightarrow> 's block_cache \<Rightarrow> ('s, 's block_cache) cache_outcome" where
  "write_back ops tag chunk_id c =
     bind_outcome (chunk_bytes c chunk_id) (\<lambda>bytes.
     bind_outcome (map_outcome_err (\<lambda>(e, s). (e, c\<lparr>bc_store := s\<rparr>))
       (so_write ops bytes (compose_address c tag chunk_id) (bc_store c))) (\<lambda>s.
     Ok (c\<lparr>bc_store := s\<rparr>)))"

definition fetch_chunk ::
  "'s store_ops \<Rightarrow> nat \<Rightarrow> nat \<Rightarrow> bool \<Rightarrow> 's block_cache \<Rightarrow> ('s, 's block_cache) cache_outcome" where
  "fetch_chunk ops tag chunk_id mark_dirty c =
     bind_outcome (map_outcome_err (\<lambda>(e, s). (e, c\<lparr>bc_store := s\<rparr>))
       (so_read ops (compose_address c tag chunk_id) (blocks_per_chunk c) (bc_store c))) (\<lambda>(bytes, s).
     bind_outcome (put_chunk (c\<lparr>bc_store := s\<rparr>) chunk_id bytes) (\<lambda>c.
     Ok (c\<lparr>bc_metadata := (bc_metadata c)[chunk_id :=
       set_md_dirty mark_dirty (set_md_occupied True (set_md_tag tag (bc_metadata c ! chunk_id)))]\<rparr>)))"

definition load_chunk ::
  "'s store_ops \<Rightarrow> nat \<Rightarrow> nat \<Rightarrow> bool \<Rightarrow> 's block_cache \<Rightarrow> ('s, 's block_cache) cache_outcome" where
  "load_chunk ops tag chunk_id mark_dirty c =
     (if length (bc_metadata c) \<le> chunk_id then Panic
      else
        let md = bc_metadata c ! chunk_id in
        if \<not> md_occupied md \<or> md_tag md \<noteq> tag then
          bind_outcome (if md_dirty md then write_back ops (md_tag md) chunk_id c else Ok c) 
            (fetch_chunk ops tag chunk_id mark_dirty)
        else Ok c)"

text \<open>The loads of \<open>load_chunks\<close>, one after the other from the \<open>i\<close>th on.\<close>

fun load_chunks_from ::
  "'s store_ops \<Rightarrow> nat \<Rightarrow> nat \<Rightarrow> bool \<Rightarrow> nat \<Rightarrow> nat \<Rightarrow> 's block_cache \<Rightarrow> ('s, 's block_cache) cache_outcome" where
  "load_chunks_from ops tag chunk_id mark_dirty i 0 c = Ok c"
| "load_chunks_from ops tag chunk_id mark_dirty i (Suc n) c =
     bind_outcome (add_checked chunk_id i) (\<lambda>ci.
     bind_outcome
       (if num_chunks c < ci
        then bind_outcome (add_checked tag (ci div num_chunks c)) (\<lambda>t. load_chunk ops t (ci mod num_chunks c) mark_dirty c)
        else load_chunk ops tag ci mark_dirty c)
       (load_chunks_from ops tag chunk_id mark_dirty (i + 1) n))"

definition load_chunks where
  "load_chunks ops starting_tag starting_chunk_id num_chunks_inclusive mark_dirty =
     load_chunks_from ops starting_tag starting_chunk_id mark_dirty 0 num_chunks_inclusive"

text \<open>
  What \<open>copy_bytes\<close> and \<open>write_bytes\<close> have in common: load the chunks, then the range of the buffer that
  holds the bytes.
\<close>

definition locate_bytes ::
  "'s store_ops \<Rightarrow> nat \<Rightarrow> nat \<Rightarrow> nat \<Rightarrow> bool \<Rightarrow> 's block_cache \<Rightarrow> ('s, 's block_cache \<times> nat) cache_outcome" where
  "locate_bytes ops address byte_offset len mark_dirty c =
     (if bc_block_size c = 0 then Panic else
      bind_outcome
        (if bc_block_size c \<le> byte_offset
         then bind_outcome (add_checked address (byte_offset div bc_block_size c)) (\<lambda>a. Ok (a, byte_offset mod bc_block_size c))
         else Ok (address, byte_offset)) (\<lambda>(address, byte_offset).
      bind_outcome (decompose_address c address) (\<lambda>(starting_tag, starting_chunk_id, initial_block_offset).
      let num_chunks_inclusive = div_ceil len (chunk_size c) in
      if num_chunks c < num_chunks_inclusive then Panic
      else bind_outcome (load_chunks ops starting_tag starting_chunk_id num_chunks_inclusive mark_dirty c) (\<lambda>c.
        Ok (c, starting_chunk_id * chunk_size c + initial_block_offset * bc_block_size c + byte_offset)))))"

definition copy_bytes ::
  "'s store_ops \<Rightarrow> nat \<Rightarrow> nat \<Rightarrow> nat \<Rightarrow> 's block_cache \<Rightarrow> ('s, 's block_cache \<times> 8 word list) cache_outcome" where
  "copy_bytes ops address byte_offset len c =
     bind_outcome (locate_bytes ops address byte_offset len False c) (\<lambda>(c, off).
     bind_outcome (slice_range (bc_buffer c) off (off + len)) (\<lambda>bytes. Ok (c, bytes)))"

definition write_bytes ::
  "'s store_ops \<Rightarrow> nat \<Rightarrow> nat \<Rightarrow> 8 word list \<Rightarrow> 's block_cache \<Rightarrow> ('s, 's block_cache) cache_outcome" where
  "write_bytes ops address byte_offset src c =
     bind_outcome (locate_bytes ops address byte_offset (length src) True c) (\<lambda>(c, off).
     bind_outcome (write_slice (bc_buffer c) off src) (\<lambda>b. Ok (c\<lparr>bc_buffer := b\<rparr>)))"


section \<open>What the cache promises\<close>

text \<open>
  The documented behaviour of a block store, with \<open>content\<close> the bytes of the device by byte address: a
  read returns the bytes of the blocks, a write changes exactly them.
\<close>

definition store_law :: "'s store_ops \<Rightarrow> ('s \<Rightarrow> nat \<Rightarrow> 8 word) \<Rightarrow> bool" where
  "store_law ops content \<longleftrightarrow>
     (\<forall>a n s bs s'. so_read ops a n s = Ok (bs, s') \<longrightarrow>
        bs = map (content s) [a * so_block_size ops ..< (a + n) * so_block_size ops] \<and> content s' = content s) \<and>
     (\<forall>a bs s s'. so_write ops bs a s = Ok s' \<longrightarrow>
        content s' = (\<lambda>i. if a * so_block_size ops \<le> i \<and> i < a * so_block_size ops + length bs
                          then bs ! (i - a * so_block_size ops) else content s i)) \<and>
     (\<forall>a n s. so_read ops a n s \<noteq> Panic) \<and> (\<forall>a bs s. so_write ops bs a s \<noteq> Panic)"

lemma store_law_write:
  "store_law ops content \<Longrightarrow> so_write ops bs a s = Ok s' \<Longrightarrow>
   content s' = (\<lambda>i. if a * so_block_size ops \<le> i \<and> i < a * so_block_size ops + length bs
                     then bs ! (i - a * so_block_size ops) else content s i)"
  unfolding store_law_def by blast

lemma store_law_read:
  "store_law ops content \<Longrightarrow> so_read ops a n s = Ok (bs, s') \<Longrightarrow>
   bs = map (content s) [a * so_block_size ops ..< (a + n) * so_block_size ops] \<and> content s' = content s"
  unfolding store_law_def by blast

abbreviation chunk_ids :: "'s block_cache \<Rightarrow> nat" where
  "chunk_ids c \<equiv> 2 ^ chunk_id_bits c"

text \<open>The shape of a cache: the sizes fit together and the buffer holds all chunks.\<close>

definition cache_shape :: "'s store_ops \<Rightarrow> 's block_cache \<Rightarrow> bool" where
  "cache_shape ops c \<longleftrightarrow> 0 < block_offset_bits c \<and> 2 \<le> chunk_id_bits c + block_offset_bits c \<and>
     chunk_id_bits c + block_offset_bits c < 64 \<and> blocks_per_chunk c = 2 ^ block_offset_bits c \<and>
     bc_block_size c = so_block_size ops \<and> blocks_per_chunk c \<le> bc_block_size c \<and>
     chunk_size c = blocks_per_chunk c * bc_block_size c \<and> chunk_ids c \<le> num_chunks c \<and>
     length (bc_metadata c) = num_chunks c \<and> num_chunks c * chunk_size c \<le> length (bc_buffer c) \<and>
     num_chunks c * chunk_size c < 2 ^ 63 \<and> bc_buffer_pa c + num_chunks c * chunk_size c < 2 ^ 64"

text \<open>
  Chunk \<open>g\<close> of the device goes to chunk \<open>g mod chunk_ids c\<close> of the cache with tag \<open>g div chunk_ids c\<close>. Byte \<open>j\<close>
  of it, seen through the cache:
\<close>

definition chunk_loaded :: "'s block_cache \<Rightarrow> nat \<Rightarrow> bool" where
  "chunk_loaded c g \<longleftrightarrow> (let md = bc_metadata c ! (g mod chunk_ids c) in md_occupied md \<and> md_tag md = g div chunk_ids c)"

definition chunk_view :: "('s \<Rightarrow> nat \<Rightarrow> 8 word) \<Rightarrow> 's block_cache \<Rightarrow> nat \<Rightarrow> nat \<Rightarrow> 8 word" where
  "chunk_view content c g j =
     (if chunk_loaded c g then bc_buffer c ! (g mod chunk_ids c * chunk_size c + j)
      else content (bc_store c) (g * chunk_size c + j))"

definition cache_view :: "('s \<Rightarrow> nat \<Rightarrow> 8 word) \<Rightarrow> 's block_cache \<Rightarrow> nat \<Rightarrow> 8 word" where
  "cache_view content c i = chunk_view content c (i div chunk_size c) (i mod chunk_size c)"

text \<open>Chunks that are not dirty agree with the store, and tags belong to addresses of the device.\<close>

definition cache_coherent :: "('s \<Rightarrow> nat \<Rightarrow> 8 word) \<Rightarrow> 's block_cache \<Rightarrow> bool" where
  "cache_coherent content c \<longleftrightarrow>
     (\<forall>i < chunk_ids c. let md = bc_metadata c ! i; g = md_tag md * chunk_ids c + i in
        (md_dirty md \<longrightarrow> md_occupied md) \<and> (md_occupied md \<longrightarrow> g * blocks_per_chunk c < 2 ^ 64) \<and>
        (md_occupied md \<and> \<not> md_dirty md \<longrightarrow>
          (\<forall>j < chunk_size c. bc_buffer c ! (i * chunk_size c + j) = content (bc_store c) (g * chunk_size c + j))))"

lemma write_slice_Ok: "i + length ys \<le> length xs \<Longrightarrow> write_slice xs i ys = Ok (take i xs @ ys @ drop (i + length ys) xs)"
  by (simp add: write_slice_def)

lemma nth_write_slice:
  assumes "i + length ys \<le> length xs" "k < length xs"
  shows "(take i xs @ ys @ drop (i + length ys) xs) ! k = (if i \<le> k \<and> k < i + length ys then ys ! (k - i) else xs ! k)"
  using assms by (auto simp: nth_append)

lemma md_fields:
  fixes d :: bool and md :: chunk_metadata
  assumes "tag < 2 ^ 62"
  defines "md' \<equiv> set_md_dirty d (set_md_occupied True (set_md_tag tag md))"
  shows "md_tag md' = tag" "md_occupied md'" "md_dirty md' = d"
proof -
  have "get_field 63 2 md' = take_bit 62 (of_nat tag)"
    by (rule bit_word_eqI) (auto simp: md'_def set_md_dirty_def set_md_occupied_def set_md_tag_def bit_get_field bit_set_flag
        bit_set_field bit_take_bit_iff)
  moreover have "unat (take_bit 62 (of_nat tag :: 64 word)) = tag"
    using assms(1) by (simp add: unsigned_take_bit_eq unat_of_nat take_bit_nat_eq_self)
  ultimately show "md_tag md' = tag" by (simp add: md_tag_def)
  show "md_occupied md'" "md_dirty md' = d"
    by (simp_all add: md'_def md_occupied_def md_dirty_def set_md_dirty_def set_md_occupied_def get_flag_def bit_set_flag)
qed

lemma md_zero: "\<not> md_occupied 0" "\<not> md_dirty 0"
  by (simp_all add: md_occupied_def md_dirty_def get_flag_def)

text \<open>Addresses of chunks.\<close>

lemma compose_address_eq:
  assumes "i < chunk_ids c" "(t * chunk_ids c + i) * 2 ^ block_offset_bits c < 2 ^ 64"
  shows "compose_address c t i = (t * chunk_ids c + i) * 2 ^ block_offset_bits c"
proof -
  let ?b = "block_offset_bits c" and ?n = "chunk_id_bits c"
  have lt: "i * 2 ^ ?b < 2 ^ (?n + ?b)" using assms(1) by (simp add: power_add)
  have eq: "(t * chunk_ids c + i) * 2 ^ ?b = t * 2 ^ (?n + ?b) + i * 2 ^ ?b" by (simp add: power_add algebra_simps)
  then have "t * 2 ^ (?n + ?b) < 2 ^ 64" "i * 2 ^ ?b < 2 ^ 64" using assms(2) by linarith+
  then have "compose_address c t i = push_bit (?n + ?b) t OR i * 2 ^ ?b"
    by (simp add: compose_address_def push_bit_eq_mult take_bit_nat_eq_self)
  then show ?thesis using push_or_nat [OF lt, of t] eq by simp
qed

lemma decompose_address_eq:
  assumes "cache_shape ops c" "a < 2 ^ 64"
  defines "g \<equiv> a div blocks_per_chunk c"
  shows "decompose_address c a = Ok (g div chunk_ids c, g mod chunk_ids c, a mod blocks_per_chunk c)"
proof -
  let ?b = "block_offset_bits c" and ?n = "chunk_id_bits c"
  have s: "0 < ?b" "?n + ?b < 64" "blocks_per_chunk c = 2 ^ ?b" "2 ^ ?b \<le> bc_block_size c" "chunk_ids c \<le> num_chunks c"
    using assms(1) by (simp_all add: cache_shape_def)
  have "g div chunk_ids c = a div 2 ^ (?n + ?b)" by (simp add: g_def s(3) power_add div_mult2_eq mult.commute)
  moreover have "a div 2 ^ (?n + ?b) < 2 ^ (64 - (?n + ?b))"
    using assms(2) s(2) by (simp add: less_mult_imp_div_less flip: power_add)
  ultimately have tag: "bit_range 63 (?n + ?b) a = g div chunk_ids c"
    using s(2) by (simp add: bit_range_def)
  have cid: "(if ?n = 0 then 0 else bit_range (?n + ?b - 1) ?b a) = g mod chunk_ids c"
    using s(1) by (simp add: bit_range_def g_def s(3))
  have lt: "g mod chunk_ids c < num_chunks c" using s(5) by (rule less_le_trans [OF mod_less_divisor, rotated]) simp
  have off: "bit_range (?b - 1) 0 a = a mod blocks_per_chunk c" using s(1) by (simp add: bit_range_def s(3))
  have "a mod blocks_per_chunk c < bc_block_size c"
    using less_le_trans [OF mod_less_divisor s(4), of a] by (simp add: s(3))
  then show ?thesis using s(1) lt by (simp add: decompose_address_def Let_def tag cid off [unfolded One_nat_def] ensure_def)
qed

lemma pa_offset_nonneg: "pa + n < 2 ^ 64 \<Longrightarrow> pa_offset pa (int n) = pa + n"
  by (simp add: pa_offset_def min_absorb1 flip: of_nat_add)

lemma chunk_phy_addr_eq:
  assumes "cache_shape ops c" "i < num_chunks c"
  shows "chunk_phy_addr c i = Ok (bc_buffer_pa c + i * chunk_size c)" "i * chunk_size c + chunk_size c \<le> length (bc_buffer c)"
proof -
  have "Suc i * chunk_size c \<le> num_chunks c * chunk_size c" using assms(2) by (intro mult_le_mono1) simp
  then have le: "i * chunk_size c + chunk_size c \<le> num_chunks c * chunk_size c" by simp
  have "num_chunks c * chunk_size c < 2 ^ 63" "bc_buffer_pa c + num_chunks c * chunk_size c < 2 ^ 64"
    "num_chunks c * chunk_size c \<le> length (bc_buffer c)"
    using assms(1) unfolding cache_shape_def by blast+
  moreover from this le have "pa_offset (bc_buffer_pa c) (int (i * chunk_size c)) = bc_buffer_pa c + i * chunk_size c"
    by (intro pa_offset_nonneg) linarith
  ultimately show "chunk_phy_addr c i = Ok (bc_buffer_pa c + i * chunk_size c)" "i * chunk_size c + chunk_size c \<le> length (bc_buffer c)"
    using le by (simp_all add: chunk_phy_addr_def mul_checked_def)
qed

lemma cache_shape_sizes:
  assumes "cache_shape ops c"
  shows "bc_block_size c = so_block_size ops" "chunk_size c = blocks_per_chunk c * so_block_size ops"
    "blocks_per_chunk c = 2 ^ block_offset_bits c" "chunk_ids c \<le> num_chunks c" "length (bc_metadata c) = num_chunks c"
    "0 < chunk_size c"
proof -
  show *: "bc_block_size c = so_block_size ops" "chunk_size c = blocks_per_chunk c * so_block_size ops"
    "blocks_per_chunk c = 2 ^ block_offset_bits c" "chunk_ids c \<le> num_chunks c" "length (bc_metadata c) = num_chunks c"
    using assms unfolding cache_shape_def by auto
  have "blocks_per_chunk c \<le> bc_block_size c" using assms by (simp add: cache_shape_def)
  then have "0 < so_block_size ops" using * by (metis less_le_trans zero_less_numeral zero_less_power)
  then show "0 < chunk_size c" using * by simp
qed

lemma chunk_id_lt: "cache_shape ops c \<Longrightarrow> g mod chunk_ids c < num_chunks c"
  by (rule less_le_trans [OF mod_less_divisor cache_shape_sizes(4)]) simp_all

lemma cache_shape_update [simp]:
  "cache_shape ops (c\<lparr>bc_store := s\<rparr>) = cache_shape ops c"
  "length b = length (bc_buffer c) \<Longrightarrow> cache_shape ops (c\<lparr>bc_buffer := b\<rparr>) = cache_shape ops c"
  "length m = length (bc_metadata c) \<Longrightarrow> cache_shape ops (c\<lparr>bc_metadata := m\<rparr>) = cache_shape ops c"
  by (simp_all add: cache_shape_def)

lemma cache_shape_tag:
  assumes "cache_shape ops c" "g * blocks_per_chunk c < 2 ^ 64"
  shows "g div chunk_ids c < 2 ^ 62"
proof -
  have s: "2 \<le> chunk_id_bits c + block_offset_bits c" "blocks_per_chunk c = 2 ^ block_offset_bits c"
    using assms(1) by (simp_all add: cache_shape_def)
  have "g div chunk_ids c * 2 ^ (chunk_id_bits c + block_offset_bits c) \<le> g * 2 ^ block_offset_bits c"
    using div_times_less_eq_dividend [of g "chunk_ids c"] by (simp add: power_add flip: mult.assoc)
  then have "g div chunk_ids c * 2 ^ (chunk_id_bits c + block_offset_bits c) < 2 ^ 62 * 2 ^ 2" using assms(2) s(2) by simp
  moreover have "g div chunk_ids c * 2 ^ 2 \<le> g div chunk_ids c * 2 ^ (chunk_id_bits c + block_offset_bits c)"
    using s(1) by (intro mult_le_mono2 power_increasing) simp_all
  ultimately have "g div chunk_ids c * 2 ^ 2 < 2 ^ 62 * 2 ^ 2" by linarith
  then show ?thesis by (simp only: mult_less_cancel2)
qed

text \<open>Bytes of different chunks are different bytes.\<close>

lemma chunk_byte_iff:
  assumes "j < n" "k < (n :: nat)"
  shows "g * n + j = h * n + k \<longleftrightarrow> g = h \<and> j = k"
proof
  assume eq: "g * n + j = h * n + k"
  have "(g * n + j) div n = g" "(h * n + k) div n = h" using assms by simp_all
  then show "g = h \<and> j = k" using eq by simp
qed simp

lemma in_chunk_iff:
  assumes "j < (n :: nat)"
  shows "h * n \<le> g * n + j \<and> g * n + j < h * n + n \<longleftrightarrow> g = h"
proof
  assume a: "h * n \<le> g * n + j \<and> g * n + j < h * n + n"
  then obtain k where "g * n + j = h * n + k" "k < n" by (metis le_iff_add nat_add_left_cancel_less)
  then show "g = h" using chunk_byte_iff [OF assms] by blast
qed (use assms in simp)

lemma write_back_Ok:
  assumes law: "store_law ops content" and shape: "cache_shape ops c" and i: "i < chunk_ids c"
    and g: "(t * chunk_ids c + i) * blocks_per_chunk c < 2 ^ 64"
  shows "write_back ops t i c \<noteq> Panic"
    "write_back ops t i c = Ok c1 \<Longrightarrow> \<exists>s. c1 = c\<lparr>bc_store := s\<rparr> \<and> (\<forall>g j. j < chunk_size c \<longrightarrow>
       content s (g * chunk_size c + j) =
         (if g = t * chunk_ids c + i then bc_buffer c ! (i * chunk_size c + j) else content (bc_store c) (g * chunk_size c + j)))"
proof -
  note sz = cache_shape_sizes [OF shape]
  let ?g = "t * chunk_ids c + i"
  have i': "i < num_chunks c" using i sz(4) by simp
  note pa = chunk_phy_addr_eq [OF shape i']
  let ?bs = "take (chunk_size c) (drop (i * chunk_size c) (bc_buffer c))"
  have bytes: "chunk_bytes c i = (Ok ?bs :: ('e, 8 word list) outcome)"
    using pa(2) sz(1,2) by (simp add: chunk_bytes_def slice_range_def pa(1))
  have addr: "compose_address c t i * so_block_size ops = ?g * chunk_size c"
    using compose_address_eq [OF i, of t] g sz(2,3) by simp
  have wb: "write_back ops t i c = bind_outcome (map_outcome_err (\<lambda>(e, s). (e, c\<lparr>bc_store := s\<rparr>))
      (so_write ops ?bs (compose_address c t i) (bc_store c))) (\<lambda>s. Ok (c\<lparr>bc_store := s\<rparr>))"
    by (simp add: write_back_def bytes)
  show "write_back ops t i c \<noteq> Panic" using law by (auto simp: wb outcome_simps store_law_def)
  assume "write_back ops t i c = Ok c1"
  then obtain s where s: "c1 = c\<lparr>bc_store := s\<rparr>" "so_write ops ?bs (compose_address c t i) (bc_store c) = Ok s"
    by (auto simp: wb outcome_simps)
  have len: "length ?bs = chunk_size c" using pa(2) by simp
  have "content s = (\<lambda>k. if ?g * chunk_size c \<le> k \<and> k < ?g * chunk_size c + chunk_size c
      then ?bs ! (k - ?g * chunk_size c) else content (bc_store c) k)"
    using store_law_write [OF law s(2)] by (simp only: addr len)
  then have "content s (g * chunk_size c + j) =
      (if g = ?g then bc_buffer c ! (i * chunk_size c + j) else content (bc_store c) (g * chunk_size c + j))"
    if "j < chunk_size c" for g j
    using in_chunk_iff [OF that, of ?g g] that pa(2) by simp
  then show "\<exists>s. c1 = c\<lparr>bc_store := s\<rparr> \<and> (\<forall>g j. j < chunk_size c \<longrightarrow>
       content s (g * chunk_size c + j) =
         (if g = t * chunk_ids c + i then bc_buffer c ! (i * chunk_size c + j) else content (bc_store c) (g * chunk_size c + j)))"
    using s(1) by blast
qed

text \<open>
  What loading chunk \<open>g\<close> leaves when another chunk, or none, was in its place: \<open>s\<close> is the store after the
  old chunk was written back, \<open>b\<close> the buffer with the new one.
\<close>

definition chunk_replaced ::
  "('s \<Rightarrow> nat \<Rightarrow> 8 word) \<Rightarrow> nat \<Rightarrow> bool \<Rightarrow> 's block_cache \<Rightarrow> 's block_cache \<Rightarrow> bool" where
  "chunk_replaced content g d c c' \<longleftrightarrow>
     (\<exists>s b md'. let i = g mod chunk_ids c; md = bc_metadata c ! i in
        c' = c\<lparr>bc_store := s, bc_buffer := b, bc_metadata := (bc_metadata c)[i := md']\<rparr> \<and>
        md_tag md' = g div chunk_ids c \<and> md_occupied md' \<and> md_dirty md' = d \<and> length b = length (bc_buffer c) \<and>
        (\<forall>k < length b. b ! k = (if i * chunk_size c \<le> k \<and> k < i * chunk_size c + chunk_size c
            then content s (g * chunk_size c + (k - i * chunk_size c)) else bc_buffer c ! k)) \<and>
        (\<forall>h j. j < chunk_size c \<longrightarrow> content s (h * chunk_size c + j) =
            (if md_dirty md \<and> h = md_tag md * chunk_ids c + i then bc_buffer c ! (i * chunk_size c + j)
             else content (bc_store c) (h * chunk_size c + j))))"

lemma put_chunk_Ok:
  assumes "cache_shape ops c" "i < num_chunks c" "length bytes = chunk_size c"
  shows "put_chunk c i bytes = Ok (c\<lparr>bc_buffer := take (i * chunk_size c) (bc_buffer c) @ bytes @
     drop (i * chunk_size c + length bytes) (bc_buffer c)\<rparr>)"
  using chunk_phy_addr_eq(2) [OF assms(1,2)] assms(3)
  by (simp add: put_chunk_def chunk_phy_addr_eq(1) [OF assms(1,2)] write_slice_Ok)

text \<open>The chunk in the place of \<open>g\<close>, written back if it is dirty.\<close>

lemma evict_chunk:
  assumes law: "store_law ops content" and shape: "cache_shape ops c" and coh: "cache_coherent content c"
    and i: "i < chunk_ids c" and md: "md = bc_metadata c ! i"
  defines "wb \<equiv> if md_dirty md then write_back ops (md_tag md) i c else Ok c"
  shows "wb \<noteq> Panic"
    "wb = Ok c1 \<Longrightarrow> \<exists>s. c1 = c\<lparr>bc_store := s\<rparr> \<and> (\<forall>h j. j < chunk_size c \<longrightarrow> content s (h * chunk_size c + j) =
            (if md_dirty md \<and> h = md_tag md * chunk_ids c + i then bc_buffer c ! (i * chunk_size c + j)
             else content (bc_store c) (h * chunk_size c + j)))"
proof -
  have "md_dirty md \<Longrightarrow> (md_tag md * chunk_ids c + i) * blocks_per_chunk c < 2 ^ 64"
    using coh i md by (auto simp: cache_coherent_def Let_def)
  note old = write_back_Ok [OF law shape i this]
  show "wb \<noteq> Panic" using old(1) by (simp add: wb_def)
  assume wb: "wb = Ok c1"
  show "\<exists>s. c1 = c\<lparr>bc_store := s\<rparr> \<and> (\<forall>h j. j < chunk_size c \<longrightarrow> content s (h * chunk_size c + j) =
            (if md_dirty md \<and> h = md_tag md * chunk_ids c + i then bc_buffer c ! (i * chunk_size c + j)
             else content (bc_store c) (h * chunk_size c + j)))"
  proof (cases "md_dirty md")
    case True
    then show ?thesis using old(2) [OF True, of c1] wb by (auto simp: wb_def)
  next
    case False
    then show ?thesis using wb by (intro exI [of _ "bc_store c"]) (simp add: wb_def)
  qed
qed

lemma fetch_chunk_Ok:
  assumes law: "store_law ops content" and shape: "cache_shape ops c" and g: "g * blocks_per_chunk c < 2 ^ 64"
  defines "i \<equiv> g mod chunk_ids c"
  shows "fetch_chunk ops (g div chunk_ids c) i d c \<noteq> Panic"
    "fetch_chunk ops (g div chunk_ids c) i d c = Ok c' \<Longrightarrow> \<exists>bytes s md.
       bytes = map (content (bc_store c)) [g * chunk_size c ..< g * chunk_size c + chunk_size c] \<and>
       content s = content (bc_store c) \<and> md_tag md = g div chunk_ids c \<and> md_occupied md \<and> md_dirty md = d \<and>
       c' = c\<lparr>bc_store := s, bc_metadata := (bc_metadata c)[i := md],
         bc_buffer := take (i * chunk_size c) (bc_buffer c) @ bytes @ drop (i * chunk_size c + length bytes) (bc_buffer c)\<rparr>"
proof -
  note sz = cache_shape_sizes [OF shape]
  let ?t = "g div chunk_ids c"
  have i: "i < chunk_ids c" and i': "i < num_chunks c" using chunk_id_lt [OF shape] by (simp_all add: i_def)
  have whole: "?t * chunk_ids c + i = g" unfolding i_def by (rule div_mult_mod_eq)
  have addr: "compose_address c ?t i * so_block_size ops = g * chunk_size c"
    using compose_address_eq [OF i, of ?t] g sz(2,3) by (simp add: whole)
  have read: "bytes = map (content (bc_store c)) [g * chunk_size c ..< g * chunk_size c + chunk_size c]" "content s = content (bc_store c)"
    "put_chunk (c\<lparr>bc_store := s\<rparr>) i bytes = (Ok (c\<lparr>bc_store := s, bc_buffer :=
        take (i * chunk_size c) (bc_buffer c) @ bytes @ drop (i * chunk_size c + length bytes) (bc_buffer c)\<rparr>) :: ('a, 'a block_cache) cache_outcome)"
    if r: "so_read ops (compose_address c ?t i) (blocks_per_chunk c) (bc_store c) = Ok (bytes, s)" for bytes s
  proof -
    show b: "bytes = map (content (bc_store c)) [g * chunk_size c ..< g * chunk_size c + chunk_size c]" "content s = content (bc_store c)"
      using store_law_read [OF law r] addr sz(2) by (simp_all add: add_mult_distrib)
    have "cache_shape ops (c\<lparr>bc_store := s\<rparr>)" using shape by simp
    then show "put_chunk (c\<lparr>bc_store := s\<rparr>) i bytes = (Ok (c\<lparr>bc_store := s, bc_buffer :=
        take (i * chunk_size c) (bc_buffer c) @ bytes @ drop (i * chunk_size c + length bytes) (bc_buffer c)\<rparr>) :: ('a, 'a block_cache) cache_outcome)"
      using i' b(1) by (simp add: put_chunk_Ok)
  qed
  show "fetch_chunk ops ?t i d c \<noteq> Panic"
    using law read(3) by (auto simp: fetch_chunk_def outcome_simps store_law_def)
  assume "fetch_chunk ops ?t i d c = Ok c'"
  then obtain bytes s where r: "so_read ops (compose_address c ?t i) (blocks_per_chunk c) (bc_store c) = Ok (bytes, s)"
    and c': "c' = c\<lparr>bc_store := s, bc_metadata := (bc_metadata c)[i :=
        set_md_dirty d (set_md_occupied True (set_md_tag ?t (bc_metadata c ! i)))],
        bc_buffer := take (i * chunk_size c) (bc_buffer c) @ bytes @ drop (i * chunk_size c + length bytes) (bc_buffer c)\<rparr>"
    using read(3) by (auto simp: fetch_chunk_def outcome_simps)
  then show "\<exists>bytes s md.
       bytes = map (content (bc_store c)) [g * chunk_size c ..< g * chunk_size c + chunk_size c] \<and>
       content s = content (bc_store c) \<and> md_tag md = g div chunk_ids c \<and> md_occupied md \<and> md_dirty md = d \<and>
       c' = c\<lparr>bc_store := s, bc_metadata := (bc_metadata c)[i := md],
         bc_buffer := take (i * chunk_size c) (bc_buffer c) @ bytes @ drop (i * chunk_size c + length bytes) (bc_buffer c)\<rparr>"
    using read(1,2) [OF r] md_fields [OF cache_shape_tag [OF shape g], of d "bc_metadata c ! i"] by blast
qed

lemma load_chunk_replaces:
  assumes law: "store_law ops content" and shape: "cache_shape ops c" and coh: "cache_coherent content c"
    and g: "g * blocks_per_chunk c < 2 ^ 64" and absent: "\<not> chunk_loaded c g"
  shows "load_chunk ops (g div chunk_ids c) (g mod chunk_ids c) d c \<noteq> Panic"
    "load_chunk ops (g div chunk_ids c) (g mod chunk_ids c) d c = Ok c' \<Longrightarrow> chunk_replaced content g d c c'"
proof -
  note sz = cache_shape_sizes [OF shape]
  let ?i = "g mod chunk_ids c" and ?t = "g div chunk_ids c"
  let ?md = "bc_metadata c ! ?i"
  have i: "?i < chunk_ids c" and i': "?i < num_chunks c" using chunk_id_lt [OF shape] by simp_all
  let ?wb = "if md_dirty ?md then write_back ops (md_tag ?md) ?i c else Ok c"
  note ev = evict_chunk [OF law shape coh i refl]
  have load: "load_chunk ops ?t ?i d c = bind_outcome ?wb (fetch_chunk ops ?t ?i d)"
    using i' sz(5) absent by (auto simp: load_chunk_def Let_def chunk_loaded_def)
  have shape': "cache_shape ops (c\<lparr>bc_store := s\<rparr>)" for s using shape by simp
  have no_panic: "fetch_chunk ops ?t ?i d (c\<lparr>bc_store := s\<rparr>) \<noteq> Panic" for s
    using fetch_chunk_Ok(1) [OF law shape', of g s d] g by simp
  show "load_chunk ops ?t ?i d c \<noteq> Panic" using ev no_panic unfolding load bind_outcome_Panic_iff by blast
  assume "load_chunk ops ?t ?i d c = Ok c'"
  then obtain s where s: "\<forall>h j. j < chunk_size c \<longrightarrow> content s (h * chunk_size c + j) =
            (if md_dirty ?md \<and> h = md_tag ?md * chunk_ids c + ?i then bc_buffer c ! (?i * chunk_size c + j)
             else content (bc_store c) (h * chunk_size c + j))"
    and f: "fetch_chunk ops ?t ?i d (c\<lparr>bc_store := s\<rparr>) = Ok c'"
    using ev(2) unfolding load bind_outcome_Ok_iff by blast
  obtain bytes s' md where b: "bytes = map (content s) [g * chunk_size c ..< g * chunk_size c + chunk_size c]" "content s' = content s"
    "md_tag md = ?t" "md_occupied md" "md_dirty md = d"
    and c': "c' = c\<lparr>bc_store := s', bc_metadata := (bc_metadata c)[?i := md],
         bc_buffer := take (?i * chunk_size c) (bc_buffer c) @ bytes @ drop (?i * chunk_size c + length bytes) (bc_buffer c)\<rparr>"
    using fetch_chunk_Ok(2) [OF law shape', of g s d c'] f g by auto
  have len: "?i * chunk_size c + length bytes \<le> length (bc_buffer c)" using chunk_phy_addr_eq(2) [OF shape i'] b(1) by simp
  have "length (bc_buffer c') = length (bc_buffer c)" "\<forall>k < length (bc_buffer c). bc_buffer c' ! k =
      (if ?i * chunk_size c \<le> k \<and> k < ?i * chunk_size c + chunk_size c
            then content s' (g * chunk_size c + (k - ?i * chunk_size c)) else bc_buffer c ! k)"
    using nth_write_slice [OF len] len b(1,2) by (auto simp: c')
  then show "chunk_replaced content g d c c'" using s b(2-5) unfolding chunk_replaced_def Let_def
    by (intro exI [of _ s'] exI [of _ "bc_buffer c'"] exI [of _ md]) (simp add: c')
qed

lemma chunk_index:
  assumes "i < n"
  shows "(t * n + i) mod n = i" "(t * n + i) div n = (t :: nat)"
  using assms by simp_all

text \<open>Replacing a chunk changes nothing that is seen through the cache.\<close>

lemma chunk_replaced_view:
  assumes shape: "cache_shape ops c" and coh: "cache_coherent content c" and absent: "\<not> chunk_loaded c g"
    and rep: "chunk_replaced content g d c c'" and j: "j < chunk_size c"
  shows "chunk_view content c' h j = chunk_view content c h j"
proof -
  note sz = cache_shape_sizes [OF shape]
  let ?n = "chunk_ids c" and ?sz = "chunk_size c"
  let ?i = "g mod ?n"
  let ?md = "bc_metadata c ! ?i"
  obtain s b md' where c': "c' = c\<lparr>bc_store := s, bc_buffer := b, bc_metadata := (bc_metadata c)[?i := md']\<rparr>"
    and md': "md_tag md' = g div ?n" "md_occupied md'" and len: "length b = length (bc_buffer c)"
    and b: "\<forall>k < length b. b ! k = (if ?i * ?sz \<le> k \<and> k < ?i * ?sz + ?sz
            then content s (g * ?sz + (k - ?i * ?sz)) else bc_buffer c ! k)"
    and s: "\<forall>h j. j < ?sz \<longrightarrow> content s (h * ?sz + j) =
            (if md_dirty ?md \<and> h = md_tag ?md * ?n + ?i then bc_buffer c ! (?i * ?sz + j) else content (bc_store c) (h * ?sz + j))"
    using rep unfolding chunk_replaced_def Let_def by blast
  have lt: "x mod ?n < num_chunks c" for x by (rule chunk_id_lt [OF shape])
  have buf: "x mod ?n * ?sz + j < length b" for x using chunk_phy_addr_eq(2) [OF shape lt, of x] j len by linarith
  have old: "chunk_loaded c x \<longleftrightarrow> md_occupied ?md \<and> x = md_tag ?md * ?n + ?i" if "x mod ?n = ?i" for x
    using that div_mult_mod_eq [of x ?n] by (auto simp: chunk_loaded_def Let_def)
  have i: "?i < length (bc_metadata c)" using lt sz(5) by simp
  have new: "chunk_loaded c' x \<longleftrightarrow> x = g" if "x mod ?n = ?i" for x
    using that md' i div_mult_mod_eq [of x ?n] div_mult_mod_eq [of g ?n] by (auto simp: chunk_loaded_def Let_def c')
  show ?thesis
  proof (cases "h mod ?n = ?i")
    case False
    then have "chunk_loaded c' h = chunk_loaded c h" "b ! (h mod ?n * ?sz + j) = bc_buffer c ! (h mod ?n * ?sz + j)"
      "h \<noteq> md_tag ?md * ?n + ?i"
      using b buf [of h] in_chunk_iff [OF j, of ?i "h mod ?n"] by (auto simp: chunk_loaded_def Let_def c')
    then show ?thesis using s j by (simp add: chunk_view_def c')
  next
    case True
    have dirty: "md_dirty ?md \<Longrightarrow> md_occupied ?md" using coh by (auto simp: cache_coherent_def Let_def)
    have clean: "md_occupied ?md \<Longrightarrow> \<not> md_dirty ?md \<Longrightarrow>
        bc_buffer c ! (?i * ?sz + j) = content (bc_store c) ((md_tag ?md * ?n + ?i) * ?sz + j)"
      using coh j by (auto simp: cache_coherent_def Let_def)
    have view': "chunk_view content c' h j = content s (h * ?sz + j)"
      using new [OF True] b buf [of g] j True by (simp add: chunk_view_def c')
    show ?thesis using old [OF True] old [OF refl] absent dirty clean s j True unfolding view'
      by (auto simp: chunk_view_def)
  qed
qed

lemma chunk_replaced_coherent:
  assumes shape: "cache_shape ops c" and coh: "cache_coherent content c" and g: "g * blocks_per_chunk c < 2 ^ 64"
    and rep: "chunk_replaced content g d c c'"
  shows "cache_shape ops c' \<and> cache_coherent content c' \<and> chunk_loaded c' g \<and> md_dirty (bc_metadata c' ! (g mod chunk_ids c)) = d"
proof -
  note sz = cache_shape_sizes [OF shape]
  let ?n = "chunk_ids c" and ?sz = "chunk_size c"
  let ?i = "g mod ?n"
  obtain s b md' where c': "c' = c\<lparr>bc_store := s, bc_buffer := b, bc_metadata := (bc_metadata c)[?i := md']\<rparr>"
    and md': "md_tag md' = g div ?n" "md_occupied md'" "md_dirty md' = d" and len: "length b = length (bc_buffer c)"
    and b: "\<forall>k < length b. b ! k = (if ?i * ?sz \<le> k \<and> k < ?i * ?sz + ?sz
            then content s (g * ?sz + (k - ?i * ?sz)) else bc_buffer c ! k)"
    and s: "\<forall>h j. j < ?sz \<longrightarrow> content s (h * ?sz + j) = (if md_dirty (bc_metadata c ! ?i) \<and> h = md_tag (bc_metadata c ! ?i) * ?n + ?i
            then bc_buffer c ! (?i * ?sz + j) else content (bc_store c) (h * ?sz + j))"
    using rep unfolding chunk_replaced_def Let_def by blast
  have i: "?i < length (bc_metadata c)" using chunk_id_lt [OF shape] sz(5) by simp
  have whole: "g div ?n * ?n + ?i = g" by (rule div_mult_mod_eq)
  have buf: "x * ?sz + j < length b" if "x < ?n" "j < ?sz" for x j
    using chunk_phy_addr_eq(2) [OF shape, of x] that len sz(4) by linarith
  have new: "b ! (?i * ?sz + j) = content s (g * ?sz + j)" if "j < ?sz" for j
    using b buf [of ?i j] that by simp
  have other: "b ! (x * ?sz + j) = bc_buffer c ! (x * ?sz + j)"
    "content s ((t * ?n + x) * ?sz + j) = content (bc_store c) ((t * ?n + x) * ?sz + j)"
    if "x < ?n" "x \<noteq> ?i" "j < ?sz" for x j t
  proof -
    have "t * ?n + x \<noteq> t' * ?n + ?i" for t' using chunk_byte_iff [of x ?n ?i t t'] that(1,2) by auto
    then show "b ! (x * ?sz + j) = bc_buffer c ! (x * ?sz + j)"
      "content s ((t * ?n + x) * ?sz + j) = content (bc_store c) ((t * ?n + x) * ?sz + j)"
      using that b buf [of x j] in_chunk_iff [OF that(3), of ?i x] s by auto
  qed
  have "cache_coherent content c'"
    unfolding cache_coherent_def Let_def
  proof (intro allI impI)
    fix x assume x: "x < chunk_ids c'"
    show "(md_dirty (bc_metadata c' ! x) \<longrightarrow> md_occupied (bc_metadata c' ! x)) \<and>
        (md_occupied (bc_metadata c' ! x) \<longrightarrow> (md_tag (bc_metadata c' ! x) * chunk_ids c' + x) * blocks_per_chunk c' < 2 ^ 64) \<and>
        (md_occupied (bc_metadata c' ! x) \<and> \<not> md_dirty (bc_metadata c' ! x) \<longrightarrow> (\<forall>j < chunk_size c'.
           bc_buffer c' ! (x * chunk_size c' + j) =
           content (bc_store c') ((md_tag (bc_metadata c' ! x) * chunk_ids c' + x) * chunk_size c' + j)))"
    proof (cases "x = ?i")
      case True
      then show ?thesis using md' i g new by (simp add: c' whole)
    next
      case False
      then show ?thesis using x coh other by (auto simp: c' cache_coherent_def Let_def)
    qed
  qed
  then show ?thesis using shape len md' i by (simp add: c' chunk_loaded_def)
qed

text \<open>Loading a chunk, in all cases.\<close>

definition same_geometry :: "'s block_cache \<Rightarrow> 's block_cache \<Rightarrow> bool" where
  "same_geometry c c' \<longleftrightarrow> chunk_size c' = chunk_size c \<and> chunk_id_bits c' = chunk_id_bits c \<and>
     bc_block_size c' = bc_block_size c \<and> blocks_per_chunk c' = blocks_per_chunk c"

lemma load_chunk_Ok:
  assumes law: "store_law ops content" and shape: "cache_shape ops c" and coh: "cache_coherent content c"
    and g: "g * blocks_per_chunk c < 2 ^ 64"
  shows "load_chunk ops (g div chunk_ids c) (g mod chunk_ids c) d c \<noteq> Panic"
    "load_chunk ops (g div chunk_ids c) (g mod chunk_ids c) d c = Ok c' \<Longrightarrow>
       same_geometry c c' \<and> cache_shape ops c' \<and> cache_coherent content c' \<and> chunk_loaded c' g \<and>
       (\<forall>h j. j < chunk_size c \<longrightarrow> chunk_view content c' h j = chunk_view content c h j) \<and>
       (chunk_loaded c g \<and> c' = c \<or> \<not> chunk_loaded c g \<and> md_dirty (bc_metadata c' ! (g mod chunk_ids c)) = d)"
proof -
  let ?r = "load_chunk ops (g div chunk_ids c) (g mod chunk_ids c) d c"
  have present: "?r = Ok c" if "chunk_loaded c g"
    using that chunk_id_lt [OF shape, of g] cache_shape_sizes(5) [OF shape]
    by (simp add: load_chunk_def chunk_loaded_def Let_def)
  show "?r \<noteq> Panic"
    using present load_chunk_replaces(1) [OF law shape coh g, of d] by (cases "chunk_loaded c g") simp_all
  assume r: "?r = Ok c'"
  show "same_geometry c c' \<and> cache_shape ops c' \<and> cache_coherent content c' \<and> chunk_loaded c' g \<and>
       (\<forall>h j. j < chunk_size c \<longrightarrow> chunk_view content c' h j = chunk_view content c h j) \<and>
       (chunk_loaded c g \<and> c' = c \<or> \<not> chunk_loaded c g \<and> md_dirty (bc_metadata c' ! (g mod chunk_ids c)) = d)"
  proof (cases "chunk_loaded c g")
    case True
    then show ?thesis using present r shape coh by (simp add: same_geometry_def)
  next
    case False
    note rep = load_chunk_replaces(2) [OF law shape coh g False r]
    have "same_geometry c c'" using rep by (auto simp: chunk_replaced_def same_geometry_def Let_def)
    then show ?thesis
      using False chunk_replaced_coherent [OF shape coh g rep] chunk_replaced_view [OF shape coh False rep] by blast
  qed
qed

section \<open>The cache is a flat array of bytes\<close>

text \<open>A range of bytes of the device that lies in one chunk, by block address and byte offset.\<close>

definition in_one_chunk :: "'s block_cache \<Rightarrow> nat \<Rightarrow> nat \<Rightarrow> nat \<Rightarrow> bool" where
  "in_one_chunk c a off len \<longleftrightarrow> 0 < len \<and> (a * bc_block_size c + off) mod chunk_size c + len \<le> chunk_size c \<and>
     a * bc_block_size c + off < 2 ^ 64 * bc_block_size c"

lemma locate_bytes_one_chunk:
  assumes shape: "cache_shape ops c" and one: "in_one_chunk c a off len"
  defines "i \<equiv> a * bc_block_size c + off"
  defines "g \<equiv> i div chunk_size c"
  shows "g * blocks_per_chunk c < 2 ^ 64"
    "locate_bytes ops a off len d c =
       bind_outcome (load_chunk ops (g div chunk_ids c) (g mod chunk_ids c) d c)
         (\<lambda>c'. Ok (c', g mod chunk_ids c * chunk_size c' + i div bc_block_size c mod blocks_per_chunk c * bc_block_size c' + i mod bc_block_size c))"
proof -
  note sz = cache_shape_sizes [OF shape]
  have b: "0 < bc_block_size c" "chunk_size c = bc_block_size c * blocks_per_chunk c" using sz by (auto intro: gr0I)
  let ?a = "i div bc_block_size c"
  have "i < 2 ^ 64 * bc_block_size c" using one by (simp add: in_one_chunk_def i_def)
  then have addr: "?a < 2 ^ 64" by (rule less_mult_imp_div_less)
  have a: "?a = a + off div bc_block_size c" "i mod bc_block_size c = off mod bc_block_size c"
    using b(1) by (simp_all add: i_def)
  have g': "?a div blocks_per_chunk c = g" by (simp add: g_def b(2) div_mult2_eq)
  have "g * blocks_per_chunk c \<le> ?a" by (simp flip: g')
  then show "g * blocks_per_chunk c < 2 ^ 64" using addr by linarith
  have n: "div_ceil len (chunk_size c) = Suc 0"
  proof (cases "len = chunk_size c")
    case True
    then show ?thesis using sz(6) by (simp add: div_ceil_def)
  next
    case False
    then show ?thesis using one by (simp add: in_one_chunk_def div_ceil_def)
  qed
  have lt: "g mod chunk_ids c < num_chunks c" by (rule chunk_id_lt [OF shape])
  have small: "g mod chunk_ids c < usize_bound"
  proof -
    have "num_chunks c \<le> num_chunks c * chunk_size c" using sz(6) by simp
    moreover have "num_chunks c * chunk_size c < 2 ^ 63" using shape unfolding cache_shape_def by blast
    ultimately have "num_chunks c < 2 ^ 63" by linarith
    then show ?thesis using lt by simp
  qed
  have step: "(if bc_block_size c \<le> off
      then bind_outcome (add_checked a (off div bc_block_size c)) (\<lambda>a. Ok (a, off mod bc_block_size c))
      else Ok (a, off)) = (Ok (?a, i mod bc_block_size c) :: ('a, nat \<times> nat) cache_outcome)"
    using addr unfolding a by simp
  show "locate_bytes ops a off len d c =
       bind_outcome (load_chunk ops (g div chunk_ids c) (g mod chunk_ids c) d c)
         (\<lambda>c'. Ok (c', g mod chunk_ids c * chunk_size c' + ?a mod blocks_per_chunk c * bc_block_size c' + i mod bc_block_size c))"
    using b(1) lt small unfolding locate_bytes_def step
    by (cases "load_chunk ops (g div chunk_ids c) (g mod chunk_ids c) d c")
      (simp_all add: decompose_address_eq [OF shape addr] g' n load_chunks_def)
qed

text \<open>Where the bytes are after the load.\<close>

lemma locate_bytes_Ok:
  assumes law: "store_law ops content" and shape: "cache_shape ops c" and coh: "cache_coherent content c"
    and one: "in_one_chunk c a off len"
  defines "i \<equiv> a * bc_block_size c + off"
  defines "g \<equiv> i div chunk_size c"
  shows "locate_bytes ops a off len d c \<noteq> Panic"
    "locate_bytes ops a off len d c = Ok (c', pos) \<Longrightarrow>
       pos = g mod chunk_ids c * chunk_size c + i mod chunk_size c \<and> same_geometry c c' \<and> cache_shape ops c' \<and>
       cache_coherent content c' \<and> chunk_loaded c' g \<and> cache_view content c' = cache_view content c \<and>
       (chunk_loaded c g \<and> c' = c \<or> \<not> chunk_loaded c g \<and> md_dirty (bc_metadata c' ! (g mod chunk_ids c)) = d)"
proof -
  note sz = cache_shape_sizes [OF shape]
  note loc = locate_bytes_one_chunk [OF shape one, folded i_def, folded g_def]
  note load = load_chunk_Ok [OF law shape coh loc(1), of d]
  show "locate_bytes ops a off len d c \<noteq> Panic" using load(1) by (simp add: loc(2) bind_outcome_Panic_iff)
  assume "locate_bytes ops a off len d c = Ok (c', pos)"
  then have l: "load_chunk ops (g div chunk_ids c) (g mod chunk_ids c) d c = Ok c'"
    and pos: "pos = g mod chunk_ids c * chunk_size c' + i div bc_block_size c mod blocks_per_chunk c * bc_block_size c' + i mod bc_block_size c"
    by (auto simp: loc(2) bind_outcome_Ok_iff)
  note c' = load(2) [OF l]
  have "chunk_size c = bc_block_size c * blocks_per_chunk c" using sz by simp
  then have "i mod chunk_size c = i div bc_block_size c mod blocks_per_chunk c * bc_block_size c + i mod bc_block_size c"
    by (simp add: mod_mult2_eq mult.commute)
  then have "pos = g mod chunk_ids c * chunk_size c + i mod chunk_size c" using pos c' by (simp add: same_geometry_def)
  moreover have "cache_view content c' = cache_view content c"
    using c' sz(6) by (auto simp: cache_view_def same_geometry_def fun_eq_iff)
  ultimately show "pos = g mod chunk_ids c * chunk_size c + i mod chunk_size c \<and> same_geometry c c' \<and> cache_shape ops c' \<and>
       cache_coherent content c' \<and> chunk_loaded c' g \<and> cache_view content c' = cache_view content c \<and>
       (chunk_loaded c g \<and> c' = c \<or> \<not> chunk_loaded c g \<and> md_dirty (bc_metadata c' ! (g mod chunk_ids c)) = d)"
    using c' by blast
qed

lemma in_chunk_div_mod:
  assumes "i mod n + len \<le> n" "k < (len :: nat)"
  shows "(i + k) div n = i div n" "(i + k) mod n = i mod n + k"
proof -
  have "i + k = i div n * n + (i mod n + k)" by simp
  moreover have "i mod n + k < n" using assms by linarith
  ultimately show "(i + k) div n = i div n" "(i + k) mod n = i mod n + k"
    using chunk_index [of "i mod n + k" n "i div n"] by metis+
qed

lemma chunk_range_fits:
  assumes "cache_shape ops c" "i mod chunk_size c + len \<le> chunk_size c"
  shows "g mod chunk_ids c * chunk_size c + i mod chunk_size c + len \<le> length (bc_buffer c)"
  using chunk_phy_addr_eq(2) [OF assms(1) chunk_id_lt [OF assms(1)], of g] assms(2) by linarith

lemma copy_bytes_Ok:
  assumes law: "store_law ops content" and shape: "cache_shape ops c" and coh: "cache_coherent content c"
    and one: "in_one_chunk c a off len"
  defines "i \<equiv> a * bc_block_size c + off"
  shows "copy_bytes ops a off len c \<noteq> Panic"
    "copy_bytes ops a off len c = Ok (c', bytes) \<Longrightarrow> bytes = map (cache_view content c) [i..<i + len] \<and>
       same_geometry c c' \<and> cache_shape ops c' \<and> cache_coherent content c' \<and> cache_view content c' = cache_view content c"
proof -
  let ?g = "i div chunk_size c"
  note loc = locate_bytes_Ok [OF law shape coh one, folded i_def]
  have fits: "i mod chunk_size c + len \<le> chunk_size c" using one by (simp add: in_one_chunk_def i_def)
  have slice: "slice_range (bc_buffer c') pos (pos + len) = (Ok (take len (drop pos (bc_buffer c'))) :: ('a, 8 word list) cache_outcome)"
    "pos + len \<le> length (bc_buffer c')"
    if "locate_bytes ops a off len False c = Ok (c', pos)" for c' pos
    using loc(2) [OF that] chunk_range_fits [of ops c' i len ?g] fits
    by (auto simp: slice_range_def same_geometry_def)
  show "copy_bytes ops a off len c \<noteq> Panic"
    using loc(1) slice(1) by (auto simp: copy_bytes_def bind_outcome_Panic_iff)
  assume "copy_bytes ops a off len c = Ok (c', bytes)"
  then obtain pos where l: "locate_bytes ops a off len False c = Ok (c', pos)" and b: "bytes = take len (drop pos (bc_buffer c'))"
    using slice(1) by (auto simp: copy_bytes_def bind_outcome_Ok_iff)
  note c' = loc(2) [OF l]
  have geo: "chunk_size c' = chunk_size c" "chunk_id_bits c' = chunk_id_bits c" and loaded: "chunk_loaded c' ?g"
    and pos: "pos = ?g mod chunk_ids c * chunk_size c + i mod chunk_size c"
    using c' by (simp_all add: same_geometry_def)
  have "bytes ! k = cache_view content c' (i + k)" if "k < len" for k
    using b that slice(2) [OF l] loaded in_chunk_div_mod [OF fits that]
    by (simp add: cache_view_def chunk_view_def geo pos add.assoc)
  moreover have "length bytes = len" using b slice(2) [OF l] by simp
  ultimately have "bytes = map (cache_view content c') [i..<i + len]" by (intro nth_equalityI) simp_all
  then show "bytes = map (cache_view content c) [i..<i + len] \<and>
       same_geometry c c' \<and> cache_shape ops c' \<and> cache_coherent content c' \<and> cache_view content c' = cache_view content c"
    using c' by simp
qed

text \<open>A write is tracked when its chunk is not in the cache, or is dirty already.\<close>

definition write_tracked :: "'s block_cache \<Rightarrow> nat \<Rightarrow> nat \<Rightarrow> bool" where
  "write_tracked c a off \<longleftrightarrow>
     (let g = (a * bc_block_size c + off) div chunk_size c in
      chunk_loaded c g \<longrightarrow> md_dirty (bc_metadata c ! (g mod chunk_ids c)))"

definition put_bytes :: "(nat \<Rightarrow> 'a) \<Rightarrow> nat \<Rightarrow> 'a list \<Rightarrow> nat \<Rightarrow> 'a" where
  "put_bytes f i ys k = (if i \<le> k \<and> k < i + length ys then ys ! (k - i) else f k)"

text \<open>Writing into a dirty chunk of the buffer.\<close>

lemma write_chunk_view:
  assumes shape: "cache_shape ops c" and coh: "cache_coherent content c" and loaded: "chunk_loaded c (i div chunk_size c)"
    and dirty: "md_dirty (bc_metadata c ! (i div chunk_size c mod chunk_ids c))"
    and fits: "i mod chunk_size c + length src \<le> chunk_size c" "src \<noteq> []"
  defines "pos \<equiv> i div chunk_size c mod chunk_ids c * chunk_size c + i mod chunk_size c"
  defines "c' \<equiv> c\<lparr>bc_buffer := take pos (bc_buffer c) @ src @ drop (pos + length src) (bc_buffer c)\<rparr>"
  shows "cache_shape ops c' \<and> cache_coherent content c' \<and> cache_view content c' = put_bytes (cache_view content c) i src"
proof -
  note sz = cache_shape_sizes [OF shape]
  let ?sz = "chunk_size c" and ?n = "chunk_ids c"
  let ?g = "i div ?sz"
  have len: "pos + length src \<le> length (bc_buffer c)" using chunk_range_fits [OF shape fits(1), of ?g] by (simp add: pos_def)
  have nth: "bc_buffer c' ! (x * ?sz + j) = (if x = ?g mod ?n \<and> i mod ?sz \<le> j \<and> j < i mod ?sz + length src
      then src ! (j - i mod ?sz) else bc_buffer c ! (x * ?sz + j))" if "x < num_chunks c" "j < ?sz" for x j
  proof -
    have "x * ?sz + j < length (bc_buffer c)" using chunk_phy_addr_eq(2) [OF shape that(1)] that(2) by linarith
    moreover have "pos \<le> x * ?sz + j \<and> x * ?sz + j < pos + length src \<longleftrightarrow>
        x = ?g mod ?n \<and> i mod ?sz \<le> j \<and> j < i mod ?sz + length src"
      using in_chunk_iff [OF that(2), of "?g mod ?n" x] fits(1) by (auto simp: pos_def)
    ultimately show ?thesis using nth_write_slice [OF len] by (auto simp: c'_def pos_def)
  qed
  have "cache_view content c' k = put_bytes (cache_view content c) i src k" for k
  proof (cases "k div ?sz = ?g")
    case True
    have k: "k = ?g * ?sz + k mod ?sz" using div_mult_mod_eq [of k ?sz] True by simp
    have "i = ?g * ?sz + i mod ?sz" by simp
    then have "i \<le> k \<longleftrightarrow> i mod ?sz \<le> k mod ?sz" "k < i + length src \<longleftrightarrow> k mod ?sz < i mod ?sz + length src" "i \<le> k \<Longrightarrow> k - i = k mod ?sz - i mod ?sz"
      using k by linarith+
    then show ?thesis using True nth [OF chunk_id_lt [OF shape], of "k mod ?sz" ?g] sz(6) loaded
      by (auto simp: cache_view_def put_bytes_def chunk_view_def chunk_loaded_def c'_def)
  next
    case False
    have out: "\<not> (i \<le> k \<and> k < i + length src)"
    proof
      assume "i \<le> k \<and> k < i + length src"
      then have "k - i < length src" "i + (k - i) = k" by linarith+
      then show False using in_chunk_div_mod(1) [OF fits(1), of "k - i"] False by simp
    qed
    have "chunk_loaded c (k div ?sz) \<Longrightarrow> k div ?sz mod ?n \<noteq> ?g mod ?n"
      using loaded False div_mult_mod_eq [of "k div ?sz" ?n] div_mult_mod_eq [of ?g ?n] by (auto simp: chunk_loaded_def Let_def)
    then show ?thesis using out nth [OF chunk_id_lt [OF shape], of "k mod ?sz" "k div ?sz"] sz(6)
      by (auto simp: cache_view_def put_bytes_def chunk_view_def chunk_loaded_def c'_def)
  qed
  moreover have "cache_coherent content c'"
    unfolding cache_coherent_def Let_def
  proof (intro allI impI)
    fix x assume x: "x < chunk_ids c'"
    then have "x < num_chunks c" "x < ?n" using sz(4) by (simp_all add: c'_def)
    then show "(md_dirty (bc_metadata c' ! x) \<longrightarrow> md_occupied (bc_metadata c' ! x)) \<and>
        (md_occupied (bc_metadata c' ! x) \<longrightarrow> (md_tag (bc_metadata c' ! x) * chunk_ids c' + x) * blocks_per_chunk c' < 2 ^ 64) \<and>
        (md_occupied (bc_metadata c' ! x) \<and> \<not> md_dirty (bc_metadata c' ! x) \<longrightarrow> (\<forall>j < chunk_size c'.
           bc_buffer c' ! (x * chunk_size c' + j) =
           content (bc_store c') ((md_tag (bc_metadata c' ! x) * chunk_ids c' + x) * chunk_size c' + j)))"
      using coh nth [of x] dirty by (auto simp: c'_def cache_coherent_def Let_def)
  qed
  moreover have "cache_shape ops c'" using shape len by (simp add: c'_def)
  ultimately show ?thesis by (simp add: fun_eq_iff)
qed

lemma write_bytes_Ok:
  assumes law: "store_law ops content" and shape: "cache_shape ops c" and coh: "cache_coherent content c"
    and one: "in_one_chunk c a off (length src)"
  defines "i \<equiv> a * bc_block_size c + off"
  shows "write_bytes ops a off src c \<noteq> Panic"
    "write_bytes ops a off src c = Ok c' \<Longrightarrow> write_tracked c a off \<Longrightarrow> same_geometry c c' \<and> cache_shape ops c' \<and>
       cache_coherent content c' \<and> cache_view content c' = put_bytes (cache_view content c) i src"
proof -
  let ?g = "i div chunk_size c"
  note loc = locate_bytes_Ok [OF law shape coh one, folded i_def]
  have fits: "i mod chunk_size c + length src \<le> chunk_size c" "src \<noteq> []" using one by (auto simp: in_one_chunk_def i_def)
  have slice: "write_slice (bc_buffer c1) pos src =
      (Ok (take pos (bc_buffer c1) @ src @ drop (pos + length src) (bc_buffer c1)) :: ('a, 8 word list) cache_outcome)"
    if "locate_bytes ops a off (length src) True c = Ok (c1, pos)" for c1 pos
    using loc(2) [OF that] chunk_range_fits [of ops c1 i "length src" ?g] fits(1)
    by (auto simp: write_slice_def same_geometry_def)
  show "write_bytes ops a off src c \<noteq> Panic"
    using loc(1) slice by (auto simp: write_bytes_def bind_outcome_Panic_iff)
  assume w: "write_bytes ops a off src c = Ok c'" and tracked: "write_tracked c a off"
  obtain c1 pos where l: "locate_bytes ops a off (length src) True c = Ok (c1, pos)"
    and c': "c' = c1\<lparr>bc_buffer := take pos (bc_buffer c1) @ src @ drop (pos + length src) (bc_buffer c1)\<rparr>"
    using w slice by (auto simp: write_bytes_def bind_outcome_Ok_iff)
  note c1 = loc(2) [OF l]
  have geo: "chunk_size c1 = chunk_size c" "chunk_id_bits c1 = chunk_id_bits c" using c1 by (simp_all add: same_geometry_def)
  have "md_dirty (bc_metadata c1 ! (?g mod chunk_ids c))"
    using c1 tracked by (auto simp: write_tracked_def Let_def i_def)
  then have "cache_shape ops c' \<and> cache_coherent content c' \<and> cache_view content c' = put_bytes (cache_view content c1) i src"
    using write_chunk_view [of ops c1 content i src] c1 fits by (simp add: c' geo)
  moreover have "same_geometry c c'" using c1 by (simp add: same_geometry_def c')
  ultimately show "same_geometry c c' \<and> cache_shape ops c' \<and>
       cache_coherent content c' \<and> cache_view content c' = put_bytes (cache_view content c) i src"
    using c1 by simp
qed

text \<open>
  A history of reads and tracked writes of ranges inside a chunk, and the array of bytes it should
  amount to.
\<close>

inductive cache_reach :: "'s store_ops \<Rightarrow> ('s \<Rightarrow> nat \<Rightarrow> 8 word) \<Rightarrow> 's block_cache \<Rightarrow> (nat \<Rightarrow> 8 word) \<Rightarrow> bool"
  for ops content where
  cache_start: "cache_shape ops c \<Longrightarrow> (\<forall>md\<in>set (bc_metadata c). md = 0) \<Longrightarrow> cache_reach ops content c (content (bc_store c))"
| cache_copy: "cache_reach ops content c f \<Longrightarrow> in_one_chunk c a off len \<Longrightarrow>
    copy_bytes ops a off len c = Ok (c', bytes) \<Longrightarrow> cache_reach ops content c' f"
| cache_write: "cache_reach ops content c f \<Longrightarrow> in_one_chunk c a off (length src) \<Longrightarrow> write_tracked c a off \<Longrightarrow>
    write_bytes ops a off src c = Ok c' \<Longrightarrow> cache_reach ops content c' (put_bytes f (a * bc_block_size c + off) src)"

lemma cache_reach_view:
  assumes "cache_reach ops content c f" "store_law ops content"
  shows "cache_shape ops c \<and> cache_coherent content c \<and> cache_view content c = f"
  using assms
proof (induction rule: cache_reach.induct)
  case (cache_start c)
  note sz = cache_shape_sizes [OF cache_start(1)]
  have md: "bc_metadata c ! x = 0" if "x < chunk_ids c" for x using cache_start(2) that sz(4,5) by simp
  show ?case using cache_start(1) md
    by (auto simp: md_zero cache_coherent_def cache_view_def chunk_view_def chunk_loaded_def Let_def fun_eq_iff)
next
  case (cache_copy c f a off len c' bytes)
  then show ?case using copy_bytes_Ok(2) by blast
next
  case (cache_write c f a off src c')
  then show ?case using write_bytes_Ok(2) by blast
qed


text \<open>A store in memory, with blocks of two bytes, and a cache of two chunks over it.\<close>

definition ram_content :: "8 word list \<Rightarrow> nat \<Rightarrow> 8 word" where
  "ram_content s i = (if i < length s then s ! i else 0)"

definition ram_store :: "8 word list store_ops" where
  "ram_store = \<lparr>so_block_size = 2,
     so_read = (\<lambda>a n s. Ok (map (ram_content s) [a * 2 ..< (a + n) * 2], s)),
     so_write = (\<lambda>bs a s. if a * 2 + length bs \<le> length s
       then Ok (take (a * 2) s @ bs @ drop (a * 2 + length bs) s) else Err (DeviceError, s))\<rparr>"

definition ram_cache :: "8 word list block_cache" where
  "ram_cache = \<lparr>bc_store = [0, 1, 2, 3, 4, 5, 6, 7, 8, 9, 10, 11], block_offset_bits = 1, chunk_id_bits = 1, bc_block_size = 2,
     chunk_size = 4, blocks_per_chunk = 2, num_chunks = 2, bc_metadata = [0, 0], bc_buffer = [0, 0, 0, 0, 0, 0, 0, 0], bc_buffer_pa = 0x40000000\<rparr>"

lemma ram_store_law: "store_law ram_store ram_content"
  by (auto simp: store_law_def ram_store_def ram_content_def fun_eq_iff nth_append split: if_splits)

lemma ram_cache_reach: "cache_reach ram_store ram_content ram_cache (ram_content (bc_store ram_cache))"
  by (rule cache_start) (simp_all add: cache_shape_def ram_cache_def ram_store_def)

lemmas cache_eval = copy_bytes_def write_bytes_def locate_bytes_def decompose_address_def bit_range_def load_chunks_def
  load_chunk_def fetch_chunk_def write_back_def chunk_bytes_def put_chunk_def chunk_phy_addr_def compose_address_def pa_offset_def
  write_slice_def slice_range_def ensure_def sub_checked_def add_checked_def mul_checked_def div_ceil_def md_zero md_fields
  ram_store_def ram_content_def

lemma upt_chunk: "[0..<4] = [0, 1, 2, 3 :: nat]"
  by (simp add: upt_rec)

lemma ram_cache_copy: "\<exists>c'. copy_bytes ram_store 1 1 1 ram_cache = Ok (c', [3])"
  by (simp add: cache_eval ram_cache_def Let_def upt_chunk)


text \<open>
  A write to a chunk that is loaded and clean is not tracked: read a byte, write it, read a byte of
  another chunk that takes its place, and the first byte is the old one again.
\<close>

definition lost_write :: "(unit, 8 word list) outcome" where
  "lost_write =
     bind_outcome (expect_ok (copy_bytes ram_store 0 0 1 ram_cache)) (\<lambda>(c, _).
     bind_outcome (expect_ok (write_bytes ram_store 0 0 [99] c)) (\<lambda>c.
     bind_outcome (expect_ok (copy_bytes ram_store 4 0 1 c)) (\<lambda>(c, _).
     bind_outcome (expect_ok (copy_bytes ram_store 0 0 1 c)) (\<lambda>(c, bytes). Ok bytes))))"

lemma clean_write_lost: "lost_write = Ok [0]"
  by (simp add: lost_write_def cache_eval ram_cache_def Let_def upt_chunk)

text \<open>
  Shapes \<open>cache_shape\<close> leaves out: with one block per chunk every address panics, and with more blocks per
  chunk than bytes per block the check of the block offset, which compares it with the block size,
  rejects addresses of the device. A range that runs past the last chunk of the cache panics instead of
  going on with the first.
\<close>

lemma one_block_per_chunk_panics: "block_offset_bits c = 0 \<Longrightarrow> decompose_address c a = Panic"
  by (simp add: decompose_address_def Let_def sub_checked_def)

lemma small_blocks_panic:
  "0 < block_offset_bits c \<Longrightarrow> bc_block_size c \<le> a mod 2 ^ block_offset_bits c \<Longrightarrow> decompose_address c a = Panic"
  by (cases "block_offset_bits c") (auto simp: decompose_address_def Let_def bit_range_def ensure_def)

lemma load_past_end_panics:
  "length (bc_metadata c) = num_chunks c \<Longrightarrow> chunk_id + i = num_chunks c \<Longrightarrow> num_chunks c < usize_bound \<Longrightarrow>
   load_chunks_from ops tag chunk_id d i (Suc n) c = Panic"
  by (simp add: load_chunk_def)

end
