(* ===== verification/Exit_State.thy ===== *)
theory Exit_State
  imports Kernel_Prelude
begin

text \<open>
  The exit state of a thread or a process and the future that waits for it (\<open>ExitState\<close> and \<open>ExitFuture\<close> in
  \<open>kernel/src/process/mod.rs\<close>). Wakers are numbers. The operations come twice: as functions that run to
  their end, and cut at their atomic accesses for the interleavings of a setter with pollers.
\<close>

section \<open>The operations\<close>

datatype thread_exit = ExitNormal nat | ExitPageFault | ExitKilled

record exit_state =
  exit_code :: "thread_exit option"
  exit_wakers :: "nat list"

definition exit_state_default :: exit_state where
  "exit_state_default = \<lparr>exit_code = None, exit_wakers = []\<rparr>"

text \<open>The first half of \<open>set\<close> is the \<open>Once\<close>, which keeps the first value; the second drains the wakers.\<close>

definition exit_store :: "thread_exit \<Rightarrow> exit_state \<Rightarrow> exit_state" where
  "exit_store val s = (case exit_code s of None \<Rightarrow> s\<lparr>exit_code := Some val\<rparr> | Some _ \<Rightarrow> s)"

definition exit_drain :: "exit_state \<Rightarrow> exit_state \<times> nat list" where
  "exit_drain s = (s\<lparr>exit_wakers := []\<rparr>, exit_wakers s)"

definition exit_set :: "thread_exit \<Rightarrow> exit_state \<Rightarrow> exit_state \<times> nat list" where
  "exit_set val s = exit_drain (exit_store val s)"

definition exit_register :: "nat \<Rightarrow> exit_state \<Rightarrow> exit_state" where
  "exit_register w s = s\<lparr>exit_wakers := exit_wakers s @ [w]\<rparr>"

definition exit_poll :: "nat \<Rightarrow> exit_state \<Rightarrow> exit_state \<times> thread_exit option" where
  "exit_poll w s = (case exit_code s of Some c \<Rightarrow> (s, Some c) | None \<Rightarrow> (exit_register w s, None))"

text \<open>
  Run one after the other, a poll before the exit is woken by it, and every poll after it returns the
  first value that was set.
\<close>

lemma exit_observed:
  assumes "exit_code s = None"
  shows "exit_poll w s = (exit_register w s, None)" "w \<in> set (snd (exit_set v (exit_register w s)))"
    "snd (exit_poll w' (fst (exit_set v s))) = Some v"
    "snd (exit_poll w' (fst (exit_set v' (fst (exit_set v s))))) = Some v"
  using assms by (simp_all add: exit_poll_def exit_set_def exit_drain_def exit_store_def exit_register_def)

section \<open>Interleavings\<close>

text \<open>A poll reads the code and then takes the lock of the wakers; a set stores the code and then takes it.\<close>

datatype exit_pc = At_poll | Seen_none | Poll_ready thread_exit | Poll_pending | At_set thread_exit | At_drain | Set_done

fun exit_step :: "nat \<Rightarrow> exit_state \<Rightarrow> exit_pc \<Rightarrow> exit_state \<times> exit_pc \<times> nat list" where
  "exit_step w s At_poll = (s, (case exit_code s of Some c \<Rightarrow> Poll_ready c | None \<Rightarrow> Seen_none), [])"
| "exit_step w s Seen_none = (exit_register w s, Poll_pending, [])"
| "exit_step w s (At_set v) = (exit_store v s, At_drain, [])"
| "exit_step w s At_drain = (let (s', woken) = exit_drain s in (s', Set_done, woken))"
| "exit_step w s pc = (s, pc, [])"

inductive exit_reach :: "(nat \<Rightarrow> exit_pc) \<Rightarrow> exit_state \<Rightarrow> (nat \<Rightarrow> exit_pc) \<Rightarrow> nat set \<Rightarrow> bool" for init where
  start: "exit_reach init exit_state_default init {}"
| step: "exit_reach init s pcs woken \<Longrightarrow> exit_step i s (pcs i) = (s', pc', ws) \<Longrightarrow>
    exit_reach init s' (pcs(i := pc')) (woken \<union> set ws)"

text \<open>
  The check and the registration are not one step: when a set runs between them, the waker is
  registered after the drain and is never woken.
\<close>

lemma exit_wakeup_lost:
  "\<exists>s pcs. exit_reach (\<lambda>i. if i = 0 then At_poll else At_set ExitKilled) s pcs {} \<and>
     pcs 0 = Poll_pending \<and> pcs 1 = Set_done \<and> exit_code s = Some ExitKilled \<and> exit_wakers s = [0]"
proof -
  let ?init = "\<lambda>i::nat. if i = 0 then At_poll else At_set ExitKilled"
  let ?s = "\<lparr>exit_code = Some ExitKilled, exit_wakers = []\<rparr>"
  note defs = exit_state_default_def exit_store_def exit_drain_def exit_register_def
  from exit_reach.step [OF exit_reach.start [of ?init], of 0 exit_state_default Seen_none "[]"]
  have "exit_reach ?init exit_state_default (?init(0 := Seen_none)) {}" by (simp add: defs)
  from exit_reach.step [OF this, of 1 ?s At_drain "[]"]
  have "exit_reach ?init ?s (?init(0 := Seen_none, 1 := At_drain)) {}" by (simp add: defs)
  from exit_reach.step [OF this, of 1 ?s Set_done "[]"]
  have "exit_reach ?init ?s (?init(0 := Seen_none, 1 := Set_done)) {}" by (simp add: defs)
  from exit_reach.step [OF this, of 0 "?s\<lparr>exit_wakers := [0]\<rparr>" Poll_pending "[]"]
  have "exit_reach ?init (?s\<lparr>exit_wakers := [0]\<rparr>) (?init(0 := Poll_pending, 1 := Set_done)) {}"
    by (simp add: defs fun_upd_twist)
  then show ?thesis by - (rule exI, rule exI, rule conjI, assumption, simp)
qed

end
