(* ===== verification/Conc_List.thy ===== *)
theory Conc_List
  imports Kernel_Prelude
begin

text \<open>
  The linked list behind the tables of threads, processes and queues (\<open>ConcurrentLinkedList\<close> in
  \<open>kernel/src/ds/lists.rs\<close>) on an explicit heap. A pointer is a number and 0 is null; reading through a
  pointer to freed memory is undefined and fails as \<open>Panic\<close>. Each operation runs to its end before the
  next one starts, and iterators live across operations, so elements are removed under them.
\<close>

section \<open>The list in memory\<close>

record 'a list_node =
  nd_data :: 'a
  nd_next :: nat

text \<open>Nodes of the list and of the pool of nodes whose deletion is pending; a pool node owns a list node.\<close>

record 'a conc_list =
  cl_nodes :: "nat \<Rightarrow> 'a list_node option"
  cl_head :: nat
  cl_readers :: "64 word"
  cl_pool :: "nat \<Rightarrow> nat list_node option"
  cl_pending_deletion :: nat

definition cl_default :: "'a conc_list" where
  "cl_default = \<lparr>cl_nodes = Map.empty, cl_head = 0, cl_readers = 0, cl_pool = Map.empty, cl_pending_deletion = 0\<rparr>"

definition node_new :: "'a \<Rightarrow> 'a list_node" where
  "node_new data = \<lparr>nd_data = data, nd_next = 0\<rparr>"

text \<open>\<open>as_ref\<close> of a pointer.\<close>

definition deref :: "(nat \<Rightarrow> 'n option) \<Rightarrow> nat \<Rightarrow> (unit, 'n option) outcome" where
  "deref h p = (if p = 0 then Ok None else case h p of None \<Rightarrow> Panic | Some n \<Rightarrow> Ok (Some n))"

text \<open>The loop of \<open>push\<close>; \<open>new\<close> is the address the allocator returned for the node.\<close>

function push_loop :: "nat \<Rightarrow> 'a \<Rightarrow> nat \<Rightarrow> 'a conc_list \<Rightarrow> 'a conc_list" where
  "push_loop new data current_head l =
     (let l = l\<lparr>cl_nodes := (cl_nodes l)(new \<mapsto> (node_new data)\<lparr>nd_next := current_head\<rparr>)\<rparr> in
      if cl_head l = current_head then l\<lparr>cl_head := new\<rparr> else push_loop new data (cl_head l) l)"
  by pat_completeness auto
termination
  by (relation "measure (\<lambda>(_, _, current_head, l). if cl_head l = current_head then 0 else 1)") auto

declare push_loop.simps [simp del]

definition cl_push :: "nat \<Rightarrow> 'a \<Rightarrow> 'a conc_list \<Rightarrow> 'a conc_list" where
  "cl_push new data l = push_loop new data (cl_head l) l"

function pool_push_loop :: "nat \<Rightarrow> nat \<Rightarrow> nat \<Rightarrow> 'a conc_list \<Rightarrow> 'a conc_list" where
  "pool_push_loop new data current_head l =
     (let l = l\<lparr>cl_pool := (cl_pool l)(new \<mapsto> (node_new data)\<lparr>nd_next := current_head\<rparr>)\<rparr> in
      if cl_pending_deletion l = current_head then l\<lparr>cl_pending_deletion := new\<rparr>
      else pool_push_loop new data (cl_pending_deletion l) l)"
  by pat_completeness auto
termination
  by (relation "measure (\<lambda>(_, _, current_head, l). if cl_pending_deletion l = current_head then 0 else 1)") auto

declare pool_push_loop.simps [simp del]

definition push_pending_deletion :: "nat \<Rightarrow> nat \<Rightarrow> 'a conc_list \<Rightarrow> 'a conc_list" where
  "push_pending_deletion new data l =
     (if cl_readers l = 0 then l\<lparr>cl_nodes := (cl_nodes l)(data := None)\<rparr>
      else pool_push_loop new data (cl_pending_deletion l) l)"

section \<open>Removal\<close>

text \<open>The result of the first loop: return with a result, or go on to the rest of the list.\<close>

datatype 'r flow = Return 'r | Continue

function remove_head :: "('a \<Rightarrow> bool) \<Rightarrow> nat \<Rightarrow> nat \<Rightarrow> 'a conc_list \<Rightarrow> (unit, 'a conc_list \<times> 'a option flow) outcome" where
  "remove_head predicate new head_ptr l =
     bind_outcome (deref (cl_nodes l) head_ptr) (\<lambda>h.
     case h of
       None \<Rightarrow> Ok (l, Return None)
     | Some head \<Rightarrow>
         if predicate (nd_data head) then
           if cl_head l = head_ptr
           then Ok (push_pending_deletion new head_ptr (l\<lparr>cl_head := nd_next head\<rparr>), Return (Some (nd_data head)))
           else remove_head predicate new (cl_head l) l
         else Ok (l, Continue))"
  by pat_completeness auto
termination
  by (relation "measure (\<lambda>(_, _, head_ptr, l). if cl_head l = head_ptr then 0 else 1)") auto

declare remove_head.simps [simp del]

text \<open>The place a pointer is stored in: the head of the list or the next field of a node.\<close>

datatype ptr_place = Head_place | Next_place nat

fun place_load :: "ptr_place \<Rightarrow> 'a conc_list \<Rightarrow> (unit, nat) outcome" where
  "place_load Head_place l = Ok (cl_head l)"
| "place_load (Next_place p) l = (case cl_nodes l p of None \<Rightarrow> Panic | Some n \<Rightarrow> Ok (nd_next n))"

fun place_store :: "ptr_place \<Rightarrow> nat \<Rightarrow> 'a conc_list \<Rightarrow> 'a conc_list" where
  "place_store Head_place v l = l\<lparr>cl_head := v\<rparr>"
| "place_store (Next_place p) v l =
     l\<lparr>cl_nodes := (cl_nodes l)(p := map_option (\<lambda>n. n\<lparr>nd_next := v\<rparr>) (cl_nodes l p))\<rparr>"

partial_function (option) remove_rest ::
  "('a \<Rightarrow> bool) \<Rightarrow> nat \<Rightarrow> ptr_place \<Rightarrow> nat \<Rightarrow> 'a conc_list \<Rightarrow> (unit, 'a conc_list \<times> 'a option) outcome option" where
  "remove_rest predicate new prev_ptr current_ptr l =
     (case deref (cl_nodes l) current_ptr of
        Err e \<Rightarrow> Some (Err e)
      | Panic \<Rightarrow> Some Panic
      | Ok None \<Rightarrow> Some (Ok (l, None))
      | Ok (Some current) \<Rightarrow>
          if predicate (nd_data current) then
            (case place_load prev_ptr l of
               Err e \<Rightarrow> Some (Err e)
             | Panic \<Rightarrow> Some Panic
             | Ok v \<Rightarrow>
                 if v = current_ptr then
                   Some (Ok (push_pending_deletion new current_ptr (place_store prev_ptr (nd_next current) l),
                     Some (nd_data current)))
                 else remove_rest predicate new prev_ptr v l)
          else remove_rest predicate new (Next_place current_ptr) (nd_next current) l)"

definition remove_cloned :: "('a \<Rightarrow> bool) \<Rightarrow> nat \<Rightarrow> 'a conc_list \<Rightarrow> (unit, 'a conc_list \<times> 'a option) outcome option" where
  "remove_cloned predicate new l =
     (case remove_head predicate new (cl_head l) l of
        Err e \<Rightarrow> Some (Err e)
      | Panic \<Rightarrow> Some Panic
      | Ok (l', Return r) \<Rightarrow> Some (Ok (l', r))
      | Ok (l', Continue) \<Rightarrow> remove_rest predicate new Head_place (cl_head l') l')"

text \<open>\<open>remove\<close> is the same text without the clone: it tells whether an element was found.\<close>

definition cl_remove :: "('a \<Rightarrow> bool) \<Rightarrow> nat \<Rightarrow> 'a conc_list \<Rightarrow> (unit, 'a conc_list \<times> bool) outcome option" where
  "cl_remove predicate new l =
     map_option (\<lambda>r. bind_outcome r (\<lambda>(l', v). Ok (l', v \<noteq> None))) (remove_cloned predicate new l)"

section \<open>Iteration\<close>

text \<open>An iterator is its current pointer.\<close>

definition cl_iter :: "'a conc_list \<Rightarrow> 'a conc_list \<times> nat" where
  "cl_iter l = (l\<lparr>cl_readers := cl_readers l + 1\<rparr>, cl_head l)"

definition iter_next :: "'a conc_list \<Rightarrow> nat \<Rightarrow> (unit, nat \<times> 'a option) outcome" where
  "iter_next l current =
     bind_outcome (deref (cl_nodes l) current) (\<lambda>n.
     Ok (case n of Some n \<Rightarrow> (nd_next n, Some (nd_data n)) | None \<Rightarrow> (current, None)))"

text \<open>
  \<open>free_pool\<close> as it stands: after a node has been taken out and freed, the loop goes on with the same
  pointer.
\<close>

partial_function (option) free_pool_loop :: "nat \<Rightarrow> 'a conc_list \<Rightarrow> (unit, 'a conc_list) outcome option" where
  "free_pool_loop head_ptr l =
     (case deref (cl_pool l) head_ptr of
        Err e \<Rightarrow> Some (Err e)
      | Panic \<Rightarrow> Some Panic
      | Ok None \<Rightarrow> Some (Ok l)
      | Ok (Some head) \<Rightarrow>
          if cl_pending_deletion l = head_ptr then
            free_pool_loop head_ptr
              (l\<lparr>cl_pending_deletion := nd_next head, cl_pool := (cl_pool l)(head_ptr := None),
                cl_nodes := (cl_nodes l)(nd_data head := None)\<rparr>)
          else free_pool_loop (cl_pending_deletion l) l)"

definition free_pool :: "'a conc_list \<Rightarrow> (unit, 'a conc_list) outcome option" where
  "free_pool l = free_pool_loop (cl_pending_deletion l) l"

definition iter_drop :: "'a conc_list \<Rightarrow> (unit, 'a conc_list) outcome option" where
  "iter_drop l =
     (let l' = l\<lparr>cl_readers := cl_readers l - 1\<rparr> in if cl_readers l = 1 then free_pool l' else Some (Ok l'))"

partial_function (option) drop_nodes :: "nat \<Rightarrow> 'a conc_list \<Rightarrow> (unit, 'a conc_list) outcome option" where
  "drop_nodes current l =
     (if current = 0 then Some (Ok l)
      else case cl_nodes l current of
        None \<Rightarrow> Some Panic
      | Some n \<Rightarrow> drop_nodes (nd_next n) (l\<lparr>cl_nodes := (cl_nodes l)(current := None)\<rparr>))"

definition cl_drop :: "'a conc_list \<Rightarrow> (unit, 'a conc_list) outcome option" where
  "cl_drop l =
     (case drop_nodes (cl_head l) (l\<lparr>cl_head := 0\<rparr>) of
        Some (Ok l') \<Rightarrow> free_pool l'
      | r \<Rightarrow> r)"


section \<open>Paths through the heap\<close>

primrec node_path :: "(nat \<Rightarrow> 'a list_node option) \<Rightarrow> nat \<Rightarrow> nat list \<Rightarrow> nat \<Rightarrow> bool" where
  "node_path h p [] q \<longleftrightarrow> p = q"
| "node_path h p (a # ps) q \<longleftrightarrow> p = a \<and> a \<noteq> 0 \<and> (\<exists>n. h a = Some n \<and> node_path h (nd_next n) ps q)"

definition datas :: "(nat \<Rightarrow> 'a list_node option) \<Rightarrow> nat list \<Rightarrow> 'a list" where
  "datas h ps = map (\<lambda>p. nd_data (the (h p))) ps"

definition remove_first :: "('a \<Rightarrow> bool) \<Rightarrow> 'a list \<Rightarrow> 'a list" where
  "remove_first P xs = takeWhile (\<lambda>x. \<not> P x) xs @ tl (dropWhile (\<lambda>x. \<not> P x) xs)"

lemma path_append: "node_path h p (us @ vs) q \<longleftrightarrow> (\<exists>r. node_path h p us r \<and> node_path h r vs q)"
  by (induction us arbitrary: p) auto

lemma path_upd: "a \<notin> set ps \<Longrightarrow> node_path (h(a := x)) p ps q \<longleftrightarrow> node_path h p ps q"
  by (induction ps arbitrary: p) auto

lemma path_dom: "node_path h p ps q \<Longrightarrow> set ps \<subseteq> dom h - {0}"
  by (induction ps arbitrary: p) auto

lemma datas_simps [simp]:
  "datas h [] = []" "datas h (p # ps) = nd_data (the (h p)) # datas h ps" "datas h (us @ vs) = datas h us @ datas h vs"
  by (simp_all add: datas_def)

lemma datas_cong: "(\<And>p. p \<in> set ps \<Longrightarrow> nd_data (the (h p)) = nd_data (the (h' p))) \<Longrightarrow> datas h ps = datas h' ps"
  by (simp add: datas_def)

lemma set_datas: "set (datas h ps) = (\<lambda>p. nd_data (the (h p))) ` set ps"
  by (simp add: datas_def)

lemma length_datas [simp]: "length (datas h ps) = length ps"
  by (simp add: datas_def)

lemma remove_first_split:
  assumes "\<forall>x\<in>set us. \<not> P x" "P x"
  shows "remove_first P (us @ x # vs) = us @ vs" "find P (us @ x # vs) = Some x"
  using assms by (induction us) (auto simp: remove_first_def)

lemma remove_first_none:
  assumes "\<forall>x\<in>set xs. \<not> P x"
  shows "remove_first P xs = xs" "find P xs = None"
  using assms by (induction xs) (simp_all add: remove_first_def)

text \<open>The place that points to the node after the nodes \<open>us\<close>.\<close>

definition place_after :: "ptr_place \<Rightarrow> nat list \<Rightarrow> ptr_place" where
  "place_after pl us = (if us = [] then pl else Next_place (last us))"

lemma place_after_Cons: "place_after pl (u # us) = place_after (Next_place u) us"
  by (simp add: place_after_def)

section \<open>What removal does\<close>

definition unlinked :: "nat \<Rightarrow> ptr_place \<Rightarrow> nat \<Rightarrow> 'a conc_list \<Rightarrow> 'a conc_list" where
  "unlinked new pl q l = push_pending_deletion new q (place_store pl (nd_next (the (cl_nodes l q))) l)"

lemma remove_rest_none:
  assumes "node_path (cl_nodes l) p ps 0" "\<forall>x\<in>set (datas (cl_nodes l) ps). \<not> P x"
  shows "remove_rest P new pl p l = Some (Ok (l, None))"
  using assms by (induction ps arbitrary: p pl) (subst remove_rest.simps; auto simp: deref_def)+

lemma remove_rest_some:
  assumes "node_path (cl_nodes l) p us q" "place_load pl l = Ok p" "\<forall>x\<in>set (datas (cl_nodes l) us). \<not> P x"
    "cl_nodes l q = Some n" "q \<noteq> 0" "P (nd_data n)"
  shows "remove_rest P new pl p l = Some (Ok (unlinked new (place_after pl us) q l, Some (nd_data n)))"
  using assms(1-3)
proof (induction us arbitrary: p pl)
  case Nil
  then show ?case using assms(4-6) by (subst remove_rest.simps) (simp add: deref_def unlinked_def place_after_def)
next
  case (Cons u us)
  then obtain m where m: "p = u" "u \<noteq> 0" "cl_nodes l u = Some m" "node_path (cl_nodes l) (nd_next m) us q" "\<not> P (nd_data m)"
    by auto
  then have "remove_rest P new (Next_place u) (nd_next m) l =
      Some (Ok (unlinked new (place_after (Next_place u) us) q l, Some (nd_data n)))"
    using Cons by simp
  then show ?case using m by (subst remove_rest.simps) (simp add: deref_def place_after_Cons)
qed

lemma remove_cloned_none:
  assumes "node_path (cl_nodes l) (cl_head l) ps 0" "\<forall>x\<in>set (datas (cl_nodes l) ps). \<not> P x"
  shows "remove_cloned P new l = Some (Ok (l, None))"
proof -
  have "remove_head P new (cl_head l) l = Ok (l, if ps = [] then Return None else Continue)"
    using assms by (cases ps) (subst remove_head.simps; auto simp: deref_def)+
  then show ?thesis using remove_rest_none [OF assms] by (simp add: remove_cloned_def)
qed

lemma remove_cloned_some:
  assumes "node_path (cl_nodes l) (cl_head l) us q" "\<forall>x\<in>set (datas (cl_nodes l) us). \<not> P x"
    "cl_nodes l q = Some n" "q \<noteq> 0" "P (nd_data n)"
  shows "remove_cloned P new l = Some (Ok (unlinked new (place_after Head_place us) q l, Some (nd_data n)))"
proof (cases us)
  case Nil
  have "remove_head P new (cl_head l) l = Ok (unlinked new Head_place q l, Return (Some (nd_data n)))"
    using assms Nil by (subst remove_head.simps) (simp add: deref_def unlinked_def)
  then show ?thesis using Nil by (simp add: remove_cloned_def place_after_def)
next
  case (Cons u us')
  have "remove_head P new (cl_head l) l = Ok (l, Continue)"
    using assms Cons by (subst remove_head.simps) (auto simp: deref_def)
  then show ?thesis using remove_rest_some [OF assms(1) _ assms(2-5), of Head_place new] by (simp add: remove_cloned_def)
qed

section \<open>The invariant\<close>

text \<open>
  With \<open>its\<close> the pointers of the live iterators and \<open>ps\<close> the nodes of the list: memory that can be reached
  from the list, a retained node or an iterator is allocated; while nothing is retained, the
  nodes of the list are all there is.
\<close>

definition cl_inv :: "'a conc_list \<Rightarrow> nat list \<Rightarrow> nat list \<Rightarrow> bool" where
  "cl_inv l its ps \<longleftrightarrow> node_path (cl_nodes l) (cl_head l) ps 0 \<and> distinct ps \<and> cl_nodes l 0 = None \<and>
     (\<forall>p n. cl_nodes l p = Some n \<longrightarrow> nd_next n = 0 \<or> cl_nodes l (nd_next n) \<noteq> None) \<and>
     (cl_pending_deletion l = 0 \<longrightarrow> dom (cl_nodes l) = set ps) \<and> (its = [] \<longrightarrow> cl_pending_deletion l = 0) \<and>
     (cl_pending_deletion l \<noteq> 0 \<longrightarrow> cl_pool l (cl_pending_deletion l) \<noteq> None) \<and>
     cl_readers l = of_nat (length its) \<and> length its < usize_bound \<and> (\<forall>c\<in>set its. c = 0 \<or> cl_nodes l c \<noteq> None)"

lemma cl_inv_default: "cl_inv cl_default [] []"
  by (simp add: cl_inv_def cl_default_def)

lemma cl_push_eq:
  "cl_push new x l = l\<lparr>cl_nodes := (cl_nodes l)(new \<mapsto> \<lparr>nd_data = x, nd_next = cl_head l\<rparr>), cl_head := new\<rparr>"
  by (simp add: cl_push_def push_loop.simps [of new x "cl_head l"] node_new_def)

lemma cl_invD:
  assumes "cl_inv l its ps"
  shows "node_path (cl_nodes l) (cl_head l) ps 0" "distinct ps" "cl_nodes l 0 = None"
    "cl_nodes l p = Some n \<Longrightarrow> nd_next n = 0 \<or> cl_nodes l (nd_next n) \<noteq> None"
    "cl_pending_deletion l = 0 \<Longrightarrow> dom (cl_nodes l) = set ps" "its = [] \<Longrightarrow> cl_pending_deletion l = 0"
    "cl_pending_deletion l \<noteq> 0 \<Longrightarrow> cl_pool l (cl_pending_deletion l) \<noteq> None"
    "cl_readers l = of_nat (length its)" "length its < usize_bound" "c \<in> set its \<Longrightarrow> c = 0 \<or> cl_nodes l c \<noteq> None"
  using assms unfolding cl_inv_def by blast+

lemma path_start: "node_path h p ps 0 \<Longrightarrow> p = 0 \<or> h p \<noteq> None"
  by (cases ps) auto

lemma cl_inv_push:
  assumes "cl_inv l its ps" "new \<noteq> 0" "cl_nodes l new = None"
  shows "cl_inv (cl_push new x l) its (new # ps)"
    "datas (cl_nodes (cl_push new x l)) (new # ps) = x # datas (cl_nodes l) ps"
proof -
  note D = cl_invD [OF assms(1)]
  have new: "new \<notin> set ps" using path_dom [OF D(1)] assms(3) by auto
  let ?h = "(cl_nodes l)(new \<mapsto> \<lparr>nd_data = x, nd_next = cl_head l\<rparr>)"
  have "node_path ?h new (new # ps) 0" using D(1) assms(2) new by (simp add: path_upd)
  moreover have "nd_next n = 0 \<or> ?h (nd_next n) \<noteq> None" if "?h p = Some n" for p n
    using that D(4) [of p n] path_start [OF D(1)] by (auto split: if_splits)
  ultimately show "cl_inv (cl_push new x l) its (new # ps)"
    using D(2,3,5-10) assms(2) new unfolding cl_inv_def cl_push_eq by simp
  show "datas (cl_nodes (cl_push new x l)) (new # ps) = x # datas (cl_nodes l) ps"
    using new by (auto simp: cl_push_eq intro!: datas_cong)
qed

text \<open>Taking the node \<open>q\<close> out of the path.\<close>

lemma unlink_path:
  assumes "node_path (cl_nodes l) (cl_head l) (us @ q # vs) 0" "distinct (us @ q # vs)"
    "l' = place_store (place_after Head_place us) (nd_next (the (cl_nodes l q))) l"
  shows "node_path (cl_nodes l') (cl_head l') (us @ vs) 0"
    "cl_nodes l' p = None \<longleftrightarrow> cl_nodes l p = None" "nd_data (the (cl_nodes l' p)) = nd_data (the (cl_nodes l p))"
    "cl_nodes l' p = Some n \<Longrightarrow> (\<exists>n'. cl_nodes l p = Some n' \<and> nd_next n' = nd_next n) \<or> nd_next n = nd_next (the (cl_nodes l q))"
    "cl_readers l' = cl_readers l" "cl_pending_deletion l' = cl_pending_deletion l" "cl_pool l' = cl_pool l"
proof -
  obtain n0 where q: "node_path (cl_nodes l) (cl_head l) us q" "cl_nodes l q = Some n0" "node_path (cl_nodes l) (nd_next n0) vs 0"
    using assms(1) by (auto simp: path_append)
  have last: "us \<noteq> [] \<Longrightarrow> cl_nodes l (last us) \<noteq> None" by (metis DiffE domIff last_in_set subsetD path_dom [OF q(1)])
  show "node_path (cl_nodes l') (cl_head l') (us @ vs) 0"
  proof (cases us rule: rev_cases)
    case Nil
    then show ?thesis using q assms(3) by (simp add: place_after_def)
  next
    case (snoc us' u)
    then obtain m where m: "node_path (cl_nodes l) (cl_head l) us' u" "cl_nodes l u = Some m" "u \<noteq> 0"
      using q(1) by (auto simp: path_append)
    have "u \<notin> set us'" "u \<notin> set vs" using assms(2) snoc by auto
    then show ?thesis using m q(2,3) assms(3) snoc by (auto simp: place_after_def path_append path_upd)
  qed
  show "cl_nodes l' p = None \<longleftrightarrow> cl_nodes l p = None" "nd_data (the (cl_nodes l' p)) = nd_data (the (cl_nodes l p))"
    using assms(3) last path_dom [OF q(1)] by (auto simp: place_after_def option.map_sel)
  show "(\<exists>n'. cl_nodes l p = Some n' \<and> nd_next n' = nd_next n) \<or> nd_next n = nd_next (the (cl_nodes l q))"
    if "cl_nodes l' p = Some n"
    using that assms(3) by (auto simp: place_after_def split: if_splits)
  show "cl_readers l' = cl_readers l" "cl_pending_deletion l' = cl_pending_deletion l" "cl_pool l' = cl_pool l"
    using assms(3) by (auto simp: place_after_def)
qed

lemma path_next: "node_path h p ps 0 \<Longrightarrow> r \<in> set ps \<Longrightarrow> h r = Some n \<Longrightarrow> nd_next n = 0 \<or> h (nd_next n) \<noteq> None"
  by (induction ps arbitrary: p) (auto dest: path_start)

lemma pool_push_eq:
  "pool_push_loop new q (cl_pending_deletion l) l =
     l\<lparr>cl_pool := (cl_pool l)(new \<mapsto> \<lparr>nd_data = q, nd_next = cl_pending_deletion l\<rparr>), cl_pending_deletion := new\<rparr>"
  by (subst pool_push_loop.simps) (simp add: node_new_def)

lemma readers_zero: "cl_inv l its ps \<Longrightarrow> cl_readers l = 0 \<longleftrightarrow> its = []"
  using cl_invD(8,9) [of l its ps] nat_dvd_not_less [of "length its" usize_bound] by (auto simp: word_of_nat_eq_0_iff)

lemma cl_inv_unlinked:
  assumes "cl_inv l its (us @ q # vs)" "new \<noteq> 0"
  shows "cl_inv (unlinked new (place_after Head_place us) q l) its (us @ vs)"
    "datas (cl_nodes (unlinked new (place_after Head_place us) q l)) (us @ vs) = datas (cl_nodes l) (us @ vs)"
proof -
  note D = cl_invD [OF assms(1)]
  define l' where "l' = place_store (place_after Head_place us) (nd_next (the (cl_nodes l q))) l"
  note U = unlink_path [OF D(1,2) l'_def]
  have q: "q \<notin> set (us @ vs)" "cl_nodes l q \<noteq> None" using D(2) path_dom [OF D(1)] by auto
  have eq: "unlinked new (place_after Head_place us) q l = push_pending_deletion new q l'"
    by (simp add: unlinked_def l'_def)
  have ds: "datas (cl_nodes l') ps = datas (cl_nodes l) ps" for ps by (rule datas_cong) (simp add: U(3))
  show "cl_inv (unlinked new (place_after Head_place us) q l) its (us @ vs)"
  proof (cases "its = []")
    case True
    let ?h = "(cl_nodes l')(q := None)"
    have "dom (cl_nodes l) = set (us @ q # vs)" using D(5,6) True by simp
    moreover have "dom (cl_nodes l') = dom (cl_nodes l)" unfolding dom_def using U(2) by simp
    ultimately have dom: "dom ?h = set (us @ vs)" using q(1) by auto
    have node_path: "node_path ?h (cl_head l') (us @ vs) 0" using U(1) q(1) by (simp add: path_upd)
    have "nd_next n = 0 \<or> ?h (nd_next n) \<noteq> None" if "?h p = Some n" for p n
      using path_next [OF node_path _ that] that dom by blast
    moreover have "push_pending_deletion new q l' = l'\<lparr>cl_nodes := ?h\<rparr>"
      using True D(8) by (simp add: push_pending_deletion_def U(5))
    ultimately show ?thesis
      using dom node_path True D(2,3,6,8) U(2,5,6) unfolding eq cl_inv_def by simp
  next
    case False
    have "nd_next n = 0 \<or> cl_nodes l (nd_next n) \<noteq> None" if "cl_nodes l' p = Some n" for p n
      using U(4) [OF that] D(4) q(2) by (metis option.collapse)
    then have "nd_next n = 0 \<or> cl_nodes l' (nd_next n) \<noteq> None" if "cl_nodes l' p = Some n" for p n
      using that unfolding U(2) by blast
    moreover have "push_pending_deletion new q l' =
        l'\<lparr>cl_pool := (cl_pool l')(new \<mapsto> \<lparr>nd_data = q, nd_next = cl_pending_deletion l'\<rparr>), cl_pending_deletion := new\<rparr>"
      using readers_zero [OF assms(1)] False by (simp add: push_pending_deletion_def U(5) pool_push_eq)
    ultimately show ?thesis using U(1,2,5) D(2,3,8-10) assms(2) False unfolding eq cl_inv_def by simp
  qed
  have "cl_nodes (push_pending_deletion new q l') p = cl_nodes l' p" if "p \<noteq> q" for p
    using that by (simp add: push_pending_deletion_def pool_push_eq)
  then show "datas (cl_nodes (unlinked new (place_after Head_place us) q l)) (us @ vs) = datas (cl_nodes l) (us @ vs)"
    unfolding eq using q(1) ds [of "us @ vs"] datas_cong [of "us @ vs" "cl_nodes (push_pending_deletion new q l')" "cl_nodes l'"]
    by metis
qed

lemma remove_cloned_correct:
  assumes "cl_inv l its ps" "new \<noteq> 0"
  shows "\<exists>l' ps'. remove_cloned P new l = Some (Ok (l', find P (datas (cl_nodes l) ps))) \<and> cl_inv l' its ps' \<and>
     datas (cl_nodes l') ps' = remove_first P (datas (cl_nodes l) ps)"
proof (cases "\<exists>x\<in>set (datas (cl_nodes l) ps). P x")
  case False
  then have none: "\<forall>x\<in>set (datas (cl_nodes l) ps). \<not> P x" by blast
  show ?thesis using remove_cloned_none [OF cl_invD(1) [OF assms(1)] none] remove_first_none [OF none] assms(1) by auto
next
  case True
  let ?P = "\<lambda>p. P (nd_data (the (cl_nodes l p)))"
  obtain us q vs where s: "ps = us @ q # vs" "\<forall>p\<in>set us. \<not> ?P p" "?P q"
    using True split_list_first_prop [of ps ?P] by (auto simp: set_datas)
  then have none: "\<forall>x\<in>set (datas (cl_nodes l) us). \<not> P x" by (simp add: set_datas)
  obtain n where n: "node_path (cl_nodes l) (cl_head l) us q" "q \<noteq> 0" "cl_nodes l q = Some n"
    using cl_invD(1) [OF assms(1)] s(1) by (auto simp: path_append)
  note r = remove_cloned_some [OF n(1) none n(3,2), of new] and u = cl_inv_unlinked [OF assms(1) [unfolded s(1)] assms(2)]
  show ?thesis using r u s(3) n(3) remove_first_split [OF none, of "nd_data n" "datas (cl_nodes l) vs"]
    by (intro exI [of _ "unlinked new (place_after Head_place us) q l"] exI [of _ "us @ vs"]) (simp add: s(1))
qed

section \<open>Histories\<close>

text \<open>
  The states of a list with its live iterators, and the elements an abstract list holds after the same
  operations. The allocator returns an address that is not in use.
\<close>

inductive cl_reach :: "'a conc_list \<Rightarrow> nat list \<Rightarrow> 'a list \<Rightarrow> bool" where
  start: "cl_reach cl_default [] []"
| push: "cl_reach l its xs \<Longrightarrow> new \<noteq> 0 \<Longrightarrow> cl_nodes l new = None \<Longrightarrow> cl_reach (cl_push new x l) its (x # xs)"
| remove: "cl_reach l its xs \<Longrightarrow> new \<noteq> 0 \<Longrightarrow> cl_pool l new = None \<Longrightarrow> remove_cloned P new l = Some (Ok (l', r)) \<Longrightarrow>
    cl_reach l' its (remove_first P xs)"
| iter: "cl_reach l its xs \<Longrightarrow> Suc (length its) < usize_bound \<Longrightarrow> cl_iter l = (l', c) \<Longrightarrow> cl_reach l' (its @ [c]) xs"
| advance: "cl_reach l its xs \<Longrightarrow> i < length its \<Longrightarrow> iter_next l (its ! i) = Ok (c, r) \<Longrightarrow> cl_reach l (its[i := c]) xs"
| drop: "cl_reach l its xs \<Longrightarrow> i < length its \<Longrightarrow> iter_drop l = Some (Ok l') \<Longrightarrow>
    cl_reach l' (take i its @ drop (Suc i) its) xs"

lemma iter_next_ok:
  assumes "cl_inv l its ps" "c \<in> set its"
  shows "\<exists>c' r. iter_next l c = Ok (c', r) \<and> (c' = 0 \<or> cl_nodes l c' \<noteq> None)"
  using cl_invD(10) [OF assms] cl_invD(4) [OF assms(1), of c] by (auto simp: iter_next_def deref_def)

lemma iter_drop_cases:
  assumes "cl_inv l its ps" "its \<noteq> []"
  shows "iter_drop l = Some (if length its = 1 \<and> cl_pending_deletion l \<noteq> 0 then Panic
     else Ok (l\<lparr>cl_readers := of_nat (length its - 1)\<rparr>))"
proof -
  note D = cl_invD [OF assms(1)]
  obtain n where n: "length its = Suc n" using assms(2) by (cases its) auto
  have readers: "cl_readers l = 1 \<longleftrightarrow> length its = 1" "cl_readers l - 1 = of_nat (length its - 1)"
    using D(8,9) n nat_dvd_not_less [of n usize_bound] by (auto simp: word_of_nat_eq_0_iff)
  have "free_pool (l\<lparr>cl_readers := w\<rparr>) = Some (if cl_pending_deletion l = 0 then Ok (l\<lparr>cl_readers := w\<rparr>) else Panic)" for w
    using D(7) by (auto simp: free_pool_def free_pool_loop.simps deref_def)
  then show ?thesis using readers by (simp add: iter_drop_def Let_def)
qed

lemma cl_inv_fewer:
  assumes "cl_inv l its ps" "set its' \<subseteq> set its" "length its' < usize_bound" "its' = [] \<Longrightarrow> cl_pending_deletion l = 0"
  shows "cl_inv (l\<lparr>cl_readers := of_nat (length its')\<rparr>) its' ps"
proof -
  note D = cl_invD [OF assms(1)]
  show ?thesis unfolding cl_inv_def using D(1-5,7,10) assms(2-4) by (simp add: subset_iff)
qed

lemma cl_inv_drop:
  assumes "cl_inv l its ps" "i < length its" "iter_drop l = Some (Ok l')"
  shows "cl_inv l' (take i its @ drop (Suc i) its) ps" "cl_nodes l' = cl_nodes l"
proof -
  have ne: "its \<noteq> []" using assms(2) by auto
  have l': "l' = l\<lparr>cl_readers := of_nat (length its - 1)\<rparr>" and p: "length its = 1 \<Longrightarrow> cl_pending_deletion l = 0"
    using iter_drop_cases [OF assms(1) ne] assms(3) by (auto split: if_splits)
  let ?its = "take i its @ drop (Suc i) its"
  have len: "length ?its = length its - 1" using assms(2) by simp
  moreover have "set ?its \<subseteq> set its" by (auto dest: in_set_takeD in_set_dropD)
  moreover have "cl_pending_deletion l = 0" if "?its = []" using that len ne p by (cases its) auto
  ultimately show "cl_inv l' ?its ps"
    using cl_inv_fewer [OF assms(1), of ?its] cl_invD(9) [OF assms(1)] by (simp add: l')
  show "cl_nodes l' = cl_nodes l" by (simp add: l')
qed

lemma cl_reach_inv: "cl_reach l its xs \<Longrightarrow> \<exists>ps. cl_inv l its ps \<and> xs = datas (cl_nodes l) ps"
proof (induction rule: cl_reach.induct)
  case start
  then show ?case using cl_inv_default by (intro exI [of _ "[]"]) simp
next
  case (push l its xs new x)
  then obtain ps where "cl_inv l its ps" "xs = datas (cl_nodes l) ps" by blast
  then show ?case using cl_inv_push [of l its ps new x] push.hyps by (intro exI [of _ "new # ps"]) simp
next
  case (remove l its xs new P l' r)
  then obtain ps where "cl_inv l its ps" "xs = datas (cl_nodes l) ps" by blast
  then show ?case using remove_cloned_correct [of l its ps new P] remove.hyps by auto
next
  case (iter l its xs l' c)
  then obtain ps where ps: "cl_inv l its ps" "xs = datas (cl_nodes l) ps" by blast
  have "l' = l\<lparr>cl_readers := cl_readers l + 1\<rparr>" "c = cl_head l" using iter.hyps by (auto simp: cl_iter_def)
  then have "cl_inv l' (its @ [c]) ps"
    using ps(1) iter.hyps(2) path_start [OF cl_invD(1) [OF ps(1)]] unfolding cl_inv_def by simp
  then show ?case using ps(2) \<open>l' = _\<close> by auto
next
  case (advance l its xs i c r)
  then obtain ps where ps: "cl_inv l its ps" "xs = datas (cl_nodes l) ps" by blast
  have "c = 0 \<or> cl_nodes l c \<noteq> None" using iter_next_ok [OF ps(1) nth_mem [OF advance.hyps(2)]] advance.hyps(3) by auto
  then have "\<forall>d\<in>set (its[i := c]). d = 0 \<or> cl_nodes l d \<noteq> None"
    using cl_invD(10) [OF ps(1)] set_update_subset_insert [of its i c] by blast
  then show ?case using ps unfolding cl_inv_def by auto
next
  case (drop l its xs i l')
  then show ?case using cl_inv_drop by metis
qed

text \<open>The results of a number of calls of \<open>next\<close> one after the other.\<close>

fun iter_results :: "'a conc_list \<Rightarrow> nat \<Rightarrow> nat \<Rightarrow> (unit, 'a option list) outcome" where
  "iter_results l c 0 = Ok []"
| "iter_results l c (Suc k) = bind_outcome (iter_next l c) (\<lambda>(c', r). bind_outcome (iter_results l c' k) (\<lambda>rs. Ok (r # rs)))"

lemma iter_results_path:
  "node_path (cl_nodes l) c ps 0 \<Longrightarrow> iter_results l c (Suc (length ps)) = Ok (map Some (datas (cl_nodes l) ps) @ [None])"
  by (induction ps arbitrary: c) (auto simp: iter_next_def deref_def)


text \<open>Two elements, of which the one an iterator stands on has been removed.\<close>

definition example_list :: "nat conc_list" where
  "example_list = \<lparr>cl_nodes = [4 \<mapsto> \<lparr>nd_data = 10, nd_next = 0\<rparr>, 6 \<mapsto> \<lparr>nd_data = 20, nd_next = 4\<rparr>], cl_head = 4,
     cl_readers = 1, cl_pool = [5 \<mapsto> \<lparr>nd_data = 6, nd_next = 0\<rparr>], cl_pending_deletion = 5\<rparr>"

lemma example_list_reach: "cl_reach example_list [6] [10]"
proof -
  let ?l2 = "cl_push 6 20 (cl_push 4 10 cl_default) :: nat conc_list"
  have nodes: "cl_nodes ?l2 = [4 \<mapsto> \<lparr>nd_data = 10, nd_next = 0\<rparr>, 6 \<mapsto> \<lparr>nd_data = 20, nd_next = 4\<rparr>]" "cl_head ?l2 = 6"
    by (simp_all add: cl_push_eq cl_default_def)
  have "cl_reach ?l2 [] [20, 10]"
    by (intro cl_reach.push cl_reach.start) (simp_all add: cl_push_eq cl_default_def)
  from cl_reach.iter [OF this, of "fst (cl_iter ?l2)" 6]
  have r: "cl_reach (fst (cl_iter ?l2)) [6] [20, 10]" by (simp add: cl_iter_def nodes)
  have "remove_cloned (\<lambda>x. x = 20) 5 (fst (cl_iter ?l2)) = Some (Ok (example_list, Some 20))"
    using remove_cloned_some [of "fst (cl_iter ?l2)" "[]" 6 "\<lambda>x. x = 20" "\<lparr>nd_data = 20, nd_next = 4\<rparr>" 5]
    by (simp add: cl_iter_def nodes unlinked_def place_after_def push_pending_deletion_def pool_push_loop.simps node_new_def
        example_list_def cl_push_eq cl_default_def)
  from cl_reach.remove [OF r _ _ this] show ?thesis
    by (simp add: cl_iter_def cl_push_eq cl_default_def remove_first_def)
qed


end
