(* ===== verification/Process_Queues.thy ===== *)
theory Process_Queues
  imports Phys_Buffer Msg_Queue Registry Nvme_Command Exit_State Conc_List
begin

text \<open>
  Processes, their memory and their message queues (\<open>kernel/src/process/mod.rs\<close>, the queue commands of
  \<open>kernel/src/process/commands.rs\<close>, \<open>kernel/src/error.rs\<close> and the messages of \<open>kapi/src/commands.rs\<close> and
  \<open>kapi/src/completions.rs\<close>). An error carries the state the failed operation leaves; the reason texts of
  errors are left out. The tables of queues are the lists of \<open>Conc_List\<close>, newest element first.
\<close>

section \<open>Errors\<close>

datatype error_code =
    UnknownCommandCode | UnsupportedOperationCode | OutOfMemoryCode | NotFoundCode | OutOfBoundsCode | OutOfIdsCode
  | BadFormatCode | DeviceCode | InvalidIdCode | InvalidSizeCode | InvalidPointerCode | InvalidUtf8Code | InUseCode
  | InternalCode

datatype fs_error = BadMetadata string nat | FsOutOfBounds nat nat string

datatype kernel_error =
    KMemory memory_error
  | KRegistry registry_error
  | KStorage storage_error
  | KFileSystem fs_error
  | KUtf8
  | KInner kernel_error
  | KMisc "error_code option"
  | KOther "error_code option"

text \<open>The code of a storage error that was caused by a memory error is \<open>todo!()\<close>.\<close>

fun as_code :: "kernel_error \<Rightarrow> (unit, error_code) outcome" where
  "as_code (KMemory source) =
     (case source of
        OutOfMemory \<Rightarrow> Ok OutOfMemoryCode
      | InsufficentForAllocation _ \<Rightarrow> Ok OutOfMemoryCode
      | MapErr InvalidTag \<Rightarrow> Ok InvalidPointerCode
      | MapErr (CopyFromUnmapped _ _) \<Rightarrow> Ok InvalidPointerCode
      | _ \<Rightarrow> Ok InternalCode)"
| "as_code (KRegistry source) =
     (case source of
        NotFound _ \<Rightarrow> Ok NotFoundCode
      | Unsupported \<Rightarrow> Ok UnsupportedOperationCode
      | InvalidPath \<Rightarrow> Ok BadFormatCode
      | HandlerAlreadyRegistered _ \<Rightarrow> Ok InternalCode)"
| "as_code (KStorage source) =
     (case source of
        BadVector _ _ \<Rightarrow> Ok BadFormatCode
      | DeviceError \<Rightarrow> Ok DeviceCode
      | StorageMemoryError _ \<Rightarrow> Panic)"
| "as_code (KFileSystem source) = (case source of FsOutOfBounds _ _ _ \<Rightarrow> Ok OutOfBoundsCode | _ \<Rightarrow> Ok InternalCode)"
| "as_code KUtf8 = Ok InvalidUtf8Code"
| "as_code (KMisc (Some c)) = Ok c"
| "as_code (KOther (Some c)) = Ok c"
| "as_code (KInner source) = as_code source"
| "as_code _ = Ok InternalCode"

section \<open>Messages\<close>

record spawn_thread_info =
  st_entry_point :: virtual_address
  st_stack_size :: nat
  st_user_data :: nat
  st_send_completion_on_exit :: bool

text \<open>
  The \<open>SpawnProcess\<close> command carries the path and the parameters themselves instead of pointers into
  the memory of the sender.
\<close>

datatype command_kind =
    CmdInvalid
  | CmdTest nat
  | CmdCreateCompletionQueue nat
  | CmdCreateSubmissionQueue nat queue_id
  | CmdDestroyQueue queue_id
  | CmdSpawnThread spawn_thread_info
  | CmdWatchThread nat
  | CmdSpawnProcess string "8 word list" bool
  | CmdWatchProcess nat
  | CmdKillProcess nat

record command =
  cm_kind :: command_kind
  cm_id :: nat

record new_queue =
  nq_id :: queue_id
  nq_start :: virtual_address

datatype completion_kind =
    CplInvalid
  | CplSuccess
  | CplTest nat nat
  | CplNewQueue new_queue
  | CplNewThread nat
  | CplThreadExit thread_exit
  | CplNewProcess nat
  | CplErr error_code

record message =
  response_to_id :: nat
  cpl_kind :: completion_kind

section \<open>Processes\<close>

record user_queue =
  uq_queue :: queue_handle
  uq_root_address :: virtual_address
  uq_user_base_address :: virtual_address

abbreviation uq_id :: "user_queue \<Rightarrow> queue_id" where "uq_id q \<equiv> q_id (uq_queue q)"

text \<open>Size and alignment of the slots of a message type, and the size of the counters.\<close>

record queue_layout =
  ly_slot_size :: nat
  ly_slot_align :: nat
  ly_counters :: nat

definition layout_size :: "queue_layout \<Rightarrow> nat \<Rightarrow> ('e, nat) outcome" where
  "layout_size ly capacity = queue_size_in_bytes (ly_slot_size ly) (ly_slot_align ly) (ly_counters ly) capacity"

definition memory_region :: "queue_layout \<Rightarrow> user_queue \<Rightarrow> ('e, virtual_address \<times> virtual_address \<times> nat) outcome" where
  "memory_region ly q =
     bind_outcome (layout_size ly (q_capacity (uq_queue q))) (\<lambda>size.
     Ok (uq_user_base_address q, uq_root_address q, div_ceil size PAGE_SIZE))"

text \<open>
  \<open>p_commands\<close> and \<open>p_completions\<close> are the contents of the queues at their address in the kernel;
  threads are referred to by \<open>p_threads\<close>.
\<close>

record process =
  p_id :: nat
  p_threads :: "nat list"
  p_page_tables :: page_table
  p_address_space_allocator :: virt_alloc
  p_next_queue_id :: "16 word"
  p_send_queues :: "(user_queue \<times> user_queue) list"
  p_recv_queues :: "user_queue list"
  p_exit_state :: exit_state
  p_commands :: "virtual_address \<Rightarrow> command queue_mem option"
  p_completions :: "virtual_address \<Rightarrow> message queue_mem option"

type_synonym 'a proc_outcome = "(kernel_error \<times> process \<times> kmem, 'a) outcome"

section \<open>Queue identifiers\<close>

text \<open>
  The loop of \<open>next_queue_id\<close> cut at its atomic accesses; a weak compare-and-exchange may fail although
  the value is the expected one.
\<close>

datatype queue_id_pc = QLoad | QLoop "16 word" | QOk "16 word" | QOutOfIds

fun queue_id_step :: "bool \<Rightarrow> 16 word \<Rightarrow> queue_id_pc \<Rightarrow> 16 word \<times> queue_id_pc" where
  "queue_id_step spurious c QLoad = (c, QLoop c)"
| "queue_id_step spurious c (QLoop i) =
     (if i = 0 then (c, QOutOfIds)
      else if c = i \<and> \<not> spurious then (i + 1, QOk i)
      else (c, QLoop c))"
| "queue_id_step spurious c pc = (c, pc)"

fun queue_id_run :: "bool list \<Rightarrow> 16 word \<Rightarrow> queue_id_pc \<Rightarrow> 16 word \<times> queue_id_pc" where
  "queue_id_run [] c pc = (c, pc)"
| "queue_id_run (s # ss) c pc = (case queue_id_step s c pc of (c', pc') \<Rightarrow> queue_id_run ss c' pc')"

text \<open>Uninterrupted, the loop returns after the load and one exchange.\<close>

definition next_queue_id :: "process \<Rightarrow> kmem \<Rightarrow> (process \<times> queue_id) proc_outcome" where
  "next_queue_id pr k =
     (case queue_id_run [False, False] (p_next_queue_id pr) QLoad of
        (c, QOk i) \<Rightarrow> Ok (pr\<lparr>p_next_queue_id := c\<rparr>, unat i)
      | (c, _) \<Rightarrow> Err (KMisc (Some OutOfIdsCode), pr\<lparr>p_next_queue_id := c\<rparr>, k))"

section \<open>Memory of a process\<close>

lemma try_count_pos: "try_count desired m k as = Some n \<Longrightarrow> 0 < desired \<Longrightarrow> 0 < n"
  by (induction desired m k as rule: try_count.induct) (auto split: if_splits)

lemma try_alloc_contig_pos: "try_alloc_contig desired p = Ok (p', a, n) \<Longrightarrow> 0 < n"
  by (auto simp: try_alloc_contig_def outcome_simps split: option.splits dest!: try_count_pos)

text \<open>The loop of \<open>alloc_memory\<close>.\<close>

function alloc_pages ::
  "entry_options \<Rightarrow> virtual_address \<Rightarrow> virtual_address option \<Rightarrow> nat \<Rightarrow> nat \<Rightarrow> process \<Rightarrow> kmem \<Rightarrow> (process \<times> kmem) proc_outcome" where
  "alloc_pages opts vaddr kvaddr page_count offset pr k =
     (if page_count = 0 then Ok (pr, k)
      else
        bind_outcome (map_outcome_err (\<lambda>e. (KMemory e, pr, k)) (try_alloc_contig page_count (km_alloc k)))
          (\<lambda>(p, paddr, size).
        let k = km_set_alloc p k in
        bind_outcome (map_outcome_err (\<lambda>(e, m). (KMemory e, pr, k\<lparr>km_pt := m\<rparr>))
            (map_range (p_page_tables pr) paddr (va_add vaddr offset) size True opts (km_pt k))) (\<lambda>(m, pt).
        let pr = pr\<lparr>p_page_tables := pt\<rparr>; k = k\<lparr>km_pt := m\<rparr> in
        bind_outcome
          (case kvaddr of
             None \<Rightarrow> Ok k
           | Some kvaddr \<Rightarrow>
               bind_outcome (map_outcome_err (\<lambda>(e, m). (KMemory e, pr, k\<lparr>km_pt := m\<rparr>))
                 (map_range (km_table k) paddr (va_add kvaddr offset) size True opts (km_pt k))) (\<lambda>(m, kt).
               Ok (k\<lparr>km_pt := m, km_table := kt\<rparr>))) (\<lambda>k.
        bind_outcome (mul_checked size PAGE_SIZE) (\<lambda>bytes.
        bind_outcome (add_checked offset bytes) (\<lambda>offset.
        bind_outcome (sub_checked page_count size) (\<lambda>rest.
        alloc_pages opts vaddr kvaddr rest offset pr k)))))))"
  by pat_completeness auto
termination
  by (relation "measure (\<lambda>(_, _, _, page_count, _). page_count)")
    (auto simp: map_outcome_err_iff sub_checked_Ok_iff dest!: try_alloc_contig_pos)

declare alloc_pages.simps [simp del]

definition alloc_memory ::
  "nat \<Rightarrow> bool \<Rightarrow> process \<Rightarrow> kmem \<Rightarrow> (process \<times> kmem \<times> virtual_address \<times> virtual_address option) proc_outcome" where
  "alloc_memory page_count share_with_kernel pr k =
     bind_outcome (map_outcome_err (\<lambda>e. (KMemory e, pr, k)) (va_alloc page_count (p_address_space_allocator pr))) (\<lambda>(v, vaddr).
     let pr = pr\<lparr>p_address_space_allocator := v\<rparr> in
     bind_outcome
       (if share_with_kernel
        then bind_outcome (map_outcome_err (\<lambda>e. (KMemory e, pr, k)) (va_alloc page_count (km_vaa k))) (\<lambda>(kv, kvaddr).
             Ok (k\<lparr>km_vaa := kv\<rparr>, Some kvaddr))
        else Ok (k, None)) (\<lambda>(k, kvaddr).
     bind_outcome (alloc_pages \<lparr>read_only = False, el0_access = True\<rparr> vaddr kvaddr page_count 0 pr k) (\<lambda>(pr, k).
     Ok (pr, k, vaddr, kvaddr))))"

fun free_regions :: "mapped_region list \<Rightarrow> kmem \<Rightarrow> ('e, kmem) outcome" where
  "free_regions [] k = Ok k"
| "free_regions (r # rs) k =
     bind_outcome (expect_ok (free_pages (base_phys_addr r) (region_page_count r) (km_alloc k))) (\<lambda>p.
     free_regions rs (km_set_alloc p k))"

definition free_memory :: "virtual_address \<Rightarrow> nat \<Rightarrow> process \<Rightarrow> kmem \<Rightarrow> ('e, process \<times> kmem) outcome" where
  "free_memory ptr page_count pr k =
     bind_outcome (expect_ok (unmap_range_custom (p_page_tables pr) ptr page_count (km_pt k))) (\<lambda>(m, pt, regions).
     bind_outcome (free_regions regions (k\<lparr>km_pt := m\<rparr>)) (\<lambda>k.
     bind_outcome (expect_ok (va_free ptr page_count (p_address_space_allocator pr))) (\<lambda>v.
     Ok (pr\<lparr>p_page_tables := pt, p_address_space_allocator := v\<rparr>, k))))"

section \<open>The queue commands\<close>

definition create_queue ::
  "queue_layout \<Rightarrow> nat \<Rightarrow> process \<Rightarrow> kmem \<Rightarrow> (process \<times> kmem \<times> user_queue \<times> new_queue \<times> 'a queue_mem) proc_outcome" where
  "create_queue ly num_elements pr k =
     (if num_elements = 0 then Err (KMisc (Some InvalidSizeCode), pr, k)
      else
        bind_outcome (next_queue_id pr k) (\<lambda>(pr, i).
        bind_outcome (layout_size ly num_elements) (\<lambda>size.
        bind_outcome (alloc_memory (div_ceil size PAGE_SIZE) True pr k) (\<lambda>(pr, k, user_base_address, kernel_base_address).
        bind_outcome (case kernel_base_address of None \<Rightarrow> Panic | Some a \<Rightarrow> if a = 0 then Panic else Ok a) (\<lambda>kernel_base_address.
        bind_outcome (queue_new i num_elements) (\<lambda>queue.
        Ok (pr, k, \<lparr>uq_queue = queue, uq_root_address = kernel_base_address, uq_user_base_address = user_base_address\<rparr>,
          \<lparr>nq_id = i, nq_start = user_base_address\<rparr>, queue_initialize queue)))))))"

definition create_completion_queue ::
  "queue_layout \<Rightarrow> nat \<Rightarrow> process \<Rightarrow> kmem \<Rightarrow> (process \<times> kmem \<times> new_queue) proc_outcome" where
  "create_completion_queue ly num pr k =
     bind_outcome (create_queue ly num pr k) (\<lambda>(pr, k, oq, nq, mem).
     Ok (pr\<lparr>p_recv_queues := oq # p_recv_queues pr, p_completions := (p_completions pr)(uq_root_address oq \<mapsto> mem)\<rparr>, k, nq))"

text \<open>
  \<open>create_submission_queue\<close> waits for memory between its lookup of the completion queue and the
  insertion of the new queue; \<open>finish_submission_queue\<close> is the part after the lookup.
\<close>

definition find_completion_queue :: "queue_id \<Rightarrow> process \<Rightarrow> user_queue option" where
  "find_completion_queue i pr = find (\<lambda>q. uq_id q = i) (p_recv_queues pr)"

definition finish_submission_queue ::
  "queue_layout \<Rightarrow> nat \<Rightarrow> user_queue \<Rightarrow> process \<Rightarrow> kmem \<Rightarrow> (process \<times> kmem \<times> new_queue) proc_outcome" where
  "finish_submission_queue ly num rq pr k =
     bind_outcome (create_queue ly num pr k) (\<lambda>(pr, k, oq, nq, mem).
     Ok (pr\<lparr>p_send_queues := (oq, rq) # p_send_queues pr, p_commands := (p_commands pr)(uq_root_address oq \<mapsto> mem)\<rparr>, k, nq))"

definition create_submission_queue ::
  "queue_layout \<Rightarrow> nat \<Rightarrow> queue_id \<Rightarrow> process \<Rightarrow> kmem \<Rightarrow> (process \<times> kmem \<times> new_queue) proc_outcome" where
  "create_submission_queue ly num associated_completion_queue pr k =
     (case find_completion_queue associated_completion_queue pr of
        None \<Rightarrow> Err (KMisc (Some InvalidIdCode), pr, k)
      | Some rq \<Rightarrow> finish_submission_queue ly num rq pr k)"

text \<open>Both removals are evaluated: the argument of \<open>or\<close> is not lazy.\<close>

definition destroy_queue ::
  "queue_layout \<Rightarrow> queue_layout \<Rightarrow> queue_id \<Rightarrow> process \<Rightarrow> kmem \<Rightarrow> (process \<times> kmem) proc_outcome" where
  "destroy_queue command_ly completion_ly i pr k =
     (if list_ex (\<lambda>(_, q). uq_id q = i) (p_send_queues pr) then Err (KMisc (Some InUseCode), pr, k)
      else
        let recv = find (\<lambda>q. uq_id q = i) (p_recv_queues pr);
            send = find (\<lambda>(q, _). uq_id q = i) (p_send_queues pr);
            pr = pr\<lparr>p_recv_queues := remove_first (\<lambda>q. uq_id q = i) (p_recv_queues pr),
                    p_send_queues := remove_first (\<lambda>(q, _). uq_id q = i) (p_send_queues pr)\<rparr> in
        case (case recv of Some q \<Rightarrow> Some (memory_region completion_ly q)
              | None \<Rightarrow> map_option (\<lambda>(q, _). memory_region command_ly q) send) of
          None \<Rightarrow> Err (KMisc (Some InvalidIdCode), pr, k)
        | Some mr \<Rightarrow>
            bind_outcome mr (\<lambda>(user_addr, kernel_addr, page_count).
            bind_outcome (free_memory user_addr page_count pr k) (\<lambda>(pr, k).
            bind_outcome (expect_ok (unmap_range (km_table k) kernel_addr page_count (km_pt k))) (\<lambda>(m, kt).
            Ok (pr, k\<lparr>km_pt := m, km_table := kt\<rparr>)))))"

section \<open>The identifiers are never reused\<close>

text \<open>Any number of callers of \<open>next_queue_id\<close>, whose steps interleave in any order.\<close>

inductive queue_id_reach :: "16 word \<Rightarrow> (nat \<Rightarrow> queue_id_pc) \<Rightarrow> bool" where
  start: "queue_id_reach (of_nat FIRST_RECV_QUEUE_ID) (\<lambda>_. QLoad)"
| step: "queue_id_reach c pcs \<Longrightarrow> queue_id_step spurious c (pcs i) = (c', pc') \<Longrightarrow> queue_id_reach c' (pcs(i := pc'))"

lemma word_less_Suc: "c + 1 \<noteq> 0 \<Longrightarrow> a < c + 1 \<longleftrightarrow> a \<le> c" for a c :: "16 word"
  using unatSuc [of c] by (simp add: word_less_nat_alt word_le_nat_alt add.commute less_Suc_eq_le)

lemma queue_ids_unique:
  assumes "queue_id_reach c pcs" "pcs i = QOk a"
  shows "a \<noteq> 0 \<and> (c \<noteq> 0 \<longrightarrow> a < c) \<and> (\<forall>j. pcs j = QOk a \<longrightarrow> j = i)"
  using assms
proof (induction arbitrary: i a rule: queue_id_reach.induct)
  case start
  then show ?case by simp
next
  case (step c pcs spurious n c' pc')
  have old: "b \<noteq> 0 \<and> (c \<noteq> 0 \<longrightarrow> b < c) \<and> (\<forall>j. pcs j = QOk b \<longrightarrow> j = k)" if "pcs k = QOk b" for k b
    by (rule step.IH [OF that])
  show ?case
  proof (cases "c' = c \<and> (pc' = pcs n \<or> (\<forall>b. pc' \<noteq> QOk b))")
    case True
    then consider "pcs(n := pc') = pcs" | "\<forall>b. pc' \<noteq> QOk b" by fastforce
    then show ?thesis using True old step.prems by cases (auto split: if_splits)
  next
    case False
    then have w: "c' = c + 1" "pc' = QOk c" "c \<noteq> 0"
      using step.hyps(2) by (auto elim!: queue_id_step.elims split: if_splits)
    have lt: "\<And>k b. pcs k = QOk b \<Longrightarrow> b < c" using old w(3) by blast
    show ?thesis using step.prems w lt old word_less_Suc [of c] by (auto split: if_splits dest: order.strict_implies_order)
  qed
qed

lemma queue_ids_exhausted: "queue_id_reach c pcs \<Longrightarrow> pcs i = QOutOfIds \<Longrightarrow> c = 0"
proof (induction arbitrary: i rule: queue_id_reach.induct)
  case (step c pcs spurious n c' pc')
  have "queue_id_reach c pcs \<Longrightarrow> \<forall>j. pcs j = QLoop 0 \<longrightarrow> c = 0"
    by (induction rule: queue_id_reach.induct)
      (auto elim!: queue_id_step.elims split: if_splits)
  then show ?case using step by (auto elim!: queue_id_step.elims split: if_splits)
qed simp

section \<open>Well-formed tables of queues\<close>

definition queue_ids :: "process \<Rightarrow> queue_id list" where
  "queue_ids pr = map uq_id (p_recv_queues pr) @ map (\<lambda>(q, _). uq_id q) (p_send_queues pr)"

text \<open>
  Identifiers fit 16 bits, are not zero and differ between all queues of the process; those still to be
  given out are larger. Every submission queue is tied to a completion queue that exists.
\<close>

definition queues_ok :: "process \<Rightarrow> bool" where
  "queues_ok pr \<longleftrightarrow> distinct (queue_ids pr) \<and>
     (\<forall>i\<in>set (queue_ids pr). 0 < i \<and> i < 2 ^ 16 \<and> (p_next_queue_id pr \<noteq> 0 \<longrightarrow> i < unat (p_next_queue_id pr))) \<and>
     (\<forall>(q, rq)\<in>set (p_send_queues pr). rq \<in> set (p_recv_queues pr))"

text \<open>An operation that leaves the tables and the counter alone.\<close>

definition same_queues :: "process \<Rightarrow> process \<Rightarrow> bool" where
  "same_queues pr pr' \<longleftrightarrow> p_recv_queues pr' = p_recv_queues pr \<and> p_send_queues pr' = p_send_queues pr \<and>
     p_next_queue_id pr' = p_next_queue_id pr \<and> p_id pr' = p_id pr"

lemma same_queues_refl [simp]: "same_queues pr pr"
  by (simp add: same_queues_def)

lemma same_queues_trans: "same_queues pr pr' \<Longrightarrow> same_queues pr' pr'' \<Longrightarrow> same_queues pr pr''"
  by (simp add: same_queues_def)

lemma same_queues_upd [simp]:
  "same_queues pr (pr'\<lparr>p_page_tables := pt\<rparr>) = same_queues pr pr'"
  "same_queues pr (pr'\<lparr>p_address_space_allocator := v\<rparr>) = same_queues pr pr'"
  "same_queues pr (pr'\<lparr>p_threads := ts\<rparr>) = same_queues pr pr'"
  "same_queues pr (pr'\<lparr>p_exit_state := e\<rparr>) = same_queues pr pr'"
  "same_queues (pr\<lparr>p_page_tables := pt\<rparr>) pr' = same_queues pr pr'"
  "same_queues (pr\<lparr>p_address_space_allocator := v\<rparr>) pr' = same_queues pr pr'"
  by (simp_all add: same_queues_def)

lemma queues_ok_same: "same_queues pr pr' \<Longrightarrow> queues_ok pr' \<longleftrightarrow> queues_ok pr"
  by (simp add: same_queues_def queues_ok_def queue_ids_def)

definition keeps :: "('a \<Rightarrow> process) \<Rightarrow> process \<Rightarrow> 'a proc_outcome \<Rightarrow> bool" where
  "keeps f pr r \<longleftrightarrow> (\<forall>x. r = Ok x \<longrightarrow> same_queues pr (f x)) \<and> (\<forall>e pr' k. r = Err (e, pr', k) \<longrightarrow> same_queues pr pr')"

lemma keeps_bind:
  "keeps f pr r \<Longrightarrow> (\<And>x. r = Ok x \<Longrightarrow> keeps g (f x) (c x)) \<Longrightarrow> keeps g pr (bind_outcome r c)"
  unfolding keeps_def by (cases r) (auto intro: same_queues_trans)

lemma keeps_bind2:
  "keeps f pr r \<Longrightarrow> (\<And>a b. r = Ok (a, b) \<Longrightarrow> keeps g (f (a, b)) (c a b)) \<Longrightarrow> keeps g pr (bind_outcome r (\<lambda>(a, b). c a b))"
  by (rule keeps_bind) auto

lemma keeps_map_err: "(\<And>e. same_queues pr (fst (snd (h e)))) \<Longrightarrow> keeps (\<lambda>_. pr) pr (map_outcome_err h r)"
  by (cases r) (auto simp: keeps_def, metis fst_conv snd_conv)

lemma keeps_checked [simp]:
  "keeps (\<lambda>_. pr) pr (add_checked a b)" "keeps (\<lambda>_. pr) pr (sub_checked a b)" "keeps (\<lambda>_. pr) pr (mul_checked a b)"
  "keeps (\<lambda>_. pr) pr (expect_ok r)" "keeps f pr Panic" "keeps f pr (Ok x) \<longleftrightarrow> same_queues pr (f x)"
  by (auto simp: keeps_def)

lemma keeps_upd [simp]: "keeps f (pr\<lparr>p_page_tables := pt\<rparr>) r = keeps f pr r" "keeps f (pr\<lparr>p_address_space_allocator := v\<rparr>) r = keeps f pr r"
  by (simp_all add: keeps_def)

lemma alloc_pages_keeps: "keeps fst pr (alloc_pages opts va kva n off pr k)"
proof (induction n arbitrary: off pr k rule: less_induct)
  case (less n)
  show ?case
  proof (cases "n = 0")
    case True
    then show ?thesis by (simp add: alloc_pages.simps)
  next
    case False
    note IH = less.IH
    show ?thesis
      apply (subst alloc_pages.simps)
      apply (simp only: False if_False)
      apply (rule keeps_bind [OF keeps_map_err]; clarsimp simp: Let_def map_outcome_err_iff)
      apply (rule keeps_bind [OF keeps_map_err]; clarsimp simp: Let_def)
      subgoal for p paddr n' m pt
        apply (rule keeps_bind [of "\<lambda>_. pr"])
        subgoal by (cases kva) (auto intro!: keeps_bind [OF keeps_map_err])
        subgoal
          apply (rule keeps_bind [of "\<lambda>_. pr"], simp)
          apply (rule keeps_bind [of "\<lambda>_. pr"], simp)
          apply (rule keeps_bind [of "\<lambda>_. pr"], simp)
          using IH [of _ "pr\<lparr>p_page_tables := pt\<rparr>"] try_alloc_contig_pos [of n "km_alloc k" p paddr n'] False
          by (simp add: sub_checked_Ok_iff)
        done
      done
  qed
qed

lemma alloc_memory_keeps: "keeps fst pr (alloc_memory n share pr k)"
proof -
  have pages: "keeps fst pr (alloc_pages opts va kva n off (pr\<lparr>p_address_space_allocator := v\<rparr>) k)" for opts va kva off k v
    using alloc_pages_keeps [of "pr\<lparr>p_address_space_allocator := v\<rparr>"] by simp
  have share: "keeps (\<lambda>_. pr) pr (if share
      then bind_outcome (map_outcome_err (\<lambda>e. (KMemory e, pr\<lparr>p_address_space_allocator := v\<rparr>, k)) r) (\<lambda>(kv, kvaddr).
        Ok (k\<lparr>km_vaa := kv\<rparr>, Some kvaddr))
      else Ok (k, None))" for v r
    by (cases share) (auto intro!: keeps_bind [OF keeps_map_err])
  show ?thesis
    unfolding alloc_memory_def Let_def
    by (rule keeps_bind2 [OF keeps_map_err], simp, rule keeps_bind2 [OF share], rule keeps_bind2 [OF pages], simp)
qed

lemma free_memory_same: "free_memory ptr n pr k = Ok (pr', k') \<Longrightarrow> same_queues pr pr'"
  by (auto simp: free_memory_def outcome_simps)

lemma free_memory_not_Err: "free_memory ptr n pr k \<noteq> Err e"
proof -
  have "free_regions rs k' \<noteq> Err e" for rs k' by (induction rs arbitrary: k') (auto simp: outcome_simps)
  then show ?thesis by (auto simp: free_memory_def outcome_simps)
qed

lemma next_queue_id_eq:
  "next_queue_id pr k = (if p_next_queue_id pr = 0 then Err (KMisc (Some OutOfIdsCode), pr, k)
     else Ok (pr\<lparr>p_next_queue_id := p_next_queue_id pr + 1\<rparr>, unat (p_next_queue_id pr)))"
  by (simp add: next_queue_id_def)

lemma create_queue_Ok:
  assumes "create_queue ly n pr k = Ok (pr', k', q, nq, mem)"
  shows "p_next_queue_id pr \<noteq> 0" "same_queues (pr\<lparr>p_next_queue_id := p_next_queue_id pr + 1\<rparr>) pr'"
    "uq_id q = unat (p_next_queue_id pr)" "nq_id nq = unat (p_next_queue_id pr)"
proof -
  let ?pr = "pr\<lparr>p_next_queue_id := p_next_queue_id pr + 1\<rparr>"
  show n: "p_next_queue_id pr \<noteq> 0"
    using assms by (auto simp: create_queue_def next_queue_id_eq split: if_splits)
  obtain pages where "alloc_memory pages True ?pr k = Ok (pr', k', uq_user_base_address q, Some (uq_root_address q))"
    and q: "queue_new (unat (p_next_queue_id pr)) n = (Ok (uq_queue q) :: (kernel_error \<times> process \<times> kmem, queue_handle) outcome)"
    and nq: "nq_id nq = unat (p_next_queue_id pr)"
    using assms n by (auto simp: create_queue_def next_queue_id_eq outcome_simps split: if_splits option.splits)
  then show "same_queues ?pr pr'" using alloc_memory_keeps [of ?pr pages True k] by (auto simp: keeps_def)
  show "uq_id q = unat (p_next_queue_id pr)" using q by (auto simp: queue_new_def outcome_simps) (metis queue_handle.select_convs(1))
  show "nq_id nq = unat (p_next_queue_id pr)" by (rule nq)
qed

lemma create_queue_Err:
  assumes "create_queue ly n pr k = Err (e, pr', k')"
  shows "same_queues pr pr' \<or> p_next_queue_id pr \<noteq> 0 \<and> same_queues (pr\<lparr>p_next_queue_id := p_next_queue_id pr + 1\<rparr>) pr'"
proof -
  let ?pr = "pr\<lparr>p_next_queue_id := p_next_queue_id pr + 1\<rparr>"
  have "queue_new i n \<noteq> (Err x :: (kernel_error \<times> process \<times> kmem, queue_handle) outcome)" for i x
    by (auto simp: queue_new_def outcome_simps ensure_def next_power_of_two_def split: if_splits option.splits)
  moreover have "layout_size ly n \<noteq> (Err x :: (kernel_error \<times> process \<times> kmem, nat) outcome)" for x
    by (auto simp: layout_size_def queue_size_in_bytes_def outcome_simps)
  ultimately consider "pr' = pr" | pages where "p_next_queue_id pr \<noteq> 0" "alloc_memory pages True ?pr k = Err (e, pr', k')"
    using assms by (auto simp: create_queue_def next_queue_id_eq outcome_simps split: if_splits option.splits)
  then show ?thesis
  proof cases
    case 2
    then show ?thesis using alloc_memory_keeps [of ?pr pages True k] unfolding keeps_def by blast
  qed simp
qed

section \<open>The queue commands keep the tables well-formed\<close>

lemma queues_okD:
  assumes "queues_ok pr"
  shows "distinct (queue_ids pr)" "i \<in> set (queue_ids pr) \<Longrightarrow> 0 < i \<and> i < 2 ^ 16"
    "i \<in> set (queue_ids pr) \<Longrightarrow> p_next_queue_id pr \<noteq> 0 \<Longrightarrow> i < unat (p_next_queue_id pr)"
    "(q, rq) \<in> set (p_send_queues pr) \<Longrightarrow> rq \<in> set (p_recv_queues pr)"
  using assms unfolding queues_ok_def by blast+

lemma queues_ok_counter:
  assumes "queues_ok pr" "p_next_queue_id pr \<noteq> 0"
  shows "queues_ok (pr\<lparr>p_next_queue_id := p_next_queue_id pr + 1\<rparr>)"
proof -
  have "queue_ids (pr\<lparr>p_next_queue_id := c\<rparr>) = queue_ids pr" for c by (simp add: queue_ids_def)
  moreover have "i < unat (p_next_queue_id pr + 1)" if "p_next_queue_id pr + 1 \<noteq> 0" "i \<in> set (queue_ids pr)" for i
    using unatSuc [of "p_next_queue_id pr"] queues_okD(3) [OF assms(1) that(2) assms(2)] that(1) by (simp add: add.commute [of 1])
  ultimately show ?thesis using assms(1) unfolding queues_ok_def by simp
qed

text \<open>A new queue takes the identifier the counter stands at.\<close>

lemma queues_ok_add:
  assumes ok: "queues_ok pr" and i: "p_next_queue_id pr \<noteq> 0" "i = unat (p_next_queue_id pr)"
    and same: "p_next_queue_id pr' = p_next_queue_id pr + 1"
    and ids: "set (queue_ids pr') = insert i (set (queue_ids pr))" "length (queue_ids pr') = Suc (length (queue_ids pr))"
    and send: "\<And>q rq. (q, rq) \<in> set (p_send_queues pr') \<Longrightarrow> rq \<in> set (p_recv_queues pr')"
  shows "queues_ok pr'"
proof -
  have new: "i \<notin> set (queue_ids pr)" using queues_okD(3) [OF ok] i by blast
  have "card (set (queue_ids pr')) = length (queue_ids pr')"
    using ids new queues_okD(1) [OF ok] by (simp add: distinct_card)
  then have d: "distinct (queue_ids pr')" by (rule card_distinct)
  have lt: "i < 2 ^ 16" using unsigned_less [of "p_next_queue_id pr"] i(2) by simp
  have pos: "0 < i" using i by (simp add: unat_gt_0)
  have nx: "j < unat (p_next_queue_id pr')" if "j \<in> set (queue_ids pr')" "p_next_queue_id pr' \<noteq> 0" for j
    using that queues_okD(3) [OF ok _ i(1), of j] unatSuc [of "p_next_queue_id pr"] i(2) same ids(1)
    by (auto simp: add.commute [of 1])
  show ?thesis unfolding queues_ok_def
  proof (intro conjI ballI)
    show "distinct (queue_ids pr')" by (rule d)
    show "case x of (q, rq) \<Rightarrow> rq \<in> set (p_recv_queues pr')" if "x \<in> set (p_send_queues pr')" for x
      using that send by (auto split: prod.split)
    fix j assume j: "j \<in> set (queue_ids pr')"
    then show "0 < j" "j < 2 ^ 16" using queues_okD(2) [OF ok, of j] pos lt ids(1) by auto
    show "p_next_queue_id pr' \<noteq> 0 \<longrightarrow> j < unat (p_next_queue_id pr')" using nx [OF j] by blast
  qed
qed

lemma create_queue_Err_ok: "create_queue ly n pr k = Err (e, pr', k') \<Longrightarrow> queues_ok pr \<Longrightarrow> queues_ok pr'"
  by (drule create_queue_Err) (auto dest: queues_ok_same queues_ok_counter)

lemma create_completion_queue_ok:
  assumes "queues_ok pr"
  shows "create_completion_queue ly n pr k = Err (e, pr', k') \<Longrightarrow> queues_ok pr'"
    "create_completion_queue ly n pr k = Ok (pr', k', nq) \<Longrightarrow> queues_ok pr' \<and>
       p_next_queue_id pr \<noteq> 0 \<and> p_next_queue_id pr' = p_next_queue_id pr + 1 \<and> nq_id nq = unat (p_next_queue_id pr)"
proof -
  show "queues_ok pr'" if "create_completion_queue ly n pr k = Err (e, pr', k')"
    using that assms create_queue_Err_ok by (fastforce simp: create_completion_queue_def outcome_simps)
  assume "create_completion_queue ly n pr k = Ok (pr', k', nq)"
  then obtain pr1 oq mem where c: "create_queue ly n pr k = Ok (pr1, k', oq, nq, mem :: message queue_mem)"
    and pr': "pr' = pr1\<lparr>p_recv_queues := oq # p_recv_queues pr1, p_completions := (p_completions pr1)(uq_root_address oq \<mapsto> mem)\<rparr>"
    by (auto simp: create_completion_queue_def outcome_simps)
  note C = create_queue_Ok [OF c]
  have "queues_ok pr'"
    by (rule queues_ok_add [OF assms C(1) C(3)])
      (use C(2,3) queues_okD(4) [OF assms] in \<open>auto simp: pr' same_queues_def queue_ids_def\<close>)
  then show "queues_ok pr' \<and> p_next_queue_id pr \<noteq> 0 \<and> p_next_queue_id pr' = p_next_queue_id pr + 1 \<and>
      nq_id nq = unat (p_next_queue_id pr)"
    using C by (simp add: pr' same_queues_def)
qed

lemma finish_submission_queue_Ok:
  assumes "finish_submission_queue ly n rq pr k = Ok (pr', k', nq)"
  shows "\<exists>oq. uq_id oq = unat (p_next_queue_id pr) \<and> p_send_queues pr' = (oq, rq) # p_send_queues pr \<and>
     p_recv_queues pr' = p_recv_queues pr \<and> p_next_queue_id pr \<noteq> 0 \<and> p_next_queue_id pr' = p_next_queue_id pr + 1 \<and>
     nq_id nq = unat (p_next_queue_id pr)"
proof -
  obtain pr1 oq mem where c: "create_queue ly n pr k = Ok (pr1, k', oq, nq, mem :: command queue_mem)"
    and pr': "pr' = pr1\<lparr>p_send_queues := (oq, rq) # p_send_queues pr1, p_commands := (p_commands pr1)(uq_root_address oq \<mapsto> mem)\<rparr>"
    using assms by (auto simp: finish_submission_queue_def outcome_simps)
  show ?thesis using create_queue_Ok [OF c] by (simp add: pr' same_queues_def)
qed

lemma create_submission_queue_ok:
  assumes "queues_ok pr"
  shows "create_submission_queue ly n i pr k = Err (e, pr', k') \<Longrightarrow> queues_ok pr'"
    "create_submission_queue ly n i pr k = Ok (pr', k', nq) \<Longrightarrow> queues_ok pr' \<and>
       p_next_queue_id pr \<noteq> 0 \<and> p_next_queue_id pr' = p_next_queue_id pr + 1 \<and> nq_id nq = unat (p_next_queue_id pr)"
proof -
  show "queues_ok pr'" if "create_submission_queue ly n i pr k = Err (e, pr', k')"
    using that assms create_queue_Err_ok
    by (fastforce simp: create_submission_queue_def finish_submission_queue_def outcome_simps split: option.splits)
  assume "create_submission_queue ly n i pr k = Ok (pr', k', nq)"
  then obtain rq where rq: "find_completion_queue i pr = Some rq" "finish_submission_queue ly n rq pr k = Ok (pr', k', nq)"
    by (auto simp: create_submission_queue_def split: option.splits)
  have mem: "rq \<in> set (p_recv_queues pr)" using rq(1) by (auto simp: find_completion_queue_def find_Some_iff)
  obtain oq where f: "uq_id oq = unat (p_next_queue_id pr)" "p_send_queues pr' = (oq, rq) # p_send_queues pr"
    "p_recv_queues pr' = p_recv_queues pr" "p_next_queue_id pr \<noteq> 0" "p_next_queue_id pr' = p_next_queue_id pr + 1"
    "nq_id nq = unat (p_next_queue_id pr)"
    using finish_submission_queue_Ok [OF rq(2)] by blast
  have "queues_ok pr'"
    by (rule queues_ok_add [OF assms f(4) f(1)]) (use f mem queues_okD(4) [OF assms] in \<open>auto simp: queue_ids_def\<close>)
  then show "queues_ok pr' \<and> p_next_queue_id pr \<noteq> 0 \<and> p_next_queue_id pr' = p_next_queue_id pr + 1 \<and>
      nq_id nq = unat (p_next_queue_id pr)"
    using f by simp
qed

lemma remove_first_set: "set (remove_first P xs) \<subseteq> set xs" "x \<in> set xs \<Longrightarrow> \<not> P x \<Longrightarrow> x \<in> set (remove_first P xs)"
  by (induction xs) (auto simp: remove_first_def)

lemma remove_first_distinct:
  assumes "distinct (map f xs)"
  shows "distinct (map f (remove_first P xs))"
proof (cases "\<exists>x\<in>set xs. P x")
  case True
  then obtain us x vs where "xs = us @ x # vs" "P x" "\<forall>y\<in>set us. \<not> P y" using split_list_first_prop [of xs P] by blast
  then show ?thesis using assms remove_first_split(1) [of us P x vs] by auto
qed (use assms remove_first_none(1) [of xs P] in auto)

text \<open>The tables after a removal; nothing refers to a queue with the identifier \<open>i\<close>.\<close>

definition without_queue :: "queue_id \<Rightarrow> process \<Rightarrow> process" where
  "without_queue i pr = pr\<lparr>p_recv_queues := remove_first (\<lambda>q. uq_id q = i) (p_recv_queues pr),
     p_send_queues := remove_first (\<lambda>(q, _). uq_id q = i) (p_send_queues pr)\<rparr>"

lemma without_queue_ok:
  assumes ok: "queues_ok pr" and unused: "\<forall>(_, q)\<in>set (p_send_queues pr). uq_id q \<noteq> i"
  shows "queues_ok (without_queue i pr)"
proof -
  let ?pr = "without_queue i pr" and ?recv = "\<lambda>pr. map uq_id (p_recv_queues pr)"
    and ?send = "\<lambda>pr. map (\<lambda>(q, _). uq_id q) (p_send_queues pr)"
  have fields: "p_recv_queues ?pr = remove_first (\<lambda>q. uq_id q = i) (p_recv_queues pr)"
    "p_send_queues ?pr = remove_first (\<lambda>(q, _). uq_id q = i) (p_send_queues pr)" "p_next_queue_id ?pr = p_next_queue_id pr"
    by (simp_all add: without_queue_def)
  have sub: "set (?recv ?pr) \<subseteq> set (?recv pr)" "set (?send ?pr) \<subseteq> set (?send pr)"
    unfolding set_map fields by (intro image_mono remove_first_set(1))+
  have old: "distinct (?recv pr)" "distinct (?send pr)" "set (?recv pr) \<inter> set (?send pr) = {}"
    using queues_okD(1) [OF ok] by (simp_all add: queue_ids_def)
  have "distinct (?recv ?pr)" "distinct (?send ?pr)"
    unfolding fields by (rule remove_first_distinct [OF old(1)], rule remove_first_distinct [OF old(2)])
  then have d: "distinct (queue_ids ?pr)" unfolding queue_ids_def distinct_append using sub old(3) by blast
  have ids: "set (queue_ids ?pr) \<subseteq> set (queue_ids pr)" unfolding queue_ids_def set_append using sub by blast
  have send: "rq \<in> set (p_recv_queues ?pr)" if "(q, rq) \<in> set (p_send_queues ?pr)" for q rq
  proof -
    have "(q, rq) \<in> set (p_send_queues pr)" using that remove_first_set(1) unfolding fields by (rule rev_subsetD)
    then have "rq \<in> set (p_recv_queues pr)" "uq_id rq \<noteq> i" using queues_okD(4) [OF ok] unused by blast+
    then show ?thesis unfolding fields by (rule remove_first_set(2))
  qed
  show ?thesis unfolding queues_ok_def
  proof (intro conjI ballI)
    show "distinct (queue_ids ?pr)" by (rule d)
    show "case x of (q, rq) \<Rightarrow> rq \<in> set (p_recv_queues ?pr)" if "x \<in> set (p_send_queues ?pr)" for x
      using that send by (auto split: prod.split)
    fix j assume j: "j \<in> set (queue_ids ?pr)"
    then show "0 < j" "j < 2 ^ 16" "p_next_queue_id ?pr \<noteq> 0 \<longrightarrow> j < unat (p_next_queue_id ?pr)"
      using ids queues_okD(2,3) [OF ok, of j] unfolding fields by blast+
  qed
qed

abbreviation queue_used :: "queue_id \<Rightarrow> process \<Rightarrow> bool" where
  "queue_used i pr \<equiv> list_ex (\<lambda>(_, q). uq_id q = i) (p_send_queues pr)"

lemma destroy_queue_cases:
  shows "destroy_queue cly ply i pr k = Err (e, pr', k') \<Longrightarrow> k' = k \<and>
      (if queue_used i pr then pr' = pr \<and> e = KMisc (Some InUseCode)
       else pr' = without_queue i pr \<and> i \<notin> set (queue_ids pr) \<and> e = KMisc (Some InvalidIdCode))"
    "destroy_queue cly ply i pr k = Ok (pr', k') \<Longrightarrow> \<not> queue_used i pr \<and> same_queues (without_queue i pr) pr'"
proof -
  have mr: "memory_region ly q \<noteq> (Err x :: (kernel_error \<times> process \<times> kmem, _) outcome)" for ly q x
    by (auto simp: memory_region_def layout_size_def queue_size_in_bytes_def outcome_simps)
  have find: "List.find P xs = None \<Longrightarrow> x \<in> set xs \<Longrightarrow> \<not> P x" for P and xs :: "'z list" and x by (auto simp: find_None_iff)
  show "destroy_queue cly ply i pr k = Err (e, pr', k') \<Longrightarrow> k' = k \<and>
      (if queue_used i pr then pr' = pr \<and> e = KMisc (Some InUseCode)
       else pr' = without_queue i pr \<and> i \<notin> set (queue_ids pr) \<and> e = KMisc (Some InvalidIdCode))"
    unfolding destroy_queue_def without_queue_def queue_ids_def
    by (auto simp: Let_def outcome_simps mr free_memory_not_Err split: if_splits option.splits dest: find)
  show "destroy_queue cly ply i pr k = Ok (pr', k') \<Longrightarrow> \<not> queue_used i pr \<and> same_queues (without_queue i pr) pr'"
    unfolding destroy_queue_def without_queue_def
    by (auto simp: Let_def outcome_simps split: if_splits option.splits dest!: free_memory_same)
qed

lemma destroy_queue_ok:
  assumes "queues_ok pr"
  shows "destroy_queue cly ply i pr k = Err (e, pr', k') \<Longrightarrow> queues_ok pr'"
    "destroy_queue cly ply i pr k = Ok (pr', k') \<Longrightarrow> queues_ok pr'"
proof -
  have ok: "queues_ok (without_queue i pr)" if "\<not> queue_used i pr"
    using without_queue_ok [OF assms] that by (auto simp: list_ex_iff)
  show "destroy_queue cly ply i pr k = Err (e, pr', k') \<Longrightarrow> queues_ok pr'"
    using destroy_queue_cases(1) [of cly ply i pr k e pr' k'] ok assms by (auto split: if_splits)
  show "destroy_queue cly ply i pr k = Ok (pr', k') \<Longrightarrow> queues_ok pr'"
    using destroy_queue_cases(2) [of cly ply i pr k pr' k'] ok queues_ok_same by blast
qed

text \<open>
  A completion queue that is destroyed while \<open>create_submission_queue\<close> waits for memory leaves a
  submission queue tied to a queue that is gone.
\<close>

lemma submission_queue_race:
  assumes "queues_ok pr" "find_completion_queue i pr = Some rq" "destroy_queue cly ply i pr k = Ok (pr1, k1)"
    "finish_submission_queue ly n rq pr1 k1 = Ok (pr2, k2, nq)"
  shows "\<exists>oq. (oq, rq) \<in> set (p_send_queues pr2) \<and> rq \<notin> set (p_recv_queues pr2)"
proof -
  have same: "same_queues (without_queue i pr) pr1" using destroy_queue_cases(2) [OF assms(3)] by blast
  let ?P = "\<lambda>q. uq_id q = i"
  have "\<exists>q\<in>set (p_recv_queues pr). ?P q"
    using assms(2) by (auto simp: find_completion_queue_def find_Some_iff)
  then obtain us q vs where q: "p_recv_queues pr = us @ q # vs" "?P q" "\<forall>q\<in>set us. \<not> ?P q"
    using split_list_first_prop [of "p_recv_queues pr" ?P] by blast
  then have "q = rq" using remove_first_split(2) [OF q(3,2), of vs] assms(2) by (simp add: find_completion_queue_def)
  note s = q [unfolded this]
  have "distinct (map uq_id (p_recv_queues pr))" using queues_okD(1) [OF assms(1)] by (simp add: queue_ids_def)
  then have "rq \<notin> set (us @ vs)" using s by auto
  moreover have "p_recv_queues pr1 = us @ vs"
    using same s remove_first_split(1) [of us "\<lambda>q. uq_id q = i" rq vs] by (simp add: same_queues_def without_queue_def)
  ultimately show ?thesis using finish_submission_queue_Ok [OF assms(4)] by auto
qed

end
