(* ===== verification/Scheduler.thy ===== *)
theory Scheduler
  imports Page_Table Exit_State
begin

text \<open>
  Threads and their scheduler (\<open>kernel/src/process/thread/mod.rs\<close>, \<open>reg.rs\<close> and \<open>scheduler.rs\<close>). A thread is a
  shared object (\<open>Arc<Thread>\<close>): the table maps references to threads, and the queues of the scheduler
  hold references. The system registers the context switch reads and writes are the record \<open>cpu\<close>.
\<close>

unbundle bit_operations_syntax

section \<open>Threads\<close>

datatype thread_priority = PriorityHigh | PriorityNormal | PriorityLow
datatype thread_state = ThreadRunning | ThreadWaiting

fun priority_to_integer :: "thread_priority \<Rightarrow> nat" where
  "priority_to_integer PriorityHigh = 0"
| "priority_to_integer PriorityNormal = 1"
| "priority_to_integer PriorityLow = 2"

definition priority_from_integer :: "nat \<Rightarrow> thread_priority option" where
  "priority_from_integer n =
     (if n = 0 then Some PriorityHigh else if n = 1 then Some PriorityNormal else if n = 2 then Some PriorityLow else None)"

fun state_to_integer :: "thread_state \<Rightarrow> nat" where
  "state_to_integer ThreadRunning = 1"
| "state_to_integer ThreadWaiting = 2"

definition state_from_integer :: "nat \<Rightarrow> thread_state option" where
  "state_from_integer n = (if n = 1 then Some ThreadRunning else if n = 2 then Some ThreadWaiting else None)"

type_synonym registers = "nat list"

definition initial_for_el0 :: "64 word" where "initial_for_el0 = 0"

definition initial_for_el1 :: "64 word" where "initial_for_el1 = set_field 3 2 1 0"

record execution_state =
  register_state :: registers
  program_status :: "64 word"
  es_pc :: virtual_address
  es_sp :: virtual_address

text \<open>The parent is a reference to a process; none for a thread of the kernel.\<close>

type_synonym process_ref = nat

record thread =
  th_id :: nat
  th_parent :: "process_ref option"
  th_state :: nat
  th_priority :: nat
  th_exec_state :: execution_state
  th_exit_state :: exit_state
  th_stack_start :: virtual_address
  th_stack_page_count :: nat

type_synonym thread_ref = nat

definition IDLE_THREAD :: nat where "IDLE_THREAD = 0"
definition TASK_THREAD :: nat where "TASK_THREAD = 1"

definition thread_get_state :: "thread \<Rightarrow> (unit, thread_state) outcome" where
  "thread_get_state t = (case state_from_integer (th_state t) of Some s \<Rightarrow> Ok s | None \<Rightarrow> Panic)"

definition thread_set_state :: "thread_state \<Rightarrow> thread \<Rightarrow> thread" where
  "thread_set_state s t = t\<lparr>th_state := state_to_integer s\<rparr>"

definition thread_get_priority :: "thread \<Rightarrow> (unit, thread_priority) outcome" where
  "thread_get_priority t = (case priority_from_integer (th_priority t) of Some p \<Rightarrow> Ok p | None \<Rightarrow> Panic)"

definition default_registers :: registers where "default_registers = replicate 31 0"

definition idle_thread :: thread where
  "idle_thread =
     \<lparr>th_id = IDLE_THREAD, th_parent = None, th_state = state_to_integer ThreadRunning,
      th_priority = priority_to_integer PriorityLow,
      th_exec_state = \<lparr>register_state = default_registers, program_status = set_flag 0 True initial_for_el1, es_pc = 0, es_sp = 0\<rparr>,
      th_exit_state = exit_state_default, th_stack_start = 0, th_stack_page_count = 0\<rparr>"

definition kernel_thread :: "nat \<Rightarrow> virtual_address \<Rightarrow> virtual_address \<Rightarrow> nat \<Rightarrow> (unit, thread) outcome" where
  "kernel_thread i start stack_addr stack_pages =
     bind_outcome (mul_checked stack_pages PAGE_SIZE) (\<lambda>len.
     Ok \<lparr>th_id = i, th_parent = None, th_state = state_to_integer ThreadRunning,
        th_priority = priority_to_integer PriorityNormal,
        th_exec_state = \<lparr>register_state = default_registers, program_status = initial_for_el1, es_pc = start,
          es_sp = va_add stack_addr len\<rparr>,
        th_exit_state = exit_state_default, th_stack_start = stack_addr, th_stack_page_count = stack_pages\<rparr>)"

definition user_thread ::
  "process_ref \<Rightarrow> nat \<Rightarrow> virtual_address \<Rightarrow> virtual_address \<Rightarrow> nat \<Rightarrow> thread_priority \<Rightarrow> registers \<Rightarrow> (unit, thread) outcome" where
  "user_thread proc tid entry_point stack_base_address stack_page_count priority start_registers =
     bind_outcome (mul_checked stack_page_count PAGE_SIZE) (\<lambda>len.
     Ok \<lparr>th_id = tid, th_parent = Some proc, th_state = state_to_integer ThreadRunning,
        th_priority = priority_to_integer priority,
        th_exec_state = \<lparr>register_state = start_registers, program_status = initial_for_el0, es_pc = entry_point,
          es_sp = va_add stack_base_address len\<rparr>,
        th_exit_state = exit_state_default, th_stack_start = stack_base_address, th_stack_page_count = stack_page_count\<rparr>)"

section \<open>Context switch\<close>

record cpu =
  cpu_spsr :: "64 word"
  cpu_elr :: virtual_address
  cpu_sp_el0 :: virtual_address
  cpu_ttbr0 :: nat
  cpu_ttbr1 :: nat
  cpu_flushed :: "nat list"

definition es_save :: "registers \<Rightarrow> cpu \<Rightarrow> execution_state \<Rightarrow> execution_state" where
  "es_save regs c e = \<lparr>register_state = regs, program_status = cpu_spsr c, es_pc = cpu_elr c, es_sp = cpu_sp_el0 c\<rparr>"

definition es_restore :: "execution_state \<Rightarrow> cpu \<Rightarrow> registers \<times> cpu" where
  "es_restore e c = (register_state e, c\<lparr>cpu_elr := es_pc e, cpu_sp_el0 := es_sp e, cpu_spsr := program_status e\<rparr>)"

definition pt_activate :: "page_table \<Rightarrow> cpu \<Rightarrow> cpu" where
  "pt_activate pt c =
     (let v = take_bit 64 (push_bit 48 (asid pt)) OR level0_phy_addr pt in
      if high_addresses pt then c\<lparr>cpu_ttbr1 := v\<rparr> else c\<lparr>cpu_ttbr0 := v\<rparr>)"

definition flush_tlb_for_asid :: "nat \<Rightarrow> cpu \<Rightarrow> cpu" where
  "flush_tlb_for_asid a c = c\<lparr>cpu_flushed := a # cpu_flushed c\<rparr>"

section \<open>The scheduler\<close>

type_synonym thread_queue = "thread_ref list \<times> nat"

record scheduler =
  sch_queues :: "thread_queue list"
  current_thread :: thread_ref

text \<open>The threads, and the references of the live ones in the order of the table.\<close>

record thread_table =
  tt_threads :: "thread_ref \<Rightarrow> thread"
  tt_live :: "thread_ref list"

definition thread_for_id :: "nat \<Rightarrow> thread_table \<Rightarrow> thread_ref option" where
  "thread_for_id tid tt = List.find (\<lambda>r. th_id (tt_threads tt r) = tid) (tt_live tt)"

definition scheduler_new :: "thread_table \<Rightarrow> (unit, scheduler) outcome" where
  "scheduler_new tt =
     (case thread_for_id IDLE_THREAD tt of
        None \<Rightarrow> Panic
      | Some idle \<Rightarrow> Ok \<lparr>sch_queues = [([], 0), ([], 0), ([idle], 0)], current_thread = idle\<rparr>)"

text \<open>
  The inner loop of \<open>schedule_next_thread\<close>: \<open>skips\<close> counts down and underflows after a full round of
  waiting threads.
\<close>

fun skip_waiting :: "(thread_ref \<Rightarrow> thread) \<Rightarrow> thread_ref list \<Rightarrow> nat \<Rightarrow> nat \<Rightarrow> (unit, nat \<times> nat) outcome" where
  "skip_waiting ths queue skips next =
     bind_outcome (thread_get_state (ths (queue ! next))) (\<lambda>s.
     if s = ThreadRunning then Ok (skips, next)
     else (case skips of 0 \<Rightarrow> Panic | Suc n \<Rightarrow> skip_waiting ths queue n ((next + 1) mod length queue)))"

declare skip_waiting.simps [simp del]

text \<open>The loop over the queues: the queues after the call, and the thread that becomes current.\<close>

fun schedule_queues ::
  "(thread_ref \<Rightarrow> thread) \<Rightarrow> thread_queue list \<Rightarrow> (unit, thread_queue list \<times> thread_ref) outcome" where
  "schedule_queues ths [] = Panic"
| "schedule_queues ths ((queue, next) # queues) =
     (if queue = [] then bind_outcome (schedule_queues ths queues) (\<lambda>(qs, t). Ok ((queue, next) # qs, t))
      else
        let next = (if length queue \<le> next then 0 else next) in
        bind_outcome (skip_waiting ths queue (length queue) next) (\<lambda>(skips, next).
        if skips = 0 then bind_outcome (schedule_queues ths queues) (\<lambda>(qs, t). Ok ((queue, next) # qs, t))
        else Ok ((queue, (next + 1) mod length queue) # queues, queue ! next)))"

definition schedule_next_thread :: "(thread_ref \<Rightarrow> thread) \<Rightarrow> scheduler \<Rightarrow> (unit, scheduler) outcome" where
  "schedule_next_thread ths s =
     bind_outcome (schedule_queues ths (sch_queues s)) (\<lambda>(qs, t). Ok (s\<lparr>sch_queues := qs, current_thread := t\<rparr>))"

definition make_task_executor_current :: "thread_table \<Rightarrow> scheduler \<Rightarrow> (unit, scheduler) outcome" where
  "make_task_executor_current tt s =
     (case thread_for_id TASK_THREAD tt of None \<Rightarrow> Panic | Some t \<Rightarrow> Ok (s\<lparr>current_thread := t\<rparr>))"

definition update_queue :: "nat \<Rightarrow> (thread_ref list \<Rightarrow> thread_ref list) \<Rightarrow> scheduler \<Rightarrow> (unit, scheduler) outcome" where
  "update_queue p f s =
     (if p < length (sch_queues s)
      then let (queue, next) = sch_queues s ! p in Ok (s\<lparr>sch_queues := (sch_queues s)[p := (f queue, next)]\<rparr>)
      else Panic)"

definition add_thread :: "(thread_ref \<Rightarrow> thread) \<Rightarrow> thread_ref \<Rightarrow> scheduler \<Rightarrow> (unit, scheduler) outcome" where
  "add_thread ths t s =
     bind_outcome (thread_get_priority (ths t)) (\<lambda>p.
     update_queue (priority_to_integer p) (\<lambda>queue. queue @ [t]) s)"

definition remove_thread :: "(thread_ref \<Rightarrow> thread) \<Rightarrow> thread_ref \<Rightarrow> scheduler \<Rightarrow> (unit, scheduler) outcome" where
  "remove_thread ths t s =
     bind_outcome (thread_get_priority (ths t)) (\<lambda>p.
     bind_outcome (update_queue (priority_to_integer p) (filter (\<lambda>r. th_id (ths r) \<noteq> th_id (ths t))) s) (\<lambda>s.
     if th_id (ths t) = th_id (ths (current_thread s)) then schedule_next_thread ths s else Ok s))"

definition pause_current_thread :: "registers \<Rightarrow> cpu \<Rightarrow> scheduler \<Rightarrow> thread_table \<Rightarrow> thread_table \<times> thread_ref" where
  "pause_current_thread regs c s tt =
     (let r = current_thread s; t = tt_threads tt r in
      (tt\<lparr>tt_threads := (tt_threads tt)(r := t\<lparr>th_exec_state := es_save regs c (th_exec_state t)\<rparr>)\<rparr>, r))"

definition resume_current_thread ::
  "(process_ref \<Rightarrow> page_table) \<Rightarrow> nat option \<Rightarrow> scheduler \<Rightarrow> thread_table \<Rightarrow> cpu \<Rightarrow> registers \<times> cpu" where
  "resume_current_thread page_tables previous_asid s tt c =
     (let t = tt_threads tt (current_thread s);
          c = (case th_parent t of None \<Rightarrow> c | Some proc \<Rightarrow> pt_activate (page_tables proc) c);
          c = flush_tlb_for_asid (case previous_asid of None \<Rightarrow> 0 | Some a \<Rightarrow> a) c in
      es_restore (th_exec_state t) c)"

definition spawn_thread :: "thread_ref \<Rightarrow> thread_table \<Rightarrow> scheduler \<Rightarrow> (unit, thread_table \<times> scheduler) outcome" where
  "spawn_thread t tt s =
     (let tt = tt\<lparr>tt_live := t # tt_live tt\<rparr> in
      bind_outcome (add_thread (tt_threads tt) t s) (\<lambda>s. Ok (tt, s)))"


section \<open>Round robin\<close>

text \<open>Calls of the scheduler one after the other, the states of the threads unchanged.\<close>

fun schedule_times :: "(thread_ref \<Rightarrow> thread) \<Rightarrow> nat \<Rightarrow> scheduler \<Rightarrow> (unit, scheduler) outcome" where
  "schedule_times ths 0 s = Ok s"
| "schedule_times ths (Suc n) s = bind_outcome (schedule_next_thread ths s) (schedule_times ths n)"

abbreviation thread_running :: "(thread_ref \<Rightarrow> thread) \<Rightarrow> thread_ref \<Rightarrow> bool" where
  "thread_running ths r \<equiv> th_state (ths r) = state_to_integer ThreadRunning"

abbreviation thread_waiting :: "(thread_ref \<Rightarrow> thread) \<Rightarrow> thread_ref \<Rightarrow> bool" where
  "thread_waiting ths r \<equiv> th_state (ths r) = state_to_integer ThreadWaiting"

lemma thread_get_state_eqs:
  "thread_running ths r \<Longrightarrow> thread_get_state (ths r) = Ok ThreadRunning"
  "thread_waiting ths r \<Longrightarrow> thread_get_state (ths r) = Ok ThreadWaiting"
  by (simp_all add: thread_get_state_def state_from_integer_def)

lemma skip_waiting_finds:
  assumes "\<forall>j < k. thread_waiting ths (q ! ((nx + j) mod length q))" "thread_running ths (q ! ((nx + k) mod length q))"
    "k \<le> skips" "nx < length q"
  shows "skip_waiting ths q skips nx = Ok (skips - k, (nx + k) mod length q)"
  using assms
proof (induction k arbitrary: nx skips)
  case 0
  then show ?case by (subst skip_waiting.simps) (simp add: thread_get_state_eqs)
next
  case (Suc k)
  obtain n where n: "skips = Suc n" using Suc.prems(3) by (cases skips) simp_all
  let ?nx = "Suc nx mod length q"
  have w: "thread_waiting ths (q ! nx)" using Suc.prems(1,4) by (auto dest: spec [of _ 0])
  have shift: "(?nx + j) mod length q = Suc (nx + j) mod length q" for j
    using mod_add_left_eq [of "Suc nx" "length q" j] by simp
  have "?nx < length q" using Suc.prems(4) by (intro mod_less_divisor) linarith
  then have "skip_waiting ths q n ?nx = Ok (n - k, (?nx + k) mod length q)"
    by (intro Suc.IH) (use Suc.prems n in \<open>auto simp: shift\<close>)
  then show ?case using w n shift by (subst skip_waiting.simps) (simp add: thread_get_state_eqs)
qed

lemma skip_waiting_all:
  assumes "\<forall>r\<in>set q. thread_waiting ths r" "nx < length q"
  shows "skip_waiting ths q skips nx = Panic"
  using assms(2)
proof (induction skips arbitrary: nx)
  case 0
  then show ?case using assms(1) by (subst skip_waiting.simps) (simp add: thread_get_state_eqs)
next
  case (Suc n)
  have "Suc nx mod length q < length q" using Suc.prems by (intro mod_less_divisor) linarith
  then show ?case using Suc assms(1) by (subst skip_waiting.simps) (simp add: thread_get_state_eqs)
qed

definition queue_start :: "thread_queue \<Rightarrow> nat" where
  "queue_start qn = (if length (fst qn) \<le> snd qn then 0 else snd qn)"

text \<open>Empty queues of higher priority are passed over.\<close>

lemma schedule_queues_empty:
  assumes "\<forall>e\<in>set es. fst e = []"
  shows "schedule_queues ths (es @ qs) = bind_outcome (schedule_queues ths qs) (\<lambda>(qs', t). Ok (es @ qs', t))"
  using assms
proof (induction es)
  case Nil
  then show ?case by (cases "schedule_queues ths qs") auto
next
  case (Cons e es)
  then show ?case by (cases e; cases "schedule_queues ths qs") auto
qed

lemma schedule_next_finds:
  assumes "sch_queues s = es @ (q, nx) # qs" "\<forall>e\<in>set es. fst e = []"
    "\<forall>j < k. thread_waiting ths (q ! ((queue_start (q, nx) + j) mod length q))"
    "thread_running ths (q ! ((queue_start (q, nx) + k) mod length q))" "k < length q"
  shows "schedule_next_thread ths s = Ok (s\<lparr>sch_queues := es @ (q, (queue_start (q, nx) + Suc k) mod length q) # qs,
     current_thread := q ! ((queue_start (q, nx) + k) mod length q)\<rparr>)"
proof -
  have "queue_start (q, nx) < length q" using assms(5) by (auto simp: queue_start_def)
  then have "skip_waiting ths q (length q) (queue_start (q, nx)) =
      Ok (length q - k, (queue_start (q, nx) + k) mod length q)"
    using skip_waiting_finds [OF assms(3,4)] assms(5) by simp
  then show ?thesis using assms(1,2,5)
    by (auto simp: schedule_next_thread_def schedule_queues_empty queue_start_def Let_def mod_Suc_eq)
qed

lemma schedule_reaches:
  assumes "sch_queues s = es @ (q, nx) # qs" "\<forall>e\<in>set es. fst e = []"
    "\<forall>r\<in>set q. thread_running ths r \<or> thread_waiting ths r" "p < length q"
    "thread_running ths (q ! ((queue_start (q, nx) + p) mod length q))"
  shows "\<exists>m s' nx'. 0 < m \<and> m \<le> Suc p \<and> schedule_times ths m s = Ok s' \<and>
     current_thread s' = q ! ((queue_start (q, nx) + p) mod length q) \<and> sch_queues s' = es @ (q, nx') # qs"
  using assms(1,4,5)
proof (induction p arbitrary: s nx rule: less_induct)
  case (less p)
  let ?x = "queue_start (q, nx)"
  let ?run = "\<lambda>k. thread_running ths (q ! ((?x + k) mod length q))"
  define k where "k = (LEAST k. ?run k)"
  have k: "?run k" "k \<le> p" and first: "\<And>j. j < k \<Longrightarrow> \<not> ?run j"
    unfolding k_def using less.prems(3) by (auto intro: LeastI Least_le dest: not_less_Least)
  have "\<forall>j < k. thread_waiting ths (q ! ((?x + j) mod length q))"
    using first assms(3) less.prems(2) by (metis mod_less_divisor gr_implies_not0 neq0_conv nth_mem)
  note step = schedule_next_finds [OF less.prems(1) assms(2) this k(1)]
  let ?nx = "(?x + Suc k) mod length q"
  let ?s = "s\<lparr>sch_queues := es @ (q, ?nx) # qs, current_thread := q ! ((?x + k) mod length q)\<rparr>"
  have s: "schedule_next_thread ths s = Ok ?s" using step k(2) less.prems(2) by simp
  show ?case
  proof (cases "k = p")
    case True
    then show ?thesis using s by (intro exI [of _ 1]) auto
  next
    case False
    then have kp: "k < p" using k(2) by simp
    have "?nx < length q" using less.prems(2) by (intro mod_less_divisor) linarith
    then have start: "queue_start (q, ?nx) = ?nx" by (simp add: queue_start_def)
    have pos: "(?nx + (p - Suc k)) mod length q = (?x + p) mod length q"
      unfolding mod_add_left_eq using kp by simp
    have "\<exists>m s' nx'. 0 < m \<and> m \<le> Suc (p - Suc k) \<and> schedule_times ths m ?s = Ok s' \<and>
        current_thread s' = q ! ((?x + p) mod length q) \<and> sch_queues s' = es @ (q, nx') # qs"
      using less.IH [of "p - Suc k" ?s ?nx] kp less.prems(2,3) unfolding start pos by simp
    then obtain m s' nx' where m: "m \<le> Suc (p - Suc k)" "schedule_times ths m ?s = Ok s'"
        "current_thread s' = q ! ((?x + p) mod length q)" "sch_queues s' = es @ (q, nx') # qs" by blast
    have "schedule_times ths (Suc m) s = Ok s'" using s m(2) by simp
    moreover have "Suc m \<le> Suc p" using m(1) kp by simp
    ultimately show ?thesis using m(3,4) by blast
  qed
qed

text \<open>
  C37. Round robin: let every queue of higher priority be empty. Then every running thread of the first
  queue that is not empty becomes current within as many calls of the scheduler as the queue has
  threads, whatever the other threads of the queue do and wherever the queue's index stands; none of
  the calls panics, and the queues keep their threads.
\<close>

theorem scheduler_round_robin:
  assumes "sch_queues s = es @ (q, nx) # qs" "\<forall>e\<in>set es. fst e = []"
    "\<forall>r\<in>set q. thread_running ths r \<or> thread_waiting ths r" "t \<in> set q" "thread_running ths t"
  shows "\<exists>m s' nx'. 0 < m \<and> m \<le> length q \<and> schedule_times ths m s = Ok s' \<and> current_thread s' = t \<and>
     sch_queues s' = es @ (q, nx') # qs"
proof -
  let ?x = "queue_start (q, nx)" and ?n = "length q"
  obtain i where i: "i < ?n" "q ! i = t" using assms(4) by (auto simp: in_set_conv_nth)
  have x: "?x < ?n" using i(1) by (auto simp: queue_start_def)
  define p where "p = (i + ?n - ?x) mod ?n"
  have "(?x + p) mod ?n = (?x + (i + ?n - ?x)) mod ?n" unfolding p_def by (rule mod_add_right_eq)
  also have "\<dots> = i" using i(1) x by simp
  finally have p: "(?x + p) mod ?n = i" .
  have "p < ?n" unfolding p_def using i(1) by (intro mod_less_divisor) linarith
  then show ?thesis using schedule_reaches [OF assms(1-3), of p] assms(5) i(2) unfolding p by fastforce
qed

definition example_threads :: "thread_ref \<Rightarrow> thread" where
  "example_threads r = idle_thread\<lparr>th_id := r, th_state := (if r = 5 then 2 else 1)\<rparr>"

theorem scheduler_round_robin_witness:
  "\<exists>m s' nx'. 0 < m \<and> m \<le> 3 \<and>
     schedule_times example_threads m \<lparr>sch_queues = [([], 0), ([4, 5, 6], 7), ([0], 0)], current_thread = 0\<rparr> = Ok s' \<and>
     current_thread s' = 6 \<and> sch_queues s' = [([], 0), ([4, 5, 6], nx'), ([0], 0)]"
  using scheduler_round_robin [of "\<lparr>sch_queues = [([], 0), ([4, 5, 6], 7), ([0], 0)], current_thread = 0\<rparr>" "[([], 0)]"
      "[4, 5, 6]" 7 "[([0], 0)]" example_threads 6]
  by (simp add: example_threads_def idle_thread_def del: schedule_times.simps flip: numeral_3_eq_3)

text \<open>
  When all threads of a queue wait, the scheduler panics; it does not go on to the queues of lower
  priority.
\<close>

lemma waiting_queue_panics:
  assumes "sch_queues s = es @ (q, nx) # qs" "\<forall>e\<in>set es. fst e = []" "q \<noteq> []" "\<forall>r\<in>set q. thread_waiting ths r"
  shows "schedule_next_thread ths s = Panic"
proof -
  have "skip_waiting ths q (length q) (queue_start (q, nx)) = Panic"
    using assms(3,4) by (intro skip_waiting_all) (auto simp: queue_start_def)
  then show ?thesis using assms(1-3)
    by (auto simp: schedule_next_thread_def schedule_queues_empty queue_start_def Let_def)
qed

text \<open>The state a thread is paused with is the state it is resumed with.\<close>

lemma resume_after_pause:
  assumes "pause_current_thread regs c s tt = (tt', r)"
  shows "\<exists>c''. resume_current_thread pts a s tt' c' = (regs, c'') \<and>
     cpu_spsr c'' = cpu_spsr c \<and> cpu_elr c'' = cpu_elr c \<and> cpu_sp_el0 c'' = cpu_sp_el0 c"
  using assms by (auto simp: pause_current_thread_def resume_current_thread_def es_save_def es_restore_def Let_def)

end
