(* ===== verification/Process.thy ===== *)
theory Process
  imports Process_Queues Scheduler
begin

text \<open>
  The process system: threads that exit, the commands of a process, system calls and the creation of a
  process from a binary (\<open>kernel/src/process/mod.rs\<close>, \<open>commands.rs\<close>, \<open>spawn.rs\<close> and \<open>Thread::exit\<close> in
  \<open>thread/mod.rs\<close>). Processes and threads are shared objects: the state maps references to them. A command
  runs to its end before the next one starts. Tasks that wait for an exit are recorded in \<open>ks_tasks\<close>.
\<close>

section \<open>The state\<close>

datatype exit_source = Thread_exit thread_ref | Process_exit process_ref

text \<open>A spawned task that posts a completion to a queue when a thread or a process exits.\<close>

record exit_watch =
  ew_source :: exit_source
  ew_response_to :: nat
  ew_queue :: user_queue

record ksys =
  ks_mem :: kmem
  ks_threads :: thread_table
  ks_scheduler :: scheduler
  ks_procs :: "process_ref \<Rightarrow> process"
  ks_live :: "process_ref list"
  ks_next_tid :: "32 word"
  ks_next_pid :: "32 word"
  ks_tasks :: "exit_watch list"
  ks_woken :: "nat list"

type_synonym 'a sys_outcome = "(kernel_error \<times> ksys, 'a) outcome"

record queue_layouts =
  lys_command :: queue_layout
  lys_completion :: queue_layout

definition put_process :: "process_ref \<Rightarrow> process \<Rightarrow> kmem \<Rightarrow> ksys \<Rightarrow> ksys" where
  "put_process r pr k s = s\<lparr>ks_procs := (ks_procs s)(r := pr), ks_mem := k\<rparr>"

definition on_process ::
  "process_ref \<Rightarrow> (process \<Rightarrow> kmem \<Rightarrow> (process \<times> kmem \<times> 'a) proc_outcome) \<Rightarrow> ksys \<Rightarrow> (ksys \<times> 'a) sys_outcome" where
  "on_process r f s =
     bind_outcome (map_outcome_err (\<lambda>(e, pr, k). (e, put_process r pr k s)) (f (ks_procs s r) (ks_mem s))) (\<lambda>(pr, k, x).
     Ok (put_process r pr k s, x))"

definition process_for_id :: "nat \<Rightarrow> ksys \<Rightarrow> process_ref option" where
  "process_for_id i s = find (\<lambda>r. p_id (ks_procs s r) = i) (ks_live s)"

definition next_thread_id :: "ksys \<Rightarrow> ksys \<times> nat" where
  "next_thread_id s = (s\<lparr>ks_next_tid := ks_next_tid s + 1\<rparr>, unat (ks_next_tid s))"

definition registers_from_args :: "nat list \<Rightarrow> ('e, registers) outcome" where
  "registers_from_args args = (if length args \<le> 8 then Ok (args @ replicate (31 - length args) 0) else Panic)"

section \<open>Exit of a thread\<close>

text \<open>The memory of the thread's stack; the result tells whether the process has lost its last thread.\<close>

definition release_stack :: "thread \<Rightarrow> ksys \<Rightarrow> ('e, ksys \<times> process_ref option) outcome" where
  "release_stack th s =
     (case th_parent th of
        Some p \<Rightarrow>
          let pr = ks_procs s p;
              pr = pr\<lparr>p_threads := filter (\<lambda>r. th_id (tt_threads (ks_threads s) r) \<noteq> th_id th) (p_threads pr)\<rparr> in
          bind_outcome (free_memory (th_stack_start th) (th_stack_page_count th) pr (ks_mem s)) (\<lambda>(pr, k).
          Ok (put_process p pr k s, if p_threads pr = [] then Some p else None))
      | None \<Rightarrow>
          let k = ks_mem s in
          bind_outcome (expect_ok (unmap_range_custom (km_table k) (th_stack_start th) (th_stack_page_count th) (km_pt k)))
            (\<lambda>(m, kt, regions).
          bind_outcome (free_regions regions (k\<lparr>km_pt := m, km_table := kt\<rparr>)) (\<lambda>k.
          bind_outcome (expect_ok (va_free (th_stack_start th) (th_stack_page_count th) (km_vaa k))) (\<lambda>v.
          Ok (s\<lparr>ks_mem := k\<lparr>km_vaa := v\<rparr>\<rparr>, None)))))"

definition set_thread_exit :: "thread_ref \<Rightarrow> thread_exit \<Rightarrow> ksys \<Rightarrow> ksys" where
  "set_thread_exit t code s =
     (let tt = ks_threads s; th = tt_threads tt t; (e, woken) = exit_set code (th_exit_state th) in
      s\<lparr>ks_threads := tt\<lparr>tt_threads := (tt_threads tt)(t := th\<lparr>th_exit_state := e\<rparr>)\<rparr>, ks_woken := ks_woken s @ woken\<rparr>)"

definition set_process_exit :: "process_ref \<Rightarrow> thread_exit \<Rightarrow> ksys \<Rightarrow> ksys" where
  "set_process_exit p code s =
     (let pr = ks_procs s p; (e, woken) = exit_set code (p_exit_state pr) in
      s\<lparr>ks_procs := (ks_procs s)(p := pr\<lparr>p_exit_state := e\<rparr>), ks_woken := ks_woken s @ woken,
        ks_live := remove_first (\<lambda>r. p_id (ks_procs s r) = p_id pr) (ks_live s)\<rparr>)"

definition exit_thread :: "thread_ref \<Rightarrow> thread_exit \<Rightarrow> ksys \<Rightarrow> ('e, ksys) outcome" where
  "exit_thread t code s =
     (let tt = ks_threads s; th = tt_threads tt t in
      bind_outcome (expect_ok (remove_thread (tt_threads tt) t (ks_scheduler s))) (\<lambda>sch.
      let s = s\<lparr>ks_scheduler := sch,
                ks_threads := tt\<lparr>tt_live := remove_first (\<lambda>r. th_id (tt_threads tt r) = th_id th) (tt_live tt)\<rparr>\<rparr> in
      bind_outcome (release_stack th s) (\<lambda>(s, proc_if_last_thread).
      let s = set_thread_exit t code s in
      Ok (case proc_if_last_thread of None \<Rightarrow> s | Some p \<Rightarrow> set_process_exit p code s))))"

fun exit_threads :: "thread_ref list \<Rightarrow> thread_exit \<Rightarrow> ksys \<Rightarrow> ('e, ksys) outcome" where
  "exit_threads [] code s = Ok s"
| "exit_threads (t # ts) code s = bind_outcome (exit_thread t code s) (exit_threads ts code)"

definition on_page_fault :: "thread_ref \<Rightarrow> ksys \<Rightarrow> ('e, ksys) outcome" where
  "on_page_fault t s = exit_thread t ExitPageFault s"

definition kill_process :: "nat \<Rightarrow> ksys \<Rightarrow> ksys sys_outcome" where
  "kill_process i s =
     (case process_for_id i s of
        None \<Rightarrow> Err (KMisc (Some InvalidIdCode), s)
      | Some p \<Rightarrow> exit_threads (p_threads (ks_procs s p)) ExitKilled s)"

section \<open>Threads as commands\<close>

text \<open>\<open>t\<close> is the reference of the new thread.\<close>

definition cmd_spawn_thread ::
  "process_ref \<Rightarrow> spawn_thread_info \<Rightarrow> nat \<Rightarrow> user_queue \<Rightarrow> thread_ref \<Rightarrow> ksys \<Rightarrow> (ksys \<times> nat) sys_outcome" where
  "cmd_spawn_thread r info cmd_id recv_qu t s =
     (if st_stack_size info = 0 then Err (KMisc (Some InvalidSizeCode), s)
      else
        let stack_page_count = div_ceil (st_stack_size info) PAGE_SIZE in
        bind_outcome (map_outcome_err (\<lambda>(e, s). (KInner e, s)) (on_process r (alloc_memory stack_page_count False) s))
          (\<lambda>(s, initial_stack_pointer, _).
        case next_thread_id s of (s, tid) \<Rightarrow>
        bind_outcome (registers_from_args [st_user_data info]) (\<lambda>regs.
        bind_outcome (expect_ok (user_thread r tid (st_entry_point info) initial_stack_pointer stack_page_count PriorityNormal regs))
          (\<lambda>th.
        let tt = (ks_threads s)\<lparr>tt_threads := (tt_threads (ks_threads s))(t := th)\<rparr>;
            watch = (if st_send_completion_on_exit info
                     then [\<lparr>ew_source = Thread_exit t, ew_response_to = cmd_id, ew_queue = recv_qu\<rparr>] else []);
            pr = ks_procs s r;
            s = s\<lparr>ks_tasks := ks_tasks s @ watch, ks_procs := (ks_procs s)(r := pr\<lparr>p_threads := p_threads pr @ [t]\<rparr>)\<rparr> in
        bind_outcome (expect_ok (spawn_thread t tt (ks_scheduler s))) (\<lambda>(tt, sch).
        Ok (s\<lparr>ks_threads := tt, ks_scheduler := sch\<rparr>, tid))))))"

definition watch_thread :: "nat \<Rightarrow> ksys \<Rightarrow> exit_source sys_outcome" where
  "watch_thread tid s =
     (case thread_for_id tid (ks_threads s) of
        None \<Rightarrow> Err (KMisc (Some InvalidIdCode), s)
      | Some t \<Rightarrow> Ok (Thread_exit t))"

definition watch_process :: "nat \<Rightarrow> ksys \<Rightarrow> exit_source sys_outcome" where
  "watch_process i s =
     (case process_for_id i s of
        None \<Rightarrow> Err (KMisc (Some InvalidIdCode), s)
      | Some p \<Rightarrow> Ok (Process_exit p))"

section \<open>Loading a binary\<close>

record program_header =
  ph_type :: nat
  ph_flags :: "32 word"
  ph_offset :: nat
  ph_vaddr :: virtual_address
  ph_filesz :: nat
  ph_memsz :: nat

record elf_image =
  elf_entry :: virtual_address
  elf_segments :: "program_header list option"

text \<open>
  Code outside of this model: the file behind a path of the registry (its length and the contents of
  its first pages) and the parser for ELF binaries.
\<close>

record binary_loader =
  bl_open_file :: "string \<Rightarrow> (kernel_error, nat) outcome"
  bl_load_pages :: "string \<Rightarrow> nat \<Rightarrow> (kernel_error, 8 word list) outcome"
  bl_minimal_parse :: "8 word list \<Rightarrow> (unit, elf_image) outcome"

definition default_entry_options :: entry_options where
  "default_entry_options = \<lparr>read_only = False, el0_access = False\<rparr>"

text \<open>The copy and the zeroing of \<open>load_segment\<close>, on the buffer of \<open>len\<close> bytes at \<open>va\<close>.\<close>

definition fill_segment :: "program_header \<Rightarrow> 8 word list \<Rightarrow> nat \<Rightarrow> virtual_address \<Rightarrow> nat \<Rightarrow> kmem \<Rightarrow> kmem km_outcome" where
  "fill_segment seg src page_alignment_offset va len k =
     bind_outcome (add_checked (ph_offset seg) (ph_filesz seg)) (\<lambda>src_end.
     bind_outcome (add_checked page_alignment_offset (ph_filesz seg)) (\<lambda>dest_end.
     bind_outcome
       (if ph_offset seg < src_end
        then bind_outcome (ensure (dest_end \<le> len)) (\<lambda>_.
             bind_outcome (slice_range src (ph_offset seg) src_end) (\<lambda>data.
             store_bytes (va + page_alignment_offset) data k))
        else Ok k) (\<lambda>k.
     if ph_filesz seg < ph_memsz seg
     then bind_outcome (ensure (ph_filesz seg \<le> len)) (\<lambda>_. store_bytes (va + ph_filesz seg) (replicate (len - ph_filesz seg) 0) k)
     else Ok k)))"

type_synonym 'a image_outcome = "(kernel_error \<times> page_table \<times> kmem, 'a) outcome"

definition load_segment ::
  "program_header \<Rightarrow> 8 word list \<Rightarrow> page_table \<Rightarrow> virt_alloc \<Rightarrow> kmem \<Rightarrow> (page_table \<times> virt_alloc \<times> kmem) image_outcome" where
  "load_segment seg src pt v k =
     (let page_aligned_vaddr = ph_vaddr seg - ph_vaddr seg mod PAGE_SIZE; page_alignment_offset = ph_vaddr seg mod PAGE_SIZE in
      bind_outcome (add_checked (ph_memsz seg) page_alignment_offset) (\<lambda>bytes.
      let page_count = div_ceil bytes PAGE_SIZE in
      bind_outcome (map_outcome_err (\<lambda>(e, k). (KMemory e, pt, k)) (pb_alloc page_count default_entry_options k)) (\<lambda>(k, b).
      bind_outcome (pb_len b) (\<lambda>len.
      bind_outcome (expect_ok (fill_segment seg src page_alignment_offset (pb_vir_addr b) len k)) (\<lambda>k.
      bind_outcome (expect_ok (pb_unmap b k)) (\<lambda>(k, pa, _).
      bind_outcome (map_outcome_err (\<lambda>(e, m). (KMemory e, pt, k\<lparr>km_pt := m\<rparr>))
        (map_range pt pa page_aligned_vaddr page_count True \<lparr>read_only = \<not> bit (ph_flags seg) 1, el0_access = True\<rparr> (km_pt k)))
        (\<lambda>(m, pt).
      bind_outcome (expect_ok (reserve page_aligned_vaddr page_count v)) (\<lambda>v.
      Ok (pt, v, k\<lparr>km_pt := m\<rparr>)))))))))"

fun load_segments ::
  "program_header list \<Rightarrow> 8 word list \<Rightarrow> page_table \<Rightarrow> virt_alloc \<Rightarrow> kmem \<Rightarrow> (page_table \<times> virt_alloc \<times> kmem) image_outcome" where
  "load_segments [] src pt v k = Ok (pt, v, k)"
| "load_segments (seg # segs) src pt v k =
     (if ph_type seg \<noteq> 1 then load_segments segs src pt v k
      else bind_outcome (load_segment seg src pt v k) (\<lambda>(pt, v, k). load_segments segs src pt v k))"

definition place_parameters ::
  "(physical_buffer \<times> nat) option \<Rightarrow> page_table \<Rightarrow> virt_alloc \<Rightarrow> kmem \<Rightarrow>
   (page_table \<times> virt_alloc \<times> kmem \<times> virtual_address \<times> nat) image_outcome" where
  "place_parameters parameter_buffer pt v k =
     (case parameter_buffer of
        None \<Rightarrow> Ok (pt, v, k, 0, 0)
      | Some (buf, actual_size) \<Rightarrow>
          bind_outcome (expect_ok (pb_unmap buf k)) (\<lambda>(k, phy, page_count).
          bind_outcome (map_outcome_err (\<lambda>e. (KMemory e, pt, k)) (va_alloc page_count v)) (\<lambda>(v, addr).
          bind_outcome (map_outcome_err (\<lambda>(e, m). (KMemory e, pt, k\<lparr>km_pt := m\<rparr>))
            (map_range pt phy addr page_count True \<lparr>read_only = False, el0_access = True\<rparr> (km_pt k))) (\<lambda>(m, pt).
          Ok (pt, v, k\<lparr>km_pt := m\<rparr>, addr, actual_size)))))"

definition drop_buffer :: "physical_buffer \<Rightarrow> ksys \<Rightarrow> ('e, ksys) outcome" where
  "drop_buffer b s = bind_outcome (expect_ok (pb_drop b (ks_mem s))) (\<lambda>k. Ok (s\<lparr>ks_mem := k\<rparr>))"

definition drop_parameters :: "(physical_buffer \<times> nat) option \<Rightarrow> ksys \<Rightarrow> ('e, ksys) outcome" where
  "drop_parameters ps s = (case ps of None \<Rightarrow> Ok s | Some (b, _) \<Rightarrow> drop_buffer b s)"

definition drop_page_table :: "page_table \<Rightarrow> ksys \<Rightarrow> ('e, ksys) outcome" where
  "drop_page_table pt s =
     bind_outcome (expect_ok (pt_drop pt (km_pt (ks_mem s)))) (\<lambda>m. Ok (s\<lparr>ks_mem := (ks_mem s)\<lparr>km_pt := m\<rparr>\<rparr>))"

text \<open>DMA of the file's pages into the buffer.\<close>

definition write_ram :: "physical_address \<Rightarrow> 8 word list \<Rightarrow> kmem \<Rightarrow> kmem" where
  "write_ram pa bytes k =
     k\<lparr>km_ram := (\<lambda>a. if pa \<le> a \<and> a < pa + length bytes then bytes ! (a - pa) else km_ram k a)\<rparr>"

section \<open>Creating a process\<close>

text \<open>The buffer lives until the end of the function, whatever the result.\<close>

definition drop_after :: "physical_buffer \<Rightarrow> ('e \<times> ksys, ksys \<times> 'a) outcome \<Rightarrow> ('e \<times> ksys, ksys \<times> 'a) outcome" where
  "drop_after b r =
     (case r of
        Ok (s, x) \<Rightarrow> bind_outcome (drop_buffer b s) (\<lambda>s. Ok (s, x))
      | Err (e, s) \<Rightarrow> bind_outcome (drop_buffer b s) (\<lambda>s. Err (e, s))
      | Panic \<Rightarrow> Panic)"

text \<open>
  An error tells next to its cause whether the parameter buffer has been used up. An error while the
  page table is still a local variable drops the table.
\<close>

type_synonym 'a spawn_outcome = "((kernel_error \<times> bool) \<times> ksys, 'a) outcome"

definition image_result :: "bool \<Rightarrow> ksys \<Rightarrow> 'a image_outcome \<Rightarrow> 'a spawn_outcome" where
  "image_result used s r =
     (case r of
        Ok x \<Rightarrow> Ok x
      | Err (e, pt, k) \<Rightarrow> bind_outcome (drop_page_table pt (s\<lparr>ks_mem := k\<rparr>)) (\<lambda>s. Err ((e, used), s))
      | Panic \<Rightarrow> Panic)"

definition load_image ::
  "binary_loader \<Rightarrow> 8 word list \<Rightarrow> (physical_buffer \<times> nat) option \<Rightarrow> ksys \<Rightarrow>
   (ksys \<times> nat \<times> page_table \<times> virt_alloc \<times> virtual_address \<times> nat \<times> virtual_address) spawn_outcome" where
  "load_image ld bytes params s =
     bind_outcome (map_outcome_err (\<lambda>_. ((KOther None, False), s)) (bl_minimal_parse ld bytes)) (\<lambda>image.
     let pid = unat (ks_next_pid s); s = s\<lparr>ks_next_pid := ks_next_pid s + 1\<rparr> in
     bind_outcome (map_outcome_err (\<lambda>(e, m). ((KMemory e, False), s\<lparr>ks_mem := (ks_mem s)\<lparr>km_pt := m\<rparr>\<rparr>))
       (pt_empty False (pid mod 2 ^ 16) (km_pt (ks_mem s)))) (\<lambda>(m, pt).
     let k = (ks_mem s)\<lparr>km_pt := m\<rparr>; v = virt_alloc_new PAGE_SIZE (0x0000ffffffffffff div PAGE_SIZE) in
     bind_outcome (image_result False s
       (case elf_segments image of
          None \<Rightarrow> Err (KMisc (Some BadFormatCode), pt, k)
        | Some segments \<Rightarrow> load_segments segments bytes pt v k)) (\<lambda>(pt, v, k).
     bind_outcome (image_result True s (place_parameters params pt v k)) (\<lambda>(pt, v, k, params_addr, params_size).
     Ok (s\<lparr>ks_mem := k\<rparr>, pid, pt, v, params_addr, params_size, elf_entry image)))))"

definition process_new :: "nat \<Rightarrow> page_table \<Rightarrow> virt_alloc \<Rightarrow> process" where
  "process_new pid pt v =
     \<lparr>p_id = pid, p_threads = [], p_page_tables = pt, p_address_space_allocator = v,
      p_next_queue_id = of_nat FIRST_RECV_QUEUE_ID, p_send_queues = [], p_recv_queues = [],
      p_exit_state = exit_state_default, p_commands = Map.empty, p_completions = Map.empty\<rparr>"

definition FIRST_QUEUE_SIZE :: nat where "FIRST_QUEUE_SIZE = 64"

text \<open>\<open>p\<close> and \<open>t\<close> are the references of the new process and of its main thread; \<open>watch\<close> is what \<open>before_launch\<close> adds.\<close>

definition launch_process ::
  "queue_layouts \<Rightarrow> process_ref \<Rightarrow> thread_ref \<Rightarrow> exit_watch list \<Rightarrow> nat \<Rightarrow> page_table \<Rightarrow> virt_alloc \<Rightarrow> virtual_address \<Rightarrow> nat \<Rightarrow>
   virtual_address \<Rightarrow> ksys \<Rightarrow> (ksys \<times> process_ref) sys_outcome" where
  "launch_process lys p t watch pid pt v params_addr params_size e_entry s =
     (let s = s\<lparr>ks_procs := (ks_procs s)(p := process_new pid pt v), ks_live := p # ks_live s\<rparr> in
      bind_outcome (on_process p (create_completion_queue (lys_completion lys) FIRST_QUEUE_SIZE) s) (\<lambda>(s, recv_qu).
      bind_outcome (ensure (nq_id recv_qu = FIRST_RECV_QUEUE_ID)) (\<lambda>_.
      bind_outcome (on_process p (create_submission_queue (lys_command lys) FIRST_QUEUE_SIZE (nq_id recv_qu)) s) (\<lambda>(s, send_qu).
      bind_outcome (ensure (nq_id send_qu = FIRST_SEND_QUEUE_ID)) (\<lambda>_.
      bind_outcome (on_process p (alloc_memory 512 False) s) (\<lambda>(s, stack_vaddr, _).
      case next_thread_id s of (s, tid) \<Rightarrow>
      bind_outcome (registers_from_args
        [nq_start send_qu, FIRST_QUEUE_SIZE, nq_start recv_qu, FIRST_QUEUE_SIZE, params_addr, params_size]) (\<lambda>regs.
      bind_outcome (expect_ok (user_thread p tid e_entry stack_vaddr 512 PriorityNormal regs)) (\<lambda>th.
      let tt = ks_threads s; tt = tt\<lparr>tt_threads := (tt_threads tt)(t := th), tt_live := t # tt_live tt\<rparr>;
          pr = ks_procs s p;
          s = s\<lparr>ks_procs := (ks_procs s)(p := pr\<lparr>p_threads := p_threads pr @ [t]\<rparr>), ks_threads := tt,
                ks_tasks := ks_tasks s @ watch\<rparr> in
      bind_outcome (expect_ok (add_thread (tt_threads tt) t (ks_scheduler s))) (\<lambda>sch.
      Ok (s\<lparr>ks_scheduler := sch\<rparr>, p))))))))))"

definition spawn_process ::
  "queue_layouts \<Rightarrow> binary_loader \<Rightarrow> string \<Rightarrow> (physical_buffer \<times> nat) option \<Rightarrow> exit_watch list \<Rightarrow> process_ref \<Rightarrow> thread_ref \<Rightarrow>
   ksys \<Rightarrow> (ksys \<times> process_ref) sys_outcome" where
  "spawn_process lys ld path params watch p t s =
     (case
        bind_outcome (map_outcome_err (\<lambda>e. ((e, False), s)) (bl_open_file ld path)) (\<lambda>f_len.
        bind_outcome (map_outcome_err (\<lambda>(e, k). ((KMemory e, False), s\<lparr>ks_mem := k\<rparr>))
          (pb_alloc (div_ceil f_len PAGE_SIZE) default_entry_options (ks_mem s))) (\<lambda>(k, src_data).
        let s = s\<lparr>ks_mem := k\<rparr> in
        drop_after src_data
          (bind_outcome (map_outcome_err (\<lambda>e. ((e, False), s)) (bl_load_pages ld path (pb_page_count src_data))) (\<lambda>bytes.
           let s = s\<lparr>ks_mem := write_ram (pb_phy_addr src_data) bytes k\<rparr> in
           bind_outcome (load_image ld bytes params s) (\<lambda>(s, pid, pt, v, params_addr, params_size, e_entry).
           map_outcome_err (\<lambda>(e, s). ((e, True), s))
             (launch_process lys p t watch pid pt v params_addr params_size e_entry s))))))
      of
        Ok r \<Rightarrow> Ok r
      | Panic \<Rightarrow> Panic
      | Err ((e, used), s) \<Rightarrow>
          if used then Err (e, s) else bind_outcome (drop_parameters params s) (\<lambda>s. Err (e, s)))"

text \<open>\<open>spawn_child\<close> after the path and the parameters have been copied out of the sender's memory.\<close>

definition spawn_child ::
  "queue_layouts \<Rightarrow> binary_loader \<Rightarrow> string \<Rightarrow> 8 word list \<Rightarrow> bool \<Rightarrow> nat \<Rightarrow> user_queue \<Rightarrow> process_ref \<Rightarrow> thread_ref \<Rightarrow>
   ksys \<Rightarrow> (ksys \<times> nat) sys_outcome" where
  "spawn_child lys ld path parameters send_completion cmd_id recv_qu p t s =
     bind_outcome
       (if parameters = [] then Ok (s, None)
        else
          bind_outcome (map_outcome_err (\<lambda>(e, k). (KMemory e, s\<lparr>ks_mem := k\<rparr>))
            (pb_alloc_zeroed (div_ceil (length parameters) PAGE_SIZE) \<lparr>read_only = False, el0_access = True\<rparr> (ks_mem s)))
            (\<lambda>(k, buf).
          bind_outcome (expect_ok (store_bytes (pb_vir_addr buf) parameters k)) (\<lambda>k.
          Ok (s\<lparr>ks_mem := k\<rparr>, Some (buf, length parameters))))) (\<lambda>(s, params_buf).
     bind_outcome (spawn_process lys ld path params_buf
       (if send_completion then [\<lparr>ew_source = Process_exit p, ew_response_to = cmd_id, ew_queue = recv_qu\<rparr>] else []) p t s)
       (\<lambda>(s, p). Ok (s, p_id (ks_procs s p))))"

section \<open>Dispatch of commands\<close>

text \<open>The answer to a command: a completion now, or when a thread or a process has exited.\<close>

datatype reply = Reply completion_kind | Await exit_source

definition handle_command ::
  "queue_layouts \<Rightarrow> binary_loader \<Rightarrow> process_ref \<Rightarrow> command \<Rightarrow> user_queue \<Rightarrow> process_ref \<Rightarrow> thread_ref \<Rightarrow> ksys \<Rightarrow> (ksys \<times> reply) sys_outcome" where
  "handle_command lys ld r cmd recv_qu p t s =
     (case cm_kind cmd of
        CmdTest arg \<Rightarrow> Ok (s, Reply (CplTest (p_id (ks_procs s r)) arg))
      | CmdCreateCompletionQueue n \<Rightarrow>
          bind_outcome (on_process r (create_completion_queue (lys_completion lys) n) s) (\<lambda>(s, nq). Ok (s, Reply (CplNewQueue nq)))
      | CmdCreateSubmissionQueue n i \<Rightarrow>
          bind_outcome (on_process r (create_submission_queue (lys_command lys) n i) s) (\<lambda>(s, nq). Ok (s, Reply (CplNewQueue nq)))
      | CmdDestroyQueue i \<Rightarrow>
          bind_outcome (on_process r (\<lambda>pr k.
            bind_outcome (destroy_queue (lys_command lys) (lys_completion lys) i pr k) (\<lambda>(pr, k). Ok (pr, k, ()))) s)
            (\<lambda>(s, _). Ok (s, Reply CplSuccess))
      | CmdSpawnThread info \<Rightarrow>
          bind_outcome (cmd_spawn_thread r info (cm_id cmd) recv_qu t s) (\<lambda>(s, tid). Ok (s, Reply (CplNewThread tid)))
      | CmdWatchThread tid \<Rightarrow> bind_outcome (watch_thread tid s) (\<lambda>w. Ok (s, Await w))
      | CmdSpawnProcess path parameters send_completion \<Rightarrow>
          bind_outcome (spawn_child lys ld path parameters send_completion (cm_id cmd) recv_qu p t s) (\<lambda>(s, pid).
          Ok (s, Reply (CplNewProcess pid)))
      | CmdWatchProcess i \<Rightarrow> bind_outcome (watch_process i s) (\<lambda>w. Ok (s, Await w))
      | CmdKillProcess i \<Rightarrow> bind_outcome (kill_process i s) (\<lambda>s. Ok (s, Reply CplSuccess))
      | CmdInvalid \<Rightarrow> Err (KMisc (Some UnknownCommandCode), s))"

datatype dispatched = Completed message | Waiting_for exit_source nat

definition dispatch_command ::
  "queue_layouts \<Rightarrow> binary_loader \<Rightarrow> process_ref \<Rightarrow> command \<Rightarrow> user_queue \<Rightarrow> process_ref \<Rightarrow> thread_ref \<Rightarrow> ksys \<Rightarrow>
   (unit, ksys \<times> dispatched) outcome" where
  "dispatch_command lys ld r cmd recv_qu p t s =
     (case handle_command lys ld r cmd recv_qu p t s of
        Ok (s, Reply kind) \<Rightarrow> Ok (s, Completed \<lparr>response_to_id = cm_id cmd, cpl_kind = kind\<rparr>)
      | Ok (s, Await w) \<Rightarrow> Ok (s, Waiting_for w (cm_id cmd))
      | Err (e, s) \<Rightarrow>
          bind_outcome (as_code e) (\<lambda>code. Ok (s, Completed \<lparr>response_to_id = cm_id cmd, cpl_kind = CplErr code\<rparr>))
      | Panic \<Rightarrow> Panic)"

text \<open>The commands waiting in a submission queue; the tasks that \<open>dispatch_new_commands\<close> spawns for them, in order.\<close>

partial_function (option) drain_queue :: "queue_handle \<Rightarrow> command queue_mem \<Rightarrow> (command queue_mem \<times> command list) option" where
  "drain_queue h m =
     (case poll_result h m of
        None \<Rightarrow> None
      | Some (m', None) \<Rightarrow> Some (m', [])
      | Some (m', Some c) \<Rightarrow> Option.bind (drain_queue h m') (\<lambda>(m'', cs). Some (m'', c # cs)))"

fun drain_queues :: "(user_queue \<times> user_queue) list \<Rightarrow> process \<Rightarrow> (process \<times> (command \<times> user_queue) list) option" where
  "drain_queues [] pr = Some (pr, [])"
| "drain_queues ((send_qu, assoc_recv_qu) # qs) pr =
     (case p_commands pr (uq_root_address send_qu) of
        None \<Rightarrow> None
      | Some m \<Rightarrow>
          (case drain_queue (uq_queue send_qu) m of
             None \<Rightarrow> None
           | Some (m', cs) \<Rightarrow>
               (case drain_queues qs (pr\<lparr>p_commands := (p_commands pr)(uq_root_address send_qu \<mapsto> m')\<rparr>) of
                  None \<Rightarrow> None
                | Some (pr', ts) \<Rightarrow> Some (pr', map (\<lambda>c. (c, assoc_recv_qu)) cs @ ts))))"

definition dispatch_new_commands :: "process_ref \<Rightarrow> ksys \<Rightarrow> (ksys \<times> (command \<times> user_queue) list) option" where
  "dispatch_new_commands r s =
     map_option (\<lambda>(pr, ts). (s\<lparr>ks_procs := (ks_procs s)(r := pr)\<rparr>, ts)) (drain_queues (p_send_queues (ks_procs s r)) (ks_procs s r))"

text \<open>The completion of such a task is posted if its queue still exists; a full queue is \<open>todo!()\<close>.\<close>

definition post_completion :: "process_ref \<Rightarrow> user_queue \<Rightarrow> message \<Rightarrow> ksys \<Rightarrow> (unit, ksys) outcome option" where
  "post_completion r arq cmpl s =
     (let pr = ks_procs s r in
      if arq \<in> set (p_recv_queues pr) \<union> snd ` set (p_send_queues pr) then
        (case p_completions pr (uq_root_address arq) of
           None \<Rightarrow> Some Panic
         | Some m \<Rightarrow>
             (case post_result (uq_queue arq) cmpl m of
                None \<Rightarrow> None
              | Some (m', False) \<Rightarrow> Some Panic
              | Some (m', True) \<Rightarrow>
                  Some (Ok (s\<lparr>ks_procs := (ks_procs s)(r := pr\<lparr>p_completions := (p_completions pr)(uq_root_address arq \<mapsto> m')\<rparr>)\<rparr>))))
      else Some (Ok s))"

section \<open>System calls\<close>

datatype system_call_number = SysExit | SysGetCurrentProcessId | SysGetCurrentThreadId | SysYield | SysWaitForMessage | SysHeapAllocate | SysHeapFree

text \<open>The state after the call and the values written through the pointers in the registers.\<close>

definition system_call :: "system_call_number \<Rightarrow> process_ref \<Rightarrow> thread_ref \<Rightarrow> registers \<Rightarrow> ksys \<Rightarrow> (unit, ksys \<times> (nat \<times> nat) list) outcome" where
  "system_call n r t regs s =
     (case n of
        SysExit \<Rightarrow> bind_outcome (exit_thread t (ExitNormal (regs ! 0 mod 2 ^ 16)) s) (\<lambda>s. Ok (s, []))
      | SysGetCurrentProcessId \<Rightarrow> Ok (s, [(regs ! 0, p_id (ks_procs s r))])
      | SysGetCurrentThreadId \<Rightarrow> Ok (s, [(regs ! 0, th_id (tt_threads (ks_threads s) t))])
      | SysYield \<Rightarrow>
          bind_outcome (schedule_next_thread (tt_threads (ks_threads s)) (ks_scheduler s)) (\<lambda>sch. Ok (s\<lparr>ks_scheduler := sch\<rparr>, []))
      | SysWaitForMessage \<Rightarrow> Panic
      | SysHeapAllocate \<Rightarrow>
          let page_count = div_ceil (regs ! 0) PAGE_SIZE in
          (case on_process r (alloc_memory page_count False) s of
             Ok (s, addr, _) \<Rightarrow>
               bind_outcome (mul_checked page_count PAGE_SIZE) (\<lambda>bytes. Ok (s, [(regs ! 1, addr), (regs ! 2, bytes)]))
           | Err (e, s) \<Rightarrow> Ok (s, [(regs ! 1, 0), (regs ! 2, 0)])
           | Panic \<Rightarrow> Panic)
      | SysHeapFree \<Rightarrow>
          bind_outcome (free_memory (regs ! 0) (div_ceil (regs ! 1) PAGE_SIZE) (ks_procs s r) (ks_mem s)) (\<lambda>(pr, k).
          Ok (put_process r pr k s, [])))"

section \<open>The tables of all processes stay well-formed\<close>

text \<open>
  \<open>known\<close> are references of processes that still exist although they may have left the table. A step
  is quiet when it neither touches a table of queues nor adds a process.
\<close>

definition tables_ok :: "process_ref set \<Rightarrow> ksys \<Rightarrow> bool" where
  "tables_ok known s \<longleftrightarrow> (\<forall>r\<in>known \<union> set (ks_live s). queues_ok (ks_procs s r))"

definition quiet :: "ksys \<Rightarrow> ksys \<Rightarrow> bool" where
  "quiet s s' \<longleftrightarrow> (\<forall>r. same_queues (ks_procs s r) (ks_procs s' r)) \<and> set (ks_live s') \<subseteq> set (ks_live s)"

lemma quiet_refl [simp]: "quiet s s"
  by (simp add: quiet_def)

lemma quiet_trans: "quiet s s' \<Longrightarrow> quiet s' s'' \<Longrightarrow> quiet s s''"
  unfolding quiet_def by (blast intro: same_queues_trans)

lemma quiet_upd [simp]:
  "quiet s (s'\<lparr>ks_mem := k\<rparr>) = quiet s s'" "quiet s (s'\<lparr>ks_threads := tt\<rparr>) = quiet s s'"
  "quiet s (s'\<lparr>ks_scheduler := sch\<rparr>) = quiet s s'" "quiet s (s'\<lparr>ks_next_tid := n\<rparr>) = quiet s s'"
  "quiet s (s'\<lparr>ks_next_pid := n\<rparr>) = quiet s s'" "quiet s (s'\<lparr>ks_tasks := ts\<rparr>) = quiet s s'"
  "quiet s (s'\<lparr>ks_woken := w\<rparr>) = quiet s s'"
  by (simp_all add: quiet_def)

lemma quiet_process: "same_queues (ks_procs s r) pr \<Longrightarrow> quiet s (s\<lparr>ks_procs := (ks_procs s)(r := pr)\<rparr>)"
  by (simp add: quiet_def)

lemma tables_ok_quiet: "tables_ok known s \<Longrightarrow> quiet s s' \<Longrightarrow> tables_ok known s'"
  unfolding tables_ok_def quiet_def using queues_ok_same by blast

lemma release_stack_quiet:
  assumes "release_stack th s = (Ok (s', l) :: ('e, _) outcome)"
  shows "quiet s s'"
proof (cases "th_parent th")
  case (Some p)
  then obtain ts pr k where f: "free_memory (th_stack_start th) (th_stack_page_count th) (ks_procs s p\<lparr>p_threads := ts\<rparr>) (ks_mem s) = (Ok (pr, k) :: ('e, _) outcome)"
    and s': "s' = put_process p pr k s"
    using assms by (auto simp: release_stack_def Let_def outcome_simps)
  have "same_queues (ks_procs s p) pr" using free_memory_same [OF f] by (simp add: same_queues_def)
  then show ?thesis using quiet_process by (simp add: s' put_process_def)
qed (use assms in \<open>auto simp: release_stack_def Let_def outcome_simps\<close>)

lemma exit_thread_quiet:
  assumes "exit_thread t code s = (Ok s' :: ('e, _) outcome)"
  shows "quiet s s'"
proof -
  let ?tt = "ks_threads s"
  let ?s1 = "\<lambda>sch. s\<lparr>ks_scheduler := sch,
    ks_threads := ?tt\<lparr>tt_live := remove_first (\<lambda>r. th_id (tt_threads ?tt r) = th_id (tt_threads ?tt t)) (tt_live ?tt)\<rparr>\<rparr>"
  obtain sch s2 p where s1: "release_stack (tt_threads ?tt t) (?s1 sch) = (Ok (s2, p) :: ('e, _) outcome)"
    and s': "s' = (case p of None \<Rightarrow> set_thread_exit t code s2 | Some p \<Rightarrow> set_process_exit p code (set_thread_exit t code s2))"
    using assms by (auto simp: exit_thread_def Let_def outcome_simps simp del: split_paired_Ex split_paired_All)
  have q1: "quiet s (?s1 sch)" by simp
  have t: "quiet u (set_thread_exit t code u)" for u by (simp add: set_thread_exit_def Let_def split: prod.split)
  have "quiet u (set_process_exit q code u)" for u q
    by (auto simp: set_process_exit_def Let_def quiet_def same_queues_def split: prod.split dest: subsetD [OF remove_first_set(1)])
  then have "quiet s2 s'" using t quiet_trans [OF t] by (auto simp: s' split: option.split)
  then show ?thesis using quiet_trans [OF q1 release_stack_quiet [OF s1]] quiet_trans by blast
qed

lemma exit_threads_quiet: "exit_threads ts code s = Ok s' \<Longrightarrow> quiet s s'"
  by (induction ts arbitrary: s) (auto simp: outcome_simps dest: exit_thread_quiet intro: quiet_trans)

lemma exit_thread_not_Err: "exit_thread t code s \<noteq> Err e"
proof -
  have regions: "free_regions rs k \<noteq> Err e" for rs k by (induction rs arbitrary: k) (auto simp: outcome_simps)
  have "release_stack th u \<noteq> Err e" for th u
    by (auto simp: release_stack_def Let_def outcome_simps free_memory_not_Err regions split: option.splits)
  then show ?thesis by (auto simp: exit_thread_def Let_def outcome_simps)
qed

lemma exit_threads_not_Err: "exit_threads ts code s \<noteq> Err e"
  by (induction ts arbitrary: s) (auto simp: outcome_simps exit_thread_not_Err)

text \<open>A condition on the state an operation leaves, whether it succeeds or fails.\<close>

definition leaves :: "(ksys \<Rightarrow> bool) \<Rightarrow> ('e \<times> ksys, ksys \<times> 'a) outcome \<Rightarrow> bool" where
  "leaves Q r \<longleftrightarrow> (\<forall>s x. r = Ok (s, x) \<longrightarrow> Q s) \<and> (\<forall>e s. r = Err (e, s) \<longrightarrow> Q s)"

lemma leaves_simps [simp]:
  "leaves Q (Ok (s, x)) = Q s" "leaves Q (Err (e, s)) = Q s" "leaves Q Panic"
  by (simp_all add: leaves_def)

lemma leaves_bind: "leaves Q r \<Longrightarrow> (\<And>s x. r = Ok (s, x) \<Longrightarrow> Q s \<Longrightarrow> leaves R (c (s, x))) \<Longrightarrow> (\<And>s. Q s \<Longrightarrow> R s) \<Longrightarrow> leaves R (bind_outcome r c)"
  by (cases r) (auto simp: leaves_def)

lemma leaves_mono: "leaves P r \<Longrightarrow> (\<And>s. P s \<Longrightarrow> Q s) \<Longrightarrow> leaves Q r"
  by (auto simp: leaves_def)

lemma leaves_map_err: "leaves Q (map_outcome_err (\<lambda>(e, s). (h e, s)) r) = leaves Q r"
  by (cases r) (auto simp: leaves_def)

lemma leaves_pure: "(\<And>e. r \<noteq> Err e) \<Longrightarrow> (\<And>x. leaves Q (c x)) \<Longrightarrow> leaves Q (bind_outcome r c)"
  by (cases r) (auto simp: leaves_def)

lemma leaves_state_err:
  "(\<And>e. Q (snd (h e))) \<Longrightarrow> (\<And>x. r = Ok x \<Longrightarrow> leaves Q (c x)) \<Longrightarrow> leaves Q (bind_outcome (map_outcome_err h r) c)"
  by (cases r) (auto simp: leaves_def, metis snd_conv)

lemma on_process_leaves:
  assumes "tables_ok known s" "r \<in> known \<union> set (ks_live s)"
    "\<And>pr' k' x. f (ks_procs s r) (ks_mem s) = Ok (pr', k', x) \<Longrightarrow> queues_ok pr'"
    "\<And>e pr' k'. f (ks_procs s r) (ks_mem s) = Err (e, pr', k') \<Longrightarrow> queues_ok pr'"
  shows "leaves (\<lambda>s'. tables_ok known s' \<and> ks_live s' = ks_live s) (on_process r f s)"
proof -
  have "tables_ok known (put_process r pr k s)" "ks_live (put_process r pr k s) = ks_live s" if "queues_ok pr" for pr k
    using that assms(1) by (auto simp: tables_ok_def put_process_def)
  then show ?thesis using assms(3,4)
    by (cases "f (ks_procs s r) (ks_mem s)") (auto simp: on_process_def)
qed

lemma tables_okD: "tables_ok known s \<Longrightarrow> r \<in> known \<union> set (ks_live s) \<Longrightarrow> queues_ok (ks_procs s r)"
  by (simp add: tables_ok_def)

lemma alloc_memory_leaves:
  assumes "tables_ok known s" "r \<in> known \<union> set (ks_live s)"
  shows "leaves (\<lambda>s'. tables_ok known s' \<and> ks_live s' = ks_live s) (on_process r (alloc_memory n share) s)"
proof (rule on_process_leaves [OF assms])
  note k = alloc_memory_keeps [of "ks_procs s r" n share "ks_mem s", unfolded keeps_def]
  show "queues_ok pr'" if "alloc_memory n share (ks_procs s r) (ks_mem s) = Ok (pr', k', x)" for pr' k' x
    using k that queues_ok_same tables_okD [OF assms] by fastforce
  show "queues_ok pr'" if "alloc_memory n share (ks_procs s r) (ks_mem s) = Err (e, pr', k')" for e pr' k'
    using k that queues_ok_same tables_okD [OF assms] by fastforce
qed

lemma create_leaves:
  assumes "tables_ok known s" "r \<in> known \<union> set (ks_live s)"
  shows "leaves (\<lambda>s'. tables_ok known s' \<and> ks_live s' = ks_live s) (on_process r (create_completion_queue ly n) s)"
    "leaves (\<lambda>s'. tables_ok known s' \<and> ks_live s' = ks_live s) (on_process r (create_submission_queue ly n i) s)"
proof -
  note ok = tables_okD [OF assms]
  show "leaves (\<lambda>s'. tables_ok known s' \<and> ks_live s' = ks_live s) (on_process r (create_completion_queue ly n) s)"
    by (rule on_process_leaves [OF assms]) (use create_completion_queue_ok [OF ok] in blast)+
  show "leaves (\<lambda>s'. tables_ok known s' \<and> ks_live s' = ks_live s) (on_process r (create_submission_queue ly n i) s)"
    by (rule on_process_leaves [OF assms]) (use create_submission_queue_ok [OF ok] in blast)+
qed

lemma destroy_leaves:
  assumes "tables_ok known s" "r \<in> known \<union> set (ks_live s)"
  shows "leaves (\<lambda>s'. tables_ok known s' \<and> ks_live s' = ks_live s)
    (on_process r (\<lambda>pr k. bind_outcome (destroy_queue cly ply i pr k) (\<lambda>(pr, k). Ok (pr, k, ()))) s)"
  by (rule on_process_leaves [OF assms])
    (use destroy_queue_ok [OF tables_okD [OF assms]] in \<open>auto simp: outcome_simps\<close>)

lemma from_args_not_Err [simp]: "registers_from_args xs \<noteq> Err e"
  by (simp add: registers_from_args_def)

lemma cmd_spawn_thread_leaves:
  assumes "tables_ok known s" "r \<in> known \<union> set (ks_live s)"
  shows "leaves (tables_ok known) (cmd_spawn_thread r info c rq t s)"
proof -
  let ?a = "on_process r (alloc_memory (div_ceil (st_stack_size info) PAGE_SIZE) False) s"
  note L = alloc_memory_leaves [OF assms, of "div_ceil (st_stack_size info) PAGE_SIZE" False]
  show ?thesis
  proof (cases ?a)
    case (Ok x)
    then obtain s1 a b where x: "?a = Ok (s1, a, b)" by (cases x) auto
    then have "tables_ok known s1" using L by simp
    then have q: "quiet s1 s' \<Longrightarrow> tables_ok known s'" for s' by (rule tables_ok_quiet)
    show ?thesis using assms(1)
      by (auto simp: cmd_spawn_thread_def Let_def x leaves_def outcome_simps next_thread_id_def intro!: q)
        (simp_all add: quiet_def)
  next
    case (Err e)
    then show ?thesis using L assms(1) by (cases e) (auto simp: cmd_spawn_thread_def Let_def)
  next
    case Panic
    then show ?thesis using assms(1) by (auto simp: cmd_spawn_thread_def Let_def)
  qed
qed

lemma drop_quiet:
  "drop_buffer b s = Ok s' \<Longrightarrow> quiet s s'" "drop_page_table pt s = Ok s' \<Longrightarrow> quiet s s'" "drop_parameters ps s = Ok s' \<Longrightarrow> quiet s s'"
  "drop_buffer b s \<noteq> Err e" "drop_page_table pt s \<noteq> Err e" "drop_parameters ps s \<noteq> Err e"
  by (auto simp: drop_buffer_def drop_page_table_def drop_parameters_def outcome_simps split: option.splits prod.splits)

lemma drop_after_leaves:
  assumes "leaves (tables_ok known) r"
  shows "leaves (tables_ok known) (drop_after b r)"
  using assms
  by (cases r) (auto simp: drop_after_def leaves_def outcome_simps drop_quiet(4) dest!: drop_quiet(1) intro: tables_ok_quiet)

lemma image_result_Err: "image_result used s r = Err (e, s') \<Longrightarrow> quiet s s'"
  by (auto simp: image_result_def outcome_simps drop_quiet(5) split: outcome.splits dest!: drop_quiet(2)) (simp add: quiet_def)

lemma load_image_quiet: "leaves (quiet s) (load_image ld bytes params s)"
  by (auto simp: leaves_def load_image_def Let_def outcome_simps dest!: image_result_Err) (simp_all add: quiet_def)

lemma process_new_ok: "queues_ok (process_new pid pt v)"
  by (simp add: queues_ok_def queue_ids_def process_new_def)

lemma ensure_not_Err [simp]: "ensure b \<noteq> Err e"
  by (simp add: ensure_def)

lemma launch_process_leaves:
  assumes "tables_ok known s"
  shows "leaves (tables_ok known) (launch_process lys p t watch pid pt v pa ps entry s)"
proof -
  let ?Q = "\<lambda>s'. tables_ok known s' \<and> p \<in> set (ks_live s')"
  define s0 where "s0 = s\<lparr>ks_procs := (ks_procs s)(p := process_new pid pt v), ks_live := p # ks_live s\<rparr>"
  have s0: "?Q s0" using assms process_new_ok by (auto simp: tables_ok_def s0_def)
  have Q1: "leaves ?Q (on_process p (create_completion_queue ly n) u)" if "?Q u" for ly n u
    by (rule leaves_mono [OF create_leaves(1) [of known u p]]) (use that in auto)
  have Q2: "leaves ?Q (on_process p (create_submission_queue ly n i) u)" if "?Q u" for ly n i u
    by (rule leaves_mono [OF create_leaves(2) [of known u p]]) (use that in auto)
  have Q3: "leaves ?Q (on_process p (alloc_memory n share) u)" if "?Q u" for n u share
    by (rule leaves_mono [OF alloc_memory_leaves [of known u p]]) (use that in auto)
  have tail: "tables_ok known u \<Longrightarrow> tables_ok known (u\<lparr>ks_next_tid := n, ks_procs := (ks_procs u)(p := ks_procs u p\<lparr>p_threads := xs\<rparr>),
      ks_threads := tt, ks_tasks := ts, ks_scheduler := sch\<rparr>)" for u ts xs n tt sch
    by (erule tables_ok_quiet) (simp add: quiet_def)
  show ?thesis
    unfolding launch_process_def Let_def s0_def [symmetric]
    apply (rule leaves_bind [where Q = ?Q, OF Q1 [OF s0]])
     apply (unfold prod.case)
     apply (rule leaves_pure, simp)
     apply (rule leaves_bind [where Q = ?Q], erule Q2)
      apply (unfold prod.case)
      apply (rule leaves_pure, simp)
      apply (rule leaves_bind [where Q = ?Q], erule Q3)
       apply (unfold next_thread_id_def prod.case)
    subgoal for s1 nq1 u1 s2 nq2 u2 s3 x
      by (cases x) (auto simp: leaves_def outcome_simps tail)
      apply blast+
    done
qed

lemma spawn_process_leaves:
  assumes "tables_ok known s"
  shows "leaves (tables_ok known) (spawn_process lys ld path params watch p t s)"
proof -
  have drop: "leaves (tables_ok known) (bind_outcome (drop_parameters params u) (\<lambda>s. Err (e, s)))" if "tables_ok known u" for u and e :: kernel_error
    using that by (auto simp: leaves_def outcome_simps drop_quiet(6) dest!: drop_quiet(3) intro: tables_ok_quiet)
  have last: "leaves (tables_ok known) (case r of Ok x \<Rightarrow> Ok x | Panic \<Rightarrow> Panic
      | Err ((e, used), s) \<Rightarrow> if used then Err (e, s) else bind_outcome (drop_parameters params s) (\<lambda>s. Err (e, s)))"
    if "leaves (tables_ok known) r" for r :: "((kernel_error \<times> bool) \<times> ksys, ksys \<times> process_ref) outcome"
    using that drop by (cases r) (auto split: prod.split)
  have mem: "tables_ok known (s\<lparr>ks_mem := k\<rparr>)" for k by (rule tables_ok_quiet [OF assms]) simp
  have image: "leaves (tables_ok known) (load_image ld bytes params (s\<lparr>ks_mem := k\<rparr>))" for bytes k
    using load_image_quiet [of "s\<lparr>ks_mem := k\<rparr>" ld bytes params] tables_ok_quiet [OF mem] unfolding leaves_def by blast
  show ?thesis
    unfolding spawn_process_def Let_def
    apply (rule last)
    apply (rule leaves_state_err, use assms in simp)
    apply (rule leaves_state_err, simp add: mem split: prod.split)
    apply (clarsimp split: prod.split, rule drop_after_leaves)
    apply (rule leaves_state_err, simp add: mem)
    apply (rule leaves_bind [OF image], clarsimp simp: leaves_map_err launch_process_leaves)
    apply assumption
    done
qed

lemma spawn_child_leaves:
  assumes "tables_ok known s"
  shows "leaves (tables_ok known) (spawn_child lys ld path ps w c rq p t s)"
proof -
  have mem: "tables_ok known (s\<lparr>ks_mem := k\<rparr>)" for k by (rule tables_ok_quiet [OF assms]) simp
  have buf: "leaves (tables_ok known) (if ps = [] then Ok (s, None)
      else bind_outcome (map_outcome_err (\<lambda>(e, k). (KMemory e, s\<lparr>ks_mem := k\<rparr>)) r)
        (\<lambda>(k, buf). bind_outcome (expect_ok (store_bytes (pb_vir_addr buf) ps k)) (\<lambda>k. Ok (s\<lparr>ks_mem := k\<rparr>, Some (buf, length ps)))))" for r
    using assms mem by (cases r) (auto simp: leaves_def outcome_simps split: prod.splits)
  show ?thesis unfolding spawn_child_def
    by (rule leaves_bind [OF buf], unfold prod.case, rule leaves_bind [OF spawn_process_leaves]) auto
qed

lemma kill_process_leaves: "tables_ok known s \<Longrightarrow> leaves (tables_ok known) (bind_outcome (kill_process i s) (\<lambda>s. Ok (s, x)))"
  by (auto simp: leaves_def kill_process_def outcome_simps exit_threads_not_Err split: option.splits
      dest!: exit_threads_quiet intro: tables_ok_quiet)

lemma handle_command_leaves:
  assumes "tables_ok known s" "r \<in> known \<union> set (ks_live s)"
  shows "leaves (tables_ok known) (handle_command lys ld r cmd rq p t s)"
proof (cases "cm_kind cmd")
  case (CmdCreateCompletionQueue n)
  show ?thesis unfolding handle_command_def CmdCreateCompletionQueue command_kind.case
    by (rule leaves_bind [OF create_leaves(1) [OF assms]]) auto
next
  case (CmdCreateSubmissionQueue n i)
  show ?thesis unfolding handle_command_def CmdCreateSubmissionQueue command_kind.case
    by (rule leaves_bind [OF create_leaves(2) [OF assms]]) auto
next
  case (CmdDestroyQueue i)
  show ?thesis unfolding handle_command_def CmdDestroyQueue command_kind.case
    by (rule leaves_bind [OF destroy_leaves [OF assms]]) auto
next
  case (CmdSpawnThread info)
  show ?thesis unfolding handle_command_def CmdSpawnThread command_kind.case
    by (rule leaves_bind [OF cmd_spawn_thread_leaves [OF assms]]) auto
next
  case (CmdSpawnProcess a b c)
  show ?thesis unfolding handle_command_def CmdSpawnProcess command_kind.case
    by (rule leaves_bind [OF spawn_child_leaves [OF assms(1)]]) auto
next
  case (CmdKillProcess i)
  show ?thesis unfolding handle_command_def CmdKillProcess command_kind.case by (rule kill_process_leaves [OF assms(1)])
qed (use assms(1) in \<open>auto simp: handle_command_def watch_thread_def watch_process_def split: option.splits\<close>)

lemma dispatch_command_ok:
  assumes "tables_ok known s" "r \<in> known \<union> set (ks_live s)" "dispatch_command lys ld r cmd rq p t s = Ok (s', d)"
  shows "tables_ok known s'"
  using handle_command_leaves [OF assms(1,2), of lys ld cmd rq p t] assms(3)
  by (auto simp: dispatch_command_def leaves_def outcome_simps split: outcome.splits reply.splits)

lemma drain_queues_same: "drain_queues qs pr = Some (pr', ts) \<Longrightarrow> same_queues pr pr'"
  by (induction qs arbitrary: pr ts) (fastforce split: option.splits simp: same_queues_def)+

lemma system_call_ok:
  assumes "tables_ok known s" "r \<in> known \<union> set (ks_live s)" "system_call n r t regs s = Ok (s', ws)"
  shows "tables_ok known s'"
proof -
  have free: "same_queues (ks_procs s r) pr \<Longrightarrow> quiet s (put_process r pr k s)" for pr k
    using quiet_process by (simp add: put_process_def)
  note L = alloc_memory_leaves [OF assms(1,2), of "div_ceil (regs ! 0) PAGE_SIZE" False, unfolded leaves_def]
  show ?thesis
  proof (cases n)
    case SysHeapAllocate
    then show ?thesis using L assms(3)
      by (cases "on_process r (alloc_memory (div_ceil (regs ! 0) PAGE_SIZE) False) s")
        (auto simp: system_call_def Let_def outcome_simps)
  next
    case SysHeapFree
    then show ?thesis using assms(3)
      by (auto simp: system_call_def outcome_simps dest!: free_memory_same intro!: tables_ok_quiet [OF assms(1)] free)
  next
    case SysExit
    then show ?thesis using assms(3)
      by (auto simp: system_call_def outcome_simps dest!: exit_thread_quiet intro: tables_ok_quiet [OF assms(1)])
  qed (use assms(1,3) in \<open>auto simp: system_call_def outcome_simps intro: tables_ok_quiet [OF assms(1)]\<close>)
qed

section \<open>Reachable states\<close>

text \<open>From freshly created processes on, everything that changes the tables, in any order.\<close>

inductive sys_reach :: "queue_layouts \<Rightarrow> binary_loader \<Rightarrow> ksys \<Rightarrow> process_ref set \<Rightarrow> bool" for lys ld where
  start: "(\<And>r. r \<in> set (ks_live s) \<Longrightarrow> \<exists>pid pt v. ks_procs s r = process_new pid pt v) \<Longrightarrow> sys_reach lys ld s {}"
| dispatch: "sys_reach lys ld s known \<Longrightarrow> r \<in> known \<union> set (ks_live s) \<Longrightarrow> dispatch_command lys ld r cmd rq p t s = Ok (s', d) \<Longrightarrow>
    sys_reach lys ld s' (known \<union> set (ks_live s))"
| spawn: "sys_reach lys ld s known \<Longrightarrow> spawn_process lys ld path params watch p t s = Ok (s', q) \<Longrightarrow>
    sys_reach lys ld s' (known \<union> set (ks_live s))"
| spawn_fails: "sys_reach lys ld s known \<Longrightarrow> spawn_process lys ld path params watch p t s = Err (e, s') \<Longrightarrow>
    sys_reach lys ld s' (known \<union> set (ks_live s))"
| call: "sys_reach lys ld s known \<Longrightarrow> r \<in> known \<union> set (ks_live s) \<Longrightarrow> system_call n r t regs s = Ok (s', ws) \<Longrightarrow>
    sys_reach lys ld s' (known \<union> set (ks_live s))"
| fault: "sys_reach lys ld s known \<Longrightarrow> on_page_fault t s = (Ok s' :: (unit, ksys) outcome) \<Longrightarrow> sys_reach lys ld s' (known \<union> set (ks_live s))"
| poll: "sys_reach lys ld s known \<Longrightarrow> dispatch_new_commands r s = Some (s', ts) \<Longrightarrow> sys_reach lys ld s' (known \<union> set (ks_live s))"
| post: "sys_reach lys ld s known \<Longrightarrow> post_completion r rq cmpl s = Some (Ok s') \<Longrightarrow> sys_reach lys ld s' (known \<union> set (ks_live s))"

lemma sys_reach_tables: "sys_reach lys ld s known \<Longrightarrow> tables_ok known s"
proof (induction rule: sys_reach.induct)
  case (start s)
  then show ?case using process_new_ok by (force simp: tables_ok_def)
next
  case (dispatch s known r cmd rq p t s' d)
  then show ?case using dispatch_command_ok [of "known \<union> set (ks_live s)" s r] by (simp add: tables_ok_def)
next
  case (spawn s known path params watch p t s' q)
  then show ?case using spawn_process_leaves [of "known \<union> set (ks_live s)" s lys ld path params watch p t] by (simp add: tables_ok_def)
next
  case (spawn_fails s known path params watch p t e s')
  then show ?case using spawn_process_leaves [of "known \<union> set (ks_live s)" s lys ld path params watch p t] by (simp add: tables_ok_def)
next
  case (call s known r n t regs s' ws)
  then show ?case using system_call_ok [of "known \<union> set (ks_live s)" s r] by (simp add: tables_ok_def)
next
  case (fault s known t s')
  then have "quiet s s'" using exit_thread_quiet unfolding on_page_fault_def by blast
  then show ?case using fault.IH tables_ok_quiet [of "known \<union> set (ks_live s)" s s'] by (simp add: tables_ok_def)
next
  case (poll s known r s' ts)
  then have "quiet s s'" using quiet_process drain_queues_same by (auto simp: dispatch_new_commands_def)
  then show ?case using poll.IH tables_ok_quiet [of "known \<union> set (ks_live s)" s s'] by (simp add: tables_ok_def)
next
  case (post s known r rq cmpl s')
  then have "quiet s s'"
    by (auto simp: post_completion_def Let_def quiet_def same_queues_def split: if_splits option.splits bool.splits)
  then show ?case using post.IH tables_ok_quiet [of "known \<union> set (ks_live s)" s s'] by (simp add: tables_ok_def)
qed

lemma created_queue_listed:
  assumes "create_completion_queue ly n pr k = Ok (pr', k', nq) \<or> create_submission_queue ly n i pr k = Ok (pr', k', nq)"
  shows "nq_id nq \<in> set (queue_ids pr')"
  using assms
proof
  assume "create_completion_queue ly n pr k = Ok (pr', k', nq)"
  then obtain pr1 oq mem where c: "create_queue ly n pr k = Ok (pr1, k', oq, nq, mem :: message queue_mem)"
    and pr': "p_recv_queues pr' = oq # p_recv_queues pr1"
    by (auto simp: create_completion_queue_def outcome_simps)
  show ?thesis using create_queue_Ok(3,4) [OF c] by (simp add: pr' queue_ids_def)
next
  assume "create_submission_queue ly n i pr k = Ok (pr', k', nq)"
  then obtain rq where "finish_submission_queue ly n rq pr k = Ok (pr', k', nq)"
    by (auto simp: create_submission_queue_def split: option.splits)
  from finish_submission_queue_Ok [OF this] show ?thesis by (auto simp: queue_ids_def)
qed

lemma new_queue_fresh:
  assumes ok: "queues_ok (ks_procs s r)" and h: "handle_command lys ld r cmd rq p t s = Ok (s', Reply (CplNewQueue nq))"
  shows "nq_id nq \<notin> set (queue_ids (ks_procs s r)) \<and> nq_id nq \<in> set (queue_ids (ks_procs s' r))"
proof -
  obtain ly n i pr' k' where c: "create_completion_queue ly n (ks_procs s r) (ks_mem s) = Ok (pr', k', nq) \<or>
      create_submission_queue ly n i (ks_procs s r) (ks_mem s) = Ok (pr', k', nq)" and s': "ks_procs s' r = pr'"
    using h by (auto simp: handle_command_def on_process_def put_process_def outcome_simps split: command_kind.splits) blast+
  have "p_next_queue_id (ks_procs s r) \<noteq> 0 \<and> nq_id nq = unat (p_next_queue_id (ks_procs s r))"
    using c create_completion_queue_ok(2) [OF ok] create_submission_queue_ok(2) [OF ok] by blast
  then show ?thesis using queues_okD(3) [OF ok] created_queue_listed [OF c] s' by auto
qed


section \<open>An example\<close>

lemma map_page_into_tables:
  assumes "to_parts va = (tag, i0, i1, i2, i3, 0)" "tag_matches pt tag" "va < usize_bound" "pa < usize_bound"
    "read_entry m (level0_phy_addr pt) i0 = Ok (table_desc t1)" "read_entry m t1 i1 = Ok (table_desc t2)"
    "read_entry m t2 i2 = Ok (table_desc t3)" "read_entry m t3 i3 = Ok e" "page_addr_ok t1" "page_addr_ok t2" "page_addr_ok t3"
  shows "map_range pt pa va 1 True opts m =
     Ok (write_entry m t3 i3 (apply_options opts (page_entry pa)), pt\<lparr>pt_modified := True\<rparr>)"
proof -
  have "map_page opts (level0_phy_addr pt) pa va 1 m = Ok (write_entry m t3 i3 (apply_options opts (page_entry pa)), 1)"
    using assms(5-) by (simp add: map_page_def assms(1) table_ref_def table_desc_decode)
  then show ?thesis using assms(2-4)
    by (simp add: map_range_def assms(1) map_loop.simps [of _ _ _ _ _ 0] map_loop.simps [of _ _ _ _ _ "Suc 0"])
qed

text \<open>
  One free page, the tables of a process at \<open>0x1000\<close> and of the kernel at \<open>0x2000\<close> down to a common last
  table.
\<close>

definition example_tables :: pt_mem where
  "example_tables =
     \<lparr>pm_tables = (\<lambda>a. if a = 0x1000 \<or> a = 0x2000 then Some (replicate 512 (table_desc 0x3000))
        else if a = 0x3000 then Some (replicate 512 (table_desc 0x4000))
        else if a = 0x4000 then Some (replicate 512 (table_desc 0x5000))
        else if a = 0x5000 then Some (replicate 512 0) else None),
      pm_alloc = \<lparr>allocated_pages = [False], memory_start = 0x40000000, memory_length = 0x1000\<rparr>\<rparr>"

definition example_table :: "bool \<Rightarrow> physical_address \<Rightarrow> page_table" where
  "example_table high root = \<lparr>high_addresses = high, pt_modified = False, asid = 0, level0_phy_addr = root\<rparr>"

definition example_memory :: kmem where
  "example_memory = \<lparr>km_pt = example_tables, km_vaa = virt_alloc_new START_ADDRESS 16, km_table = example_table True 0x2000,
     km_ram = (\<lambda>_. 0)\<rparr>"

definition example_process :: process where
  "example_process = process_new 1 (example_table False 0x1000) (virt_alloc_new PAGE_SIZE 16)"

definition example_layout :: queue_layout where
  "example_layout = \<lparr>ly_slot_size = 32, ly_slot_align = 8, ly_counters = 256\<rparr>"

lemma example_alloc:
  "\<exists>pr k. alloc_memory 1 True (example_process\<lparr>p_next_queue_id := c\<rparr>) example_memory = Ok (pr, k, PAGE_SIZE, Some START_ADDRESS)"
proof -
  let ?p = "\<lparr>allocated_pages = [True], memory_start = 0x40000000, memory_length = 0x1000\<rparr>"
    and ?opts = "\<lparr>read_only = False, el0_access = True\<rparr>"
  let ?m = "example_tables\<lparr>pm_alloc := ?p\<rparr>"
  let ?m1 = "write_entry ?m 0x5000 1 (apply_options ?opts (page_entry 0x40000000))"
  have tables: "page_addr_ok 0x3000" "page_addr_ok 0x4000" "page_addr_ok 0x5000" by (simp_all add: page_addr_ok_def PAGE_SIZE_def dvd_def)
  have user: "map_range (example_table False 0x1000) 0x40000000 PAGE_SIZE 1 True ?opts ?m =
      Ok (?m1, example_table False 0x1000\<lparr>pt_modified := True\<rparr>)"
    by (rule map_page_into_tables [where ?t1.0 = "0x3000" and ?t2.0 = "0x4000" and tag = 0 and ?i0.0 = 0 and ?i1.0 = 0 and ?i2.0 = 0])
      (use tables in \<open>simp_all add: to_parts_eq PAGE_SIZE_def example_table_def tag_matches_def read_entry_def example_tables_def\<close>)
  have kernel: "\<exists>m2. map_range (example_table True 0x2000) 0x40000000 START_ADDRESS 1 True ?opts ?m1 =
      Ok (m2, example_table True 0x2000\<lparr>pt_modified := True\<rparr>)"
    by (rule exI, rule map_page_into_tables [where ?t1.0 = "0x3000" and ?t2.0 = "0x4000" and ?t3.0 = "0x5000" and tag = "0xffff" and
        ?i0.0 = 0 and ?i1.0 = 4 and ?i2.0 = 0 and ?i3.0 = 0])
      (use tables in \<open>simp_all add: to_parts_eq START_ADDRESS_def example_table_def tag_matches_def read_entry_def write_entry_def example_tables_def\<close>)
  have alloc: "try_alloc_contig 1 (km_alloc (example_memory\<lparr>km_vaa := v\<rparr>)) = Ok (?p, 0x40000000, 1)" for v
    by (simp add: example_memory_def example_tables_def try_alloc_contig_def take_pages_def fill_range_def)
  obtain m2 where k2: "map_range (example_table True 0x2000) 0x40000000 START_ADDRESS 1 True ?opts ?m1 =
      Ok (m2, example_table True 0x2000\<lparr>pt_modified := True\<rparr>)"
    using kernel by blast
  let ?pr = "example_process\<lparr>p_next_queue_id := c\<rparr>"
  have pages: "\<exists>pr k. alloc_pages ?opts PAGE_SIZE (Some START_ADDRESS) 1 0 (?pr\<lparr>p_address_space_allocator := v\<rparr>)
      (example_memory\<lparr>km_vaa := kv\<rparr>) = Ok (pr, k)" for v kv
    using alloc user k2
    by (simp add: alloc_pages.simps [of _ _ _ "Suc 0"] alloc_pages.simps [of _ _ _ 0] example_process_def process_new_def
        km_set_alloc_def example_memory_def va_add_def wrapping_add_def START_ADDRESS_def PAGE_SIZE_def)
  have va: "\<exists>v. va_alloc 1 (virt_alloc_new a 16) = Ok (v, a)" for a
    by (simp add: va_alloc_def virt_alloc_new_def PAGE_SIZE_def)
  obtain v where v: "va_alloc 1 (p_address_space_allocator ?pr) = Ok (v, PAGE_SIZE)"
    using va [of PAGE_SIZE] by (auto simp: example_process_def process_new_def)
  obtain kv where kv: "va_alloc 1 (km_vaa example_memory) = Ok (kv, START_ADDRESS)"
    using va [of START_ADDRESS] by (auto simp: example_memory_def)
  show ?thesis using pages [of v kv] by (auto simp: alloc_memory_def Let_def v [simplified] kv [simplified])
qed

definition example_sys :: ksys where
  "example_sys = \<lparr>ks_mem = example_memory, ks_threads = \<lparr>tt_threads = (\<lambda>_. idle_thread), tt_live = []\<rparr>,
     ks_scheduler = \<lparr>sch_queues = [], current_thread = 0\<rparr>, ks_procs = (\<lambda>_. example_process), ks_live = [0],
     ks_next_tid = 2, ks_next_pid = 2, ks_tasks = [], ks_woken = []\<rparr>"

definition example_layouts :: queue_layouts where
  "example_layouts = \<lparr>lys_command = example_layout, lys_completion = example_layout\<rparr>"

definition example_loader :: binary_loader where
  "example_loader = \<lparr>bl_open_file = (\<lambda>_. Ok 0), bl_load_pages = (\<lambda>_ _. Ok []), bl_minimal_parse = (\<lambda>_. Err ())\<rparr>"

definition example_command :: command where
  "example_command = \<lparr>cm_kind = CmdCreateCompletionQueue 4, cm_id = 9\<rparr>"

definition example_queue :: user_queue where
  "example_queue = \<lparr>uq_queue = \<lparr>q_id = 1, q_capacity = 4, q_one_lap = 8\<rparr>, uq_root_address = START_ADDRESS, uq_user_base_address = PAGE_SIZE\<rparr>"

lemma example_create:
  "\<exists>pr k mem. create_queue example_layout 4 example_process example_memory =
     Ok (pr, k, example_queue, \<lparr>nq_id = 1, nq_start = PAGE_SIZE\<rparr>, mem) \<and> queue_ids pr = []"
proof -
  obtain pr k where a: "alloc_memory 1 True (example_process\<lparr>p_next_queue_id := 2\<rparr>) example_memory =
      Ok (pr, k, PAGE_SIZE, Some START_ADDRESS)"
    using example_alloc by blast
  have "same_queues (example_process\<lparr>p_next_queue_id := 2\<rparr>) pr"
    using alloc_memory_keeps [of "example_process\<lparr>p_next_queue_id := 2\<rparr>" 1 True example_memory] a by (simp add: keeps_def)
  then have ids: "queue_ids pr = []" by (simp add: same_queues_def queue_ids_def example_process_def process_new_def)
  have n: "p_next_queue_id example_process = 1" by (simp add: example_process_def process_new_def FIRST_RECV_QUEUE_ID_def)
  have ly: "layout_size example_layout 4 = (Ok 384 :: (kernel_error \<times> process \<times> kmem, nat) outcome)"
    by (simp add: layout_size_def queue_size_in_bytes_def example_layout_def)
  have "next_power_of_two 5 = (Ok 8 :: (kernel_error \<times> process \<times> kmem, nat) outcome)" by (simp add: next_power_of_two_def upt_rec)
  moreover have "div_ceil 384 PAGE_SIZE = 1" "START_ADDRESS \<noteq> 0" by (simp_all add: div_ceil_def PAGE_SIZE_def START_ADDRESS_def)
  ultimately show ?thesis using a ids by (simp add: create_queue_def next_queue_id_eq n ly queue_new_def example_queue_def)
qed

lemma example_dispatch:
  "\<exists>s'. dispatch_command example_layouts example_loader 0 example_command example_queue 0 0 example_sys =
     Ok (s', Completed \<lparr>response_to_id = 9, cpl_kind = CplNewQueue \<lparr>nq_id = 1, nq_start = PAGE_SIZE\<rparr>\<rparr>) \<and>
     queue_ids (ks_procs s' 0) = [1]"
proof -
  obtain pr k mem where c: "create_queue example_layout 4 example_process example_memory =
      Ok (pr, k, example_queue, \<lparr>nq_id = 1, nq_start = PAGE_SIZE\<rparr>, mem :: message queue_mem)" "queue_ids pr = []"
    using example_create by blast
  then show ?thesis
    by (simp add: dispatch_command_def handle_command_def example_command_def on_process_def create_completion_queue_def
        example_layouts_def example_sys_def put_process_def queue_ids_def example_queue_def)
qed

lemma example_start: "sys_reach example_layouts example_loader example_sys {}"
  by (rule sys_reach.start) (auto simp: example_sys_def example_process_def)


text \<open>
  Zeroing starts \<open>p_filesz\<close> bytes into the buffer and not at the end of the copied data: a segment that
  does not start on a page boundary loses its last bytes.
\<close>

lemma store_zeros:
  assumes "store_bytes va (replicate n 0) k = Ok k'" "va \<le> a" "a < va + n"
    "mmu_translate (km_pt k) (level0_phy_addr (km_table k)) a = Some (pa, ro, el0)"
  shows "km_ram k' pa = 0"
proof -
  have keep: "store_bytes va xs k = Ok k' \<Longrightarrow> km_ram k pa = 0 \<Longrightarrow> set xs \<subseteq> {0} \<Longrightarrow> km_ram k' pa = 0" for va xs k
    by (induction va xs k rule: store_bytes.induct) (auto split: option.splits prod.splits bool.splits if_splits)
  have zeros: "set (replicate m 0) \<subseteq> {0 :: 8 word}" for m by auto
  show ?thesis using assms
  proof (induction n arbitrary: va k)
    case (Suc n)
    then obtain p e where p: "mmu_translate (km_pt k) (level0_phy_addr (km_table k)) va = Some (p, False, e)"
      and rest: "store_bytes (va + 1) (replicate n 0) (k\<lparr>km_ram := (km_ram k)(p := 0)\<rparr>) = Ok k'"
      by (auto split: option.splits prod.splits bool.splits)
    show ?case
    proof (cases "a = va")
      case True
      then show ?thesis using keep [OF rest _ zeros] p Suc.prems(4) by auto
    next
      case False
      then show ?thesis using Suc.IH [OF rest] Suc.prems by simp
    qed
  qed simp
qed

lemma segment_tail_zeroed:
  assumes "fill_segment seg src off va len k = Ok k'" "ph_filesz seg < ph_memsz seg" "ph_filesz seg \<le> i"
    "i < off + ph_filesz seg" "off + ph_filesz seg \<le> len"
    "mmu_translate (km_pt k) (level0_phy_addr (km_table k)) (va + i) = Some (pa, ro, el0)"
  shows "km_ram k' pa = 0"
proof -
  have same: "store_bytes a xs u = Ok u' \<Longrightarrow> km_pt u' = km_pt u \<and> km_table u' = km_table u" for a xs u u'
    by (induction a xs u rule: store_bytes.induct) (auto split: option.splits prod.splits bool.splits)
  obtain k1 where k1: "km_pt k1 = km_pt k" "km_table k1 = km_table k"
    "store_bytes (va + ph_filesz seg) (replicate (len - ph_filesz seg) 0) k1 = Ok k'"
    using assms(1,2) by (auto simp: fill_segment_def outcome_simps split: if_splits dest: same)
  then show ?thesis using store_zeros [OF k1(3), of "va + i"] assms(3-6) by simp
qed

end
