(* ===== verification/Spec2Isabelle.thy ===== *)
theory Spec2Isabelle
  imports Mem_Address Region_Alloc Phys_Alloc Virt_Alloc Msg_Queue_Conc Page_Space Phys_Buffer Registry RW_Lock Shard_Map Executor Heap_Isolation Nvme_Interrupt Block_Cache Process
begin

text \<open>
  Verification of the kernel of the repository (crates \<open>kernel\<close> and \<open>kapi\<close> under \<open>src\<close>).
\<close>

end
